(* ===== verification/Prelude.thy ===== *)
theory Prelude
  imports Main "HOL-Library.Word"
begin

text \<open>
  Shared vocabulary of the development: the machine types of the kernel (bytes, errno-style
  results, wrap-around of 64-bit quantities), the byte-addressed memory, the iterator
  functions of the Rust core library that the sources use (\<open>position\<close>, \<open>rposition\<close>,
  \<open>starts_with\<close>, \<open>resize\<close>), the little-endian encoding of integers, and the generic lemmas
  about them.  Lemmas that the component theories want in their simplifier calls are collected
  in the named theorem lists declared first.
\<close>

section \<open>Collections of facts\<close>

named_theorems kernel_defs \<open>unfolding of the small wrappers used by every component\<close>
named_theorems mem_simps \<open>reading and writing byte-addressed memory\<close>

section \<open>Machine types\<close>

type_synonym u8 = "8 word"
type_synonym u16 = "16 word"
type_synonym u32 = "32 word"
type_synonym u64 = "64 word"
type_synonym bytes = "u8 list"

text \<open>
  A file descriptor is an \<open>i32\<close> and a system-call result an \<open>i64\<close>; both are modelled as
  \<open>int\<close>, and the places where the code converts or wraps use the functions below.  Sizes and
  addresses (\<open>usize\<close>, \<open>u64\<close>) are modelled as \<open>nat\<close>, with \<open>wrap64\<close> written wherever the
  unchecked arithmetic of a release build can wrap.
\<close>

definition wrap64 :: "nat \<Rightarrow> nat" where
  "wrap64 x = x mod 2 ^ 64"

definition i64_of :: "int \<Rightarrow> int" where
  "i64_of x = (x + 2 ^ 63) mod 2 ^ 64 - 2 ^ 63"

definition i32_of :: "int \<Rightarrow> int" where
  "i32_of x = (x + 2 ^ 31) mod 2 ^ 32 - 2 ^ 31"

definition u64_max :: nat where
  "u64_max = 2 ^ 64 - 1"

definition saturating_add :: "nat \<Rightarrow> nat \<Rightarrow> nat" where
  "saturating_add a b = min (a + b) u64_max"

definition saturating_mul :: "nat \<Rightarrow> nat \<Rightarrow> nat" where
  "saturating_mul a b = min (a * b) u64_max"

definition checked_add :: "nat \<Rightarrow> nat \<Rightarrow> nat option" where
  "checked_add a b = (if a + b < 2 ^ 64 then Some (a + b) else None)"

definition checked_sub :: "nat \<Rightarrow> nat \<Rightarrow> nat option" where
  "checked_sub a b = (if b \<le> a then Some (a - b) else None)"

definition wrapping_sub :: "nat \<Rightarrow> nat \<Rightarrow> nat" where
  "wrapping_sub a b = wrap64 (a + (2 ^ 64 - b mod 2 ^ 64))"

definition saturating_sub :: "nat \<Rightarrow> nat \<Rightarrow> nat" where
  "saturating_sub a b = a - b"

text \<open>\<open>(x + (a - 1)) & !(a - 1)\<close> for a power of two \<open>a\<close>, and \<open>x & !(a - 1)\<close>.\<close>

definition align_up :: "nat \<Rightarrow> nat \<Rightarrow> nat" where
  "align_up x a = (x + (a - 1)) div a * a"

definition align_down :: "nat \<Rightarrow> nat \<Rightarrow> nat" where
  "align_down x a = x div a * a"

lemma wrap64_id [simp]: "x < 2 ^ 64 \<Longrightarrow> wrap64 x = x"
  by (simp add: wrap64_def)

lemma wrap64_less [simp]: "wrap64 x < 2 ^ 64"
  by (simp add: wrap64_def)

lemma wrap64_once:
  assumes "2 ^ 64 \<le> x" "x < 2 * 2 ^ 64"
  shows "wrap64 x = x - 2 ^ 64"
proof -
  have "x - 2 ^ 64 < 2 ^ 64"
    using assms by linarith
  then show ?thesis
    unfolding wrap64_def using assms(1) by (simp only: le_mod_geq mod_less)
qed

lemma wrapping_sub_le: "b \<le> a \<Longrightarrow> a < 2 ^ 64 \<Longrightarrow> wrapping_sub a b = a - b"
proof -
  assume b: "b \<le> a" "a < 2 ^ 64"
  then have "a + (2 ^ 64 - b mod 2 ^ 64) = (a - b) + 2 ^ 64"
    by simp
  then show ?thesis
    using b by (simp only: wrapping_sub_def wrap64_def mod_add_self2) simp
qed

lemma i64_of_id [simp]: "- (2 ^ 63) \<le> x \<Longrightarrow> x < 2 ^ 63 \<Longrightarrow> i64_of x = x"
  by (simp add: i64_of_def)

lemma i64_of_range: "- (2 ^ 63) \<le> i64_of x" "i64_of x < 2 ^ 63"
  by (simp_all add: i64_of_def)

lemma i32_of_id [simp]: "- (2 ^ 31) \<le> x \<Longrightarrow> x < 2 ^ 31 \<Longrightarrow> i32_of x = x"
  by (simp add: i32_of_def)

lemma checked_add_Some [simp]:
  "checked_add a b = Some c \<longleftrightarrow> c = a + b \<and> a + b < 2 ^ 64"
  by (auto simp: checked_add_def)

lemma checked_add_None [simp]: "checked_add a b = None \<longleftrightarrow> 2 ^ 64 \<le> a + b"
  by (simp add: checked_add_def not_less)

lemma checked_sub_Some [simp]: "checked_sub a b = Some c \<longleftrightarrow> b \<le> a \<and> c = a - b"
  by (auto simp: checked_sub_def)

lemma align_down_le [simp]: "align_down x a \<le> x"
  by (simp add: align_down_def)

lemma align_down_dvd [simp]: "a dvd align_down x a"
  by (simp add: align_down_def)

lemma align_down_gt: "0 < a \<Longrightarrow> x < align_down x a + a"
proof -
  assume a: "0 < a"
  have "x = x div a * a + x mod a"
    by simp
  moreover have "x mod a < a"
    using a by simp
  ultimately show ?thesis
    unfolding align_down_def by linarith
qed

lemma align_down_id: "a dvd x \<Longrightarrow> align_down x a = x"
  by (simp add: align_down_def)

lemma align_up_ge: "0 < a \<Longrightarrow> x \<le> align_up x a"
proof -
  assume a: "0 < a"
  have "x + (a - 1) < align_down (x + (a - 1)) a + a"
    by (rule align_down_gt [OF a])
  then show ?thesis
    using a by (simp add: align_up_def align_down_def)
qed

lemma align_up_dvd [simp]: "a dvd align_up x a"
  by (simp add: align_up_def)

lemma align_up_less: "0 < a \<Longrightarrow> align_up x a < x + a"
proof -
  assume a: "0 < a"
  have "(x + (a - 1)) div a * a \<le> x + (a - 1)"
    by (rule div_times_less_eq_dividend)
  also have "\<dots> < x + a"
    using a by simp
  finally show ?thesis
    by (simp add: align_up_def)
qed

lemma align_up_id: "a dvd x \<Longrightarrow> 0 < a \<Longrightarrow> align_up x a = x"
proof -
  assume a: "a dvd x" "0 < a"
  then obtain k where k: "x = a * k"
    by (auto elim: dvdE)
  have "(a * k + (a - 1)) div a = k"
    by (rule div_nat_eqI) (use a(2) in \<open>auto simp: mult.commute\<close>)
  then show ?thesis
    unfolding align_up_def k by (simp only: mult.commute)
qed

section \<open>Byte strings\<close>

text \<open>A Rust byte-string literal \<open>b"..."\<close>.\<close>

definition bytes_of :: "string \<Rightarrow> bytes" where
  "bytes_of s = map (\<lambda>c. of_nat (of_char c)) s"

lemma bytes_of_simps [simp]:
  "bytes_of [] = []"
  "bytes_of (c # cs) = of_nat (of_char c) # bytes_of cs"
  by (simp_all add: bytes_of_def)

lemma length_bytes_of [simp]: "length (bytes_of s) = length s"
  by (simp add: bytes_of_def)

definition starts_with :: "'a list \<Rightarrow> 'a list \<Rightarrow> bool" where
  "starts_with xs p \<longleftrightarrow> take (length p) xs = p"

definition ends_with :: "'a list \<Rightarrow> 'a list \<Rightarrow> bool" where
  "ends_with xs p \<longleftrightarrow> length p \<le> length xs \<and> drop (length xs - length p) xs = p"

lemma starts_with_iff: "starts_with xs p \<longleftrightarrow> (\<exists>ys. xs = p @ ys)"
proof
  assume "starts_with xs p"
  then have "xs = p @ drop (length p) xs"
    unfolding starts_with_def by (metis append_take_drop_id)
  then show "\<exists>ys. xs = p @ ys" ..
qed (auto simp: starts_with_def)

lemma starts_with_append [simp]: "starts_with (p @ ys) p"
  by (simp add: starts_with_def)

lemma starts_with_trans: "starts_with xs q \<Longrightarrow> starts_with q p \<Longrightarrow> starts_with xs p"
  by (auto simp: starts_with_iff)

text \<open>\<open>Vec::resize(n, v)\<close>.\<close>

definition resize :: "'a list \<Rightarrow> nat \<Rightarrow> 'a \<Rightarrow> 'a list" where
  "resize xs n v = take n xs @ replicate (n - length xs) v"

lemma length_resize [simp]: "length (resize xs n v) = n"
  by (simp add: resize_def)

lemma nth_resize: "i < n \<Longrightarrow> resize xs n v ! i = (if i < length xs then xs ! i else v)"
  by (simp add: resize_def nth_append min_def)

text \<open>\<open>Vec::remove(i)\<close> and \<open>Vec::swap_remove(i)\<close>, for an index in range.\<close>

definition remove_at :: "nat \<Rightarrow> 'a list \<Rightarrow> 'a list" where
  "remove_at i xs = take i xs @ drop (Suc i) xs"

definition swap_remove :: "nat \<Rightarrow> 'a list \<Rightarrow> 'a list" where
  "swap_remove i xs = butlast (xs[i := last xs])"

lemma length_swap_remove: "i < length xs \<Longrightarrow> length (swap_remove i xs) = length xs - 1"
  by (simp add: swap_remove_def)

section \<open>Iterator functions\<close>

text \<open>\<open>Iterator::position\<close>: the index of the first element that satisfies the predicate.\<close>

primrec position :: "('a \<Rightarrow> bool) \<Rightarrow> 'a list \<Rightarrow> nat option" where
  "position P [] = None"
| "position P (x # xs) = (if P x then Some 0 else map_option Suc (position P xs))"

lemma position_None_iff: "position P xs = None \<longleftrightarrow> (\<forall>x\<in>set xs. \<not> P x)"
  by (induction xs) auto

lemma position_SomeD:
  "position P xs = Some i \<Longrightarrow> i < length xs \<and> P (xs ! i) \<and> (\<forall>j<i. \<not> P (xs ! j))"
proof (induction xs arbitrary: i)
  case Nil
  then show ?case by simp
next
  case (Cons x xs)
  show ?case
  proof (cases "P x")
    case True
    with Cons.prems show ?thesis by simp
  next
    case False
    with Cons.prems obtain k where k: "position P xs = Some k" "i = Suc k"
      by auto
    have "\<forall>j<i. \<not> P ((x # xs) ! j)"
      using Cons.IH [OF k(1)] False k(2) by (auto simp: less_Suc_eq_0_disj)
    with Cons.IH [OF k(1)] k(2) show ?thesis by simp
  qed
qed

lemma position_SomeI:
  "i < length xs \<Longrightarrow> P (xs ! i) \<Longrightarrow> (\<And>j. j < i \<Longrightarrow> \<not> P (xs ! j)) \<Longrightarrow> position P xs = Some i"
proof (induction xs arbitrary: i)
  case Nil
  then show ?case by simp
next
  case (Cons x xs)
  show ?case
  proof (cases i)
    case 0
    with Cons.prems show ?thesis by simp
  next
    case (Suc k)
    have "\<not> P x" using Cons.prems(3) [of 0] Suc by simp
    moreover have "position P xs = Some k"
    proof (rule Cons.IH)
      show "k < length xs" "P (xs ! k)" using Cons.prems Suc by simp_all
      show "\<not> P (xs ! j)" if "j < k" for j
        using Cons.prems(3) [of "Suc j"] Suc that by simp
    qed
    ultimately show ?thesis using Suc by simp
  qed
qed

lemma position_Some_iff:
  "position P xs = Some i \<longleftrightarrow> i < length xs \<and> P (xs ! i) \<and> (\<forall>j<i. \<not> P (xs ! j))"
  using position_SomeD position_SomeI by metis

lemma position_less: "position P xs = Some i \<Longrightarrow> i < length xs"
  by (simp add: position_Some_iff)

lemma position_holds: "position P xs = Some i \<Longrightarrow> P (xs ! i)"
  by (simp add: position_Some_iff)

lemma position_cong: "(\<And>x. x \<in> set xs \<Longrightarrow> P x = Q x) \<Longrightarrow> position P xs = position Q xs"
  by (induction xs) auto

lemma position_map: "position P (map f xs) = position (P \<circ> f) xs"
  by (induction xs) auto

text \<open>\<open>iter().rposition\<close>: the index of the last element that satisfies the predicate.\<close>

definition rposition :: "('a \<Rightarrow> bool) \<Rightarrow> 'a list \<Rightarrow> nat option" where
  "rposition P xs = map_option (\<lambda>i. length xs - Suc i) (position P (rev xs))"

lemma rposition_snoc:
  "rposition P (xs @ [x]) = (if P x then Some (length xs) else rposition P xs)"
proof (cases "P x")
  case False
  have "map_option (\<lambda>i. length xs - i) (map_option Suc (position P (rev xs)))
      = map_option (\<lambda>i. length xs - Suc i) (position P (rev xs))"
    by (simp add: option.map_comp comp_def)
  with False show ?thesis
    by (simp add: rposition_def)
qed (simp add: rposition_def)

lemma rposition_Some_iff:
  "rposition P xs = Some i \<longleftrightarrow>
     i < length xs \<and> P (xs ! i) \<and> (\<forall>j. i < j \<and> j < length xs \<longrightarrow> \<not> P (xs ! j))"
proof (induction xs rule: rev_induct)
  case Nil
  then show ?case by (simp add: rposition_def)
next
  case (snoc x xs)
  have last: "(xs @ [x]) ! length xs = x"
    by simp
  have init: "(xs @ [x]) ! j = xs ! j" if "j < length xs" for j
    using that by (simp add: nth_append)
  show ?case
  proof (cases "P x")
    case True
    then have "i = length xs"
      if "i < length (xs @ [x])" "\<forall>j. i < j \<and> j < length (xs @ [x]) \<longrightarrow> \<not> P ((xs @ [x]) ! j)"
      using that last by (metis length_append_singleton less_SucE less_Suc_eq)
    with True last show ?thesis
      by (auto simp: rposition_snoc)
  next
    case False
    have "(i < length (xs @ [x]) \<and> P ((xs @ [x]) ! i) \<and>
           (\<forall>j. i < j \<and> j < length (xs @ [x]) \<longrightarrow> \<not> P ((xs @ [x]) ! j)))
      \<longleftrightarrow> (i < length xs \<and> P (xs ! i) \<and> (\<forall>j. i < j \<and> j < length xs \<longrightarrow> \<not> P (xs ! j)))"
      using False last init by (metis length_append_singleton less_Suc_eq)
    with False snoc show ?thesis
      by (simp add: rposition_snoc)
  qed
qed

lemma rposition_None_iff: "rposition P xs = None \<longleftrightarrow> (\<forall>x\<in>set xs. \<not> P x)"
  by (simp add: rposition_def position_None_iff)

section \<open>Lists\<close>

lemma set_update_subset: "x \<in> set (xs[i := v]) \<Longrightarrow> x = v \<or> x \<in> set xs"
  by (meson insert_iff set_update_subset_insert subsetD)

lemma distinct_map_update:
  assumes "distinct (map f xs)" and "f v \<notin> f ` set xs"
  shows "distinct (map f (xs[i := v]))"
  using assms by (cases "i < length xs") (simp_all add: map_update distinct_list_update)

lemma sum_list_update_nat:
  fixes xs :: "nat list"
  assumes "i < length xs"
  shows "sum_list (xs[i := v]) + xs ! i = sum_list xs + v"
  using assms by (induction xs arbitrary: i) (auto split: nat.splits)

section \<open>Memory\<close>

text \<open>
  The identity-mapped address space, one byte per address.  \<open>mem_write\<close> is
  \<open>copy_nonoverlapping\<close> to an address, \<open>mem_read\<close> the copy from one.
\<close>

type_synonym memory = "nat \<Rightarrow> u8"

definition mem_read :: "memory \<Rightarrow> nat \<Rightarrow> nat \<Rightarrow> bytes" where
  "mem_read m a n = map (\<lambda>i. m (a + i)) [0..<n]"

definition mem_write :: "memory \<Rightarrow> nat \<Rightarrow> bytes \<Rightarrow> memory" where
  "mem_write m a bs = (\<lambda>x. if a \<le> x \<and> x < a + length bs then bs ! (x - a) else m x)"

lemma length_mem_read [simp]: "length (mem_read m a n) = n"
  by (simp add: mem_read_def)

lemma nth_mem_read [simp]: "i < n \<Longrightarrow> mem_read m a n ! i = m (a + i)"
  by (simp add: mem_read_def)

lemma mem_write_outside [simp]: "x < a \<or> a + length bs \<le> x \<Longrightarrow> mem_write m a bs x = m x"
  by (auto simp: mem_write_def)

lemma mem_write_inside [simp]: "i < length bs \<Longrightarrow> mem_write m a bs (a + i) = bs ! i"
  by (simp add: mem_write_def)

lemma mem_write_Nil [simp]: "mem_write m a [] = m"
  by (rule ext, rule mem_write_outside) auto

lemma mem_read_write [simp]: "mem_read (mem_write m a bs) a (length bs) = bs"
  by (rule nth_equalityI) simp_all

lemma mem_read_write_take:
  "n \<le> length bs \<Longrightarrow> mem_read (mem_write m a bs) a n = take n bs"
  by (rule nth_equalityI) simp_all

lemma mem_read_write_other:
  "b + n \<le> a \<or> a + length bs \<le> b \<Longrightarrow> mem_read (mem_write m a bs) b n = mem_read m b n"
  by (rule nth_equalityI) auto

section \<open>Little-endian integers\<close>

text \<open>\<open>to_ne_bytes\<close> and \<open>from_ne_bytes\<close> on x86-64 are little-endian.\<close>

primrec le_bytes :: "nat \<Rightarrow> nat \<Rightarrow> bytes" where
  "le_bytes 0 x = []"
| "le_bytes (Suc n) x = of_nat (x mod 256) # le_bytes n (x div 256)"

primrec le_nat :: "bytes \<Rightarrow> nat" where
  "le_nat [] = 0"
| "le_nat (b # bs) = unat b + 256 * le_nat bs"

lemma length_le_bytes [simp]: "length (le_bytes n x) = n"
  by (induction n arbitrary: x) simp_all

lemma unat_u8_less: "unat (b :: u8) < 256"
  using unsigned_less [of b, where ?'a = nat] by simp

lemma unat_of_nat_u8: "x < 256 \<Longrightarrow> unat (of_nat x :: u8) = x"
  by (simp add: unat_of_nat)

lemma le_nat_le_bytes: "le_nat (le_bytes n x) = x mod 256 ^ n"
proof (induction n arbitrary: x)
  case 0
  then show ?case by simp
next
  case (Suc n)
  have "le_nat (le_bytes (Suc n) x) = x mod 256 + 256 * (x div 256 mod 256 ^ n)"
    by (simp add: Suc.IH unat_of_nat_u8 del: of_nat_mod)
  also have "\<dots> = x mod 256 ^ Suc n"
    by (simp only: power_Suc mod_mult2_eq add.commute)
  finally show ?case .
qed

lemma le_nat_le_bytes_id [simp]: "x < 256 ^ n \<Longrightarrow> le_nat (le_bytes n x) = x"
  by (simp add: le_nat_le_bytes)

lemma le_nat_less: "le_nat bs < 256 ^ length bs"
proof (induction bs)
  case Nil
  then show ?case by simp
next
  case (Cons b bs)
  have "unat b + 256 * le_nat bs < 256 * Suc (le_nat bs)"
    using unat_u8_less [of b] by simp
  also have "\<dots> \<le> 256 * 256 ^ length bs"
    using Cons by (intro mult_le_mono2) simp
  finally show ?case by simp
qed

lemma le_bytes_le_nat: "length bs = n \<Longrightarrow> le_bytes n (le_nat bs) = bs"
proof (induction n arbitrary: bs)
  case 0
  then show ?case by simp
next
  case (Suc n)
  then obtain b bs' where bs: "bs = b # bs'" "length bs' = n"
    by (cases bs) auto
  have "(unat b + 256 * le_nat bs') mod 256 = unat b"
    using unat_u8_less [of b] by (simp only: mod_mult_self2 mod_less)
  moreover have "(unat b + 256 * le_nat bs') div 256 = le_nat bs'"
    by (rule div_nat_eqI) (use unat_u8_less [of b] in simp_all)
  ultimately show ?case
    using Suc.IH [OF bs(2)] by (simp only: bs(1) le_nat.simps le_bytes.simps) simp
qed

end
