(* ===== verification/Paging.thy ===== *)
theory Paging
  imports Prelude
begin

text \<open>
  The kernel's page tables (\<open>src/src/memory/paging.rs\<close>): the statically allocated
  hierarchy for the 4 GiB identity map, the splitting of 2 MiB pages, the attribution of the
  user and no-execute bits, guard pages, scratch frames for stray low accesses, and the
  software walk that decides whether a range is user memory.

  A table is a function from its index to a 64-bit entry.  The addresses the linker gives the
  static tables are the fields of \<open>layout\<close>; a pointer taken from an entry is resolved to the
  table that lives at that address by \<open>deref\<close>.  The hardware walk, which the software walk is
  compared with, is \<open>hw_walk\<close>.
\<close>

unbundle bit_operations_syntax

section \<open>Constants and state\<close>

definition PAGE_PRESENT :: u64 where "PAGE_PRESENT = push_bit 0 1"
definition PAGE_WRITABLE :: u64 where "PAGE_WRITABLE = push_bit 1 1"
definition PAGE_USER :: u64 where "PAGE_USER = push_bit 2 1"
definition PAGE_HUGE :: u64 where "PAGE_HUGE = push_bit 7 1"
definition PAGE_NX :: u64 where "PAGE_NX = push_bit 63 1"
definition ADDR_MASK :: u64 where "ADDR_MASK = 0x000ffffffffff000"

definition GIB :: nat where "GIB = 0x40000000"
definition TWO_MIB :: nat where "TWO_MIB = 0x200000"
definition FOUR_KIB :: nat where "FOUR_KIB = 0x1000"

definition MAX_SPLIT_PTS :: nat where "MAX_SPLIT_PTS = 16"
definition KSTACK_ARENA_BASE :: nat where "KSTACK_ARENA_BASE = 0x07000000"
definition KSTACK_ARENA_SIZE :: nat where "KSTACK_ARENA_SIZE = 16 * 1024 * 1024"
definition LOW_SCRATCH_FRAMES :: nat where "LOW_SCRATCH_FRAMES = 16"

type_synonym page_table = "nat \<Rightarrow> u64"

text \<open>Link-time addresses of the statics \<open>PML4\<close>, \<open>PDPT\<close>, \<open>PDS\<close>, \<open>SPLIT_PTS\<close>, \<open>LOW_SCRATCH\<close>.\<close>

record layout =
  at_PML4 :: nat
  at_PDPT :: nat
  at_PDS :: nat
  at_SPLIT_PTS :: nat
  at_LOW_SCRATCH :: nat

record paging =
  lay :: layout
  PML4 :: page_table
  PDPT :: page_table
  PDS :: "nat \<Rightarrow> page_table"
  SPLIT_PTS :: "nat \<Rightarrow> page_table"
  SPLIT_NEXT :: nat
  LOW_SCRATCH_NEXT :: nat

datatype table_ref = Ref_PML4 | Ref_PDPT | Ref_PD nat | Ref_SPLIT nat

definition phys_of :: "layout \<Rightarrow> table_ref \<Rightarrow> nat" where
  "phys_of l r = (case r of
     Ref_PML4 \<Rightarrow> at_PML4 l
   | Ref_PDPT \<Rightarrow> at_PDPT l
   | Ref_PD g \<Rightarrow> at_PDS l + g * FOUR_KIB
   | Ref_SPLIT k \<Rightarrow> at_SPLIT_PTS l + k * FOUR_KIB)"

text \<open>The table stored at an address; \<open>None\<close> when no table of the hierarchy lives there.\<close>

definition deref :: "layout \<Rightarrow> nat \<Rightarrow> table_ref option" where
  "deref l a =
     (if a = at_PML4 l then Some Ref_PML4
      else if a = at_PDPT l then Some Ref_PDPT
      else if at_PDS l \<le> a \<and> a < at_PDS l + 4 * FOUR_KIB \<and> FOUR_KIB dvd a - at_PDS l
      then Some (Ref_PD ((a - at_PDS l) div FOUR_KIB))
      else if at_SPLIT_PTS l \<le> a \<and> a < at_SPLIT_PTS l + MAX_SPLIT_PTS * FOUR_KIB \<and>
              FOUR_KIB dvd a - at_SPLIT_PTS l
      then Some (Ref_SPLIT ((a - at_SPLIT_PTS l) div FOUR_KIB))
      else None)"

definition get_table :: "paging \<Rightarrow> table_ref \<Rightarrow> page_table" where
  "get_table p r = (case r of
     Ref_PML4 \<Rightarrow> PML4 p | Ref_PDPT \<Rightarrow> PDPT p | Ref_PD g \<Rightarrow> PDS p g | Ref_SPLIT k \<Rightarrow> SPLIT_PTS p k)"

definition set_table :: "paging \<Rightarrow> table_ref \<Rightarrow> page_table \<Rightarrow> paging" where
  "set_table p r t = (case r of
     Ref_PML4 \<Rightarrow> p\<lparr>PML4 := t\<rparr>
   | Ref_PDPT \<Rightarrow> p\<lparr>PDPT := t\<rparr>
   | Ref_PD g \<Rightarrow> p\<lparr>PDS := (PDS p)(g := t)\<rparr>
   | Ref_SPLIT k \<Rightarrow> p\<lparr>SPLIT_PTS := (SPLIT_PTS p)(k := t)\<rparr>)"

text \<open>Reading and updating the table behind a pointer.\<close>

definition table_at :: "paging \<Rightarrow> nat \<Rightarrow> page_table" where
  "table_at p a = (case deref (lay p) a of Some r \<Rightarrow> get_table p r | None \<Rightarrow> (\<lambda>_. 0))"

definition upd_table_at :: "paging \<Rightarrow> nat \<Rightarrow> (page_table \<Rightarrow> page_table) \<Rightarrow> paging" where
  "upd_table_at p a f =
     (case deref (lay p) a of Some r \<Rightarrow> set_table p r (f (get_table p r)) | None \<Rightarrow> p)"

definition entry_addr :: "u64 \<Rightarrow> nat" where
  "entry_addr e = unat (e AND ADDR_MASK)"

section \<open>Splitting and attributing pages\<close>

definition ensure_pt :: "paging \<Rightarrow> nat \<Rightarrow> paging \<times> nat" where
  "ensure_pt p addr =
     (let gib = addr div GIB; pd_idx = addr mod GIB div TWO_MIB in
      if 4 \<le> gib then (p, 0)
      else if PDS p gib pd_idx AND PAGE_HUGE \<noteq> 0 then
        (let slot = SPLIT_NEXT p; p1 = p\<lparr>SPLIT_NEXT := slot + 1\<rparr> in
         if MAX_SPLIT_PTS \<le> slot then (p1, 0)
         else
           (let region_base = align_down addr TWO_MIB;
                pt = (\<lambda>j. if j < 512
                          then of_nat (region_base + j * FOUR_KIB) OR PAGE_PRESENT OR PAGE_WRITABLE
                          else SPLIT_PTS p1 slot j);
                pde = of_nat (phys_of (lay p) (Ref_SPLIT slot)) OR PAGE_PRESENT OR PAGE_WRITABLE;
                p2 = p1\<lparr>SPLIT_PTS := (SPLIT_PTS p1)(slot := pt),
                        PDS := (PDS p1)(gib := (PDS p1 gib)(pd_idx := pde))\<rparr>
            in (p2, entry_addr (PDS p2 gib pd_idx))))
      else (p, entry_addr (PDS p gib pd_idx)))"

definition apply_attrs :: "u64 \<Rightarrow> bool \<Rightarrow> bool \<Rightarrow> u64" where
  "apply_attrs entry us nx =
     (let v = (if us then entry OR PAGE_USER else entry AND NOT PAGE_USER)
      in if nx then v OR PAGE_NX else v AND NOT PAGE_NX)"

definition mark_user_covering_levels :: "paging \<Rightarrow> nat \<Rightarrow> paging" where
  "mark_user_covering_levels p addr =
     (let gib = addr div GIB in
      if 4 \<le> gib then p
      else
        (let p1 = p\<lparr>PML4 := (PML4 p)(0 := PML4 p 0 OR PAGE_USER)\<rparr> in
         if PDPT p1 gib AND PAGE_HUGE \<noteq> 0 then p1
         else
           (let p2 = p1\<lparr>PDPT := (PDPT p1)(gib := PDPT p1 gib OR PAGE_USER)\<rparr>;
                pd_idx = addr mod GIB div TWO_MIB
            in if PDS p2 gib pd_idx AND PAGE_HUGE \<noteq> 0 then p2
               else p2\<lparr>PDS := (PDS p2)(gib := (PDS p2 gib)
                          (pd_idx := PDS p2 gib pd_idx OR PAGE_USER))\<rparr>)))"

text \<open>One iteration of the loop of \<open>set_attrs\<close> on a region whose PDPTE is not a leaf.\<close>

definition set_attrs_region :: "paging \<Rightarrow> nat \<Rightarrow> bool \<Rightarrow> bool \<Rightarrow> paging" where
  "set_attrs_region p a us nx =
     (let gib = a div GIB;
          p1 = (if us then mark_user_covering_levels p a else p);
          pd_idx = a mod GIB div TWO_MIB;
          e = PDS p1 gib pd_idx
      in if e = 0 then p1
         else if e AND PAGE_HUGE \<noteq> 0
         then p1\<lparr>PDS := (PDS p1)(gib := (PDS p1 gib)(pd_idx := apply_attrs e us nx))\<rparr>
         else upd_table_at p1 (entry_addr e)
                (\<lambda>pt j. if j < 512 \<and> pt j AND PAGE_PRESENT \<noteq> 0
                        then apply_attrs (pt j) us nx else pt j))"

function set_attrs_loop :: "paging \<Rightarrow> nat \<Rightarrow> nat \<Rightarrow> bool \<Rightarrow> bool \<Rightarrow> paging" where
  "set_attrs_loop p a stop us nx =
     (if a < stop then
        if 4 \<le> a div GIB then p
        else if PDPT p (a div GIB) AND PAGE_HUGE \<noteq> 0
        then set_attrs_loop p (a + TWO_MIB) stop us nx
        else set_attrs_loop (set_attrs_region p a us nx) (a + TWO_MIB) stop us nx
      else p)"
  by pat_completeness auto
termination
  by (relation "measure (\<lambda>(p, a, stop, us, nx). stop - a)") (auto simp: TWO_MIB_def)

declare set_attrs_loop.simps [simp del]

definition set_attrs :: "paging \<Rightarrow> nat \<Rightarrow> nat \<Rightarrow> bool \<Rightarrow> bool \<Rightarrow> paging" where
  "set_attrs p start stop us nx = set_attrs_loop p (align_down start TWO_MIB) stop us nx"

text \<open>Without the feature \<open>stage2_shim\<close>, which is off by default and would add a fifth region.\<close>

definition attribute_regions :: "paging \<Rightarrow> paging" where
  "attribute_regions p =
     (let p = set_attrs p 0x00400000 0x07000000 True False;
          p = set_attrs p 0x0E000000 0x0E200000 True True;
          p = set_attrs p 0x1A000000 0x40000000 True False
      in set_attrs p 0x0F200000 0x1A000000 False True)"

section \<open>Building the hierarchy\<close>

text \<open>The statics as the loader leaves them: every table empty, both counters zero.\<close>

definition paging_static :: "layout \<Rightarrow> paging" where
  "paging_static l = \<lparr>lay = l, PML4 = (\<lambda>_. 0), PDPT = (\<lambda>_. 0), PDS = (\<lambda>_ _. 0),
     SPLIT_PTS = (\<lambda>_ _. 0), SPLIT_NEXT = 0, LOW_SCRATCH_NEXT = 0\<rparr>"

text \<open>The first part of \<open>init\<close>: the entries written directly.\<close>

definition paging_init_tables :: "paging \<Rightarrow> paging" where
  "paging_init_tables p =
     (let pd0 = (\<lambda>i. if i < 512
                 then of_nat (i * TWO_MIB) OR PAGE_PRESENT OR PAGE_WRITABLE OR PAGE_HUGE
                 else PDS p 0 i);
          pdpt0 = of_nat (phys_of (lay p) (Ref_PD 0)) OR PAGE_PRESENT OR PAGE_WRITABLE OR PAGE_USER;
          gib_leaf = (\<lambda>gib. let e = of_nat (gib * GIB) OR PAGE_PRESENT OR PAGE_WRITABLE OR PAGE_HUGE
                      in if gib < 3 then e OR PAGE_USER else e);
          pml40 = of_nat (phys_of (lay p) Ref_PDPT) OR PAGE_PRESENT OR PAGE_WRITABLE OR PAGE_USER
      in p\<lparr>PDS := (PDS p)(0 := pd0),
           PDPT := (PDPT p)(0 := pdpt0, 1 := gib_leaf 1, 2 := gib_leaf 2, 3 := gib_leaf 3),
           PML4 := (PML4 p)(0 := pml40)\<rparr>)"

function presplit_arena :: "paging \<Rightarrow> nat \<Rightarrow> paging" where
  "presplit_arena p off =
     (if off < KSTACK_ARENA_SIZE
      then presplit_arena (fst (ensure_pt p (KSTACK_ARENA_BASE + off))) (off + TWO_MIB)
      else p)"
  by pat_completeness auto
termination
  by (relation "measure (\<lambda>(p, off). KSTACK_ARENA_SIZE - off)") (auto simp: TWO_MIB_def)

declare presplit_arena.simps [simp del]

definition paging_init :: "paging \<Rightarrow> paging" where
  "paging_init p =
     (let p = paging_init_tables p;
          p = presplit_arena p 0;
          p = fst (ensure_pt p 0)
      in attribute_regions p)"

section \<open>Run-time operations\<close>

definition set_page_us :: "paging \<Rightarrow> nat \<Rightarrow> bool \<Rightarrow> paging" where
  "set_page_us p addr us =
     (let page = align_down addr FOUR_KIB; (p1, pt) = ensure_pt p page in
      if pt = 0 then p1
      else
        (let p2 = (if us then mark_user_covering_levels p1 page else p1);
             idx = page mod TWO_MIB div FOUR_KIB
         in upd_table_at p2 pt
              (\<lambda>t. t(idx := if us then t idx OR PAGE_USER else t idx AND NOT PAGE_USER))))"

definition map_low_scratch :: "paging \<Rightarrow> nat \<Rightarrow> paging \<times> bool" where
  "map_low_scratch p addr =
     (let page = align_down addr FOUR_KIB in
      if TWO_MIB \<le> page then (p, False)
      else
        (let slot = LOW_SCRATCH_NEXT p; p1 = p\<lparr>LOW_SCRATCH_NEXT := slot + 1\<rparr> in
         if LOW_SCRATCH_FRAMES \<le> slot then (p1, False)
         else
           (let (p2, pt) = ensure_pt p1 page in
            if pt = 0 then (p2, False)
            else
              (let p3 = mark_user_covering_levels p2 page;
                   frame = at_LOW_SCRATCH (lay p) + slot * FOUR_KIB;
                   idx = page mod TWO_MIB div FOUR_KIB
               in (upd_table_at p3 pt
                     (\<lambda>t. t(idx := (of_nat frame AND ADDR_MASK) OR PAGE_PRESENT OR PAGE_WRITABLE
                                    OR PAGE_USER)), True)))))"

definition map_guard_page :: "paging \<Rightarrow> nat \<Rightarrow> paging \<times> nat" where
  "map_guard_page p addr =
     (let page = align_down addr FOUR_KIB; (p1, pt) = ensure_pt p page in
      if pt = 0 then (p1, 0)
      else
        (let pte_idx = page mod TWO_MIB div FOUR_KIB
         in (upd_table_at p1 pt (\<lambda>t. t(pte_idx := 0)), page)))"

section \<open>The software walk\<close>

definition page_is_user :: "paging \<Rightarrow> nat \<Rightarrow> bool" where
  "page_is_user p addr =
     (let PU = PAGE_PRESENT OR PAGE_USER;
          e = PML4 p (addr div 2 ^ 39 mod 512)
      in if e AND PU \<noteq> PU then False
         else
           (let e = table_at p (entry_addr e) (addr div 2 ^ 30 mod 512) in
            if e AND PU \<noteq> PU then False
            else if e AND PAGE_HUGE \<noteq> 0 then True
            else
              (let e = table_at p (entry_addr e) (addr div 2 ^ 21 mod 512) in
               if e AND PU \<noteq> PU then False
               else if e AND PAGE_HUGE \<noteq> 0 then True
               else
                 (let e = table_at p (entry_addr e) (addr div 2 ^ 12 mod 512)
                  in e AND PU = PU))))"

function user_pages_loop :: "paging \<Rightarrow> nat \<Rightarrow> nat \<Rightarrow> bool" where
  "user_pages_loop p a stop =
     (if a < stop then
        if \<not> page_is_user p a then False else user_pages_loop p (a + FOUR_KIB) stop
      else True)"
  by pat_completeness auto
termination
  by (relation "measure (\<lambda>(p, a, stop). stop - a)") (auto simp: FOUR_KIB_def)

declare user_pages_loop.simps [simp del]

definition user_accessible :: "paging \<Rightarrow> nat \<Rightarrow> nat \<Rightarrow> bool" where
  "user_accessible p addr len =
     (if len = 0 then True
      else case checked_add addr len of
             None \<Rightarrow> False
           | Some stop \<Rightarrow>
               if 4 * GIB < stop then False
               else user_pages_loop p (align_down addr FOUR_KIB) stop)"

section \<open>Bits of an entry\<close>

lemma bit_of_flags [simp]:
  "bit PAGE_PRESENT n \<longleftrightarrow> n = 0"
  "bit PAGE_WRITABLE n \<longleftrightarrow> n = 1"
  "bit PAGE_USER n \<longleftrightarrow> n = 2"
  "bit PAGE_HUGE n \<longleftrightarrow> n = 7"
  "bit PAGE_NX n \<longleftrightarrow> n = 63"
  unfolding PAGE_PRESENT_def PAGE_WRITABLE_def PAGE_USER_def PAGE_HUGE_def PAGE_NX_def
    bit_push_bit_iff bit_1_iff by auto

lemma and_flag_iff [simp]:
  "e AND PAGE_PRESENT = 0 \<longleftrightarrow> \<not> bit e 0"
  "e AND PAGE_HUGE = 0 \<longleftrightarrow> \<not> bit e 7"
  by (auto simp: PAGE_PRESENT_def PAGE_HUGE_def bit_iff_and_push_bit_not_eq_0)

lemma and_PU_iff [simp]:
  "e AND (PAGE_PRESENT OR PAGE_USER) = PAGE_PRESENT OR PAGE_USER \<longleftrightarrow> bit e 0 \<and> bit e 2"
  for e :: u64
proof
  assume a: "e AND (PAGE_PRESENT OR PAGE_USER) = PAGE_PRESENT OR PAGE_USER"
  have "bit (e AND (PAGE_PRESENT OR PAGE_USER)) 0" "bit (e AND (PAGE_PRESENT OR PAGE_USER)) 2"
    unfolding a by (simp_all add: bit_or_iff)
  then show "bit e 0 \<and> bit e 2"
    by (simp add: bit_and_iff)
next
  assume "bit e 0 \<and> bit e 2"
  then show "e AND (PAGE_PRESENT OR PAGE_USER) = PAGE_PRESENT OR PAGE_USER"
    by (intro bit_word_eqI) (auto simp: bit_and_iff bit_or_iff)
qed

lemma bit_ADDR_MASK: "bit ADDR_MASK n \<longleftrightarrow> 12 \<le> n \<and> n < 52"
proof -
  have m: "ADDR_MASK = push_bit 12 (mask 40)"
    by (simp add: ADDR_MASK_def mask_eq_exp_minus_1 push_bit_eq_mult)
  show ?thesis
    unfolding m bit_push_bit_iff bit_mask_iff by auto
qed

lemma entry_addr_flags [simp]:
  "entry_addr (e OR PAGE_PRESENT) = entry_addr e"
  "entry_addr (e OR PAGE_WRITABLE) = entry_addr e"
  "entry_addr (e OR PAGE_USER) = entry_addr e"
  "entry_addr (e OR PAGE_HUGE) = entry_addr e"
  "entry_addr (e OR PAGE_NX) = entry_addr e"
  "entry_addr (e AND NOT PAGE_USER) = entry_addr e"
  "entry_addr (e AND NOT PAGE_NX) = entry_addr e"
  unfolding entry_addr_def
  by (rule arg_cong [of _ _ unat], rule bit_word_eqI,
      auto simp: bit_and_iff bit_or_iff bit_not_iff bit_ADDR_MASK)+

definition frame_addr :: "nat \<Rightarrow> bool" where
  "frame_addr m \<longleftrightarrow> FOUR_KIB dvd m \<and> m < 2 ^ 52"

lemma not_bit_aligned: "2 ^ k dvd m \<Longrightarrow> n < k \<Longrightarrow> \<not> bit m n" for m :: nat
proof -
  assume "2 ^ k dvd m" "n < k"
  then obtain q where "m = 2 ^ n * (2 ^ (k - n) * q)"
    by (metis dvdE le_add_diff_inverse less_imp_le_nat mult.assoc power_add)
  then have "m div 2 ^ n = 2 ^ (k - n) * q"
    by simp
  with \<open>n < k\<close> show ?thesis
    by (simp add: bit_iff_odd)
qed

lemma not_bit_small: "m < 2 ^ k \<Longrightarrow> k \<le> n \<Longrightarrow> \<not> bit m n" for m :: nat
proof -
  assume "m < 2 ^ k" "k \<le> n"
  moreover have "(2::nat) ^ k \<le> 2 ^ n"
    using \<open>k \<le> n\<close> by (intro power_increasing) simp_all
  ultimately have "m div 2 ^ n = 0"
    by (intro div_less) linarith
  then show ?thesis
    by (simp add: bit_iff_odd)
qed

lemma bit_of_nat_u64: "bit (of_nat m :: u64) n \<longleftrightarrow> n < 64 \<and> bit m n"
  by (simp add: bit_simps)

lemma bit_frame_addr:
  assumes "frame_addr m"
  shows "n < 12 \<Longrightarrow> \<not> bit (of_nat m :: u64) n" and "52 \<le> n \<Longrightarrow> \<not> bit (of_nat m :: u64) n"
proof -
  have d: "2 ^ 12 dvd m" and l: "m < 2 ^ 52"
    using assms by (simp_all add: frame_addr_def FOUR_KIB_def)
  show "n < 12 \<Longrightarrow> \<not> bit (of_nat m :: u64) n"
    using not_bit_aligned [OF d, of n] by (simp add: bit_of_nat_u64)
  show "52 \<le> n \<Longrightarrow> \<not> bit (of_nat m :: u64) n"
    using not_bit_small [OF l, of n] by (simp add: bit_of_nat_u64)
qed

lemma of_nat_and_mask: "frame_addr m \<Longrightarrow> (of_nat m :: u64) AND ADDR_MASK = of_nat m"
  by (rule bit_word_eqI) (auto simp: bit_and_iff bit_ADDR_MASK bit_frame_addr dest: bit_frame_addr
      intro: ccontr)

lemma entry_addr_of_nat [simp]: "frame_addr m \<Longrightarrow> entry_addr (of_nat m) = m"
  by (simp add: entry_addr_def of_nat_and_mask unat_of_nat frame_addr_def)

lemmas entry_bits = bit_and_iff bit_or_iff bit_not_iff bit_frame_addr

section \<open>The hardware walk\<close>

text \<open>
  What the processor does with an address: the physical address reached, the user right, which
  is the conjunction over the levels, and the no-execute flag, which is their disjunction.
\<close>

definition hw_walk :: "paging \<Rightarrow> nat \<Rightarrow> (nat \<times> bool \<times> bool) option" where
  "hw_walk p a =
     (let e4 = PML4 p (a div 2 ^ 39 mod 512) in
      if \<not> bit e4 0 then None
      else let e3 = table_at p (entry_addr e4) (a div 2 ^ 30 mod 512) in
      if \<not> bit e3 0 then None
      else if bit e3 7
      then Some (entry_addr e3 + a mod GIB, bit e4 2 \<and> bit e3 2, bit e4 63 \<or> bit e3 63)
      else let e2 = table_at p (entry_addr e3) (a div 2 ^ 21 mod 512) in
      if \<not> bit e2 0 then None
      else if bit e2 7
      then Some (entry_addr e2 + a mod TWO_MIB, bit e4 2 \<and> bit e3 2 \<and> bit e2 2,
                 bit e4 63 \<or> bit e3 63 \<or> bit e2 63)
      else let e1 = table_at p (entry_addr e2) (a div 2 ^ 12 mod 512) in
      if \<not> bit e1 0 then None
      else Some (entry_addr e1 + a mod FOUR_KIB, bit e4 2 \<and> bit e3 2 \<and> bit e2 2 \<and> bit e1 2,
                 bit e4 63 \<or> bit e3 63 \<or> bit e2 63 \<or> bit e1 63))"

definition hw_user :: "paging \<Rightarrow> nat \<Rightarrow> bool" where
  "hw_user p a = (case hw_walk p a of Some (pa, us, nx) \<Rightarrow> us | None \<Rightarrow> False)"

lemma page_is_user_hw: "page_is_user p a = hw_user p a"
proof -
  define e4 where "e4 = PML4 p (a div 2 ^ 39 mod 512)"
  define e3 where "e3 = table_at p (entry_addr e4) (a div 2 ^ 30 mod 512)"
  define e2 where "e2 = table_at p (entry_addr e3) (a div 2 ^ 21 mod 512)"
  define e1 where "e1 = table_at p (entry_addr e2) (a div 2 ^ 12 mod 512)"
  show ?thesis
    unfolding page_is_user_def hw_user_def hw_walk_def Let_def
    unfolding e4_def [symmetric]
    unfolding e3_def [symmetric]
    unfolding e2_def [symmetric]
    unfolding e1_def [symmetric]
    by simp
qed

lemma hw_user_page: "hw_user p (align_down a FOUR_KIB) = hw_user p a"
proof -
  have low: "align_down a FOUR_KIB div 2 ^ 12 = a div 2 ^ 12"
    by (simp add: align_down_def FOUR_KIB_def)
  have page_idx: "align_down a FOUR_KIB div 2 ^ k = a div 2 ^ k" if "12 \<le> k" for k
  proof -
    have split: "x div 2 ^ k = x div 2 ^ 12 div 2 ^ (k - 12)" for x :: nat
      using that by (metis div_mult2_eq le_add_diff_inverse power_add)
    show ?thesis
      unfolding split [of a] split [of "align_down a FOUR_KIB"] low ..
  qed
  have idx: "align_down a FOUR_KIB div 2 ^ 39 = a div 2 ^ 39"
    "align_down a FOUR_KIB div 2 ^ 30 = a div 2 ^ 30"
    "align_down a FOUR_KIB div 2 ^ 21 = a div 2 ^ 21"
    "align_down a FOUR_KIB div 2 ^ 12 = a div 2 ^ 12"
    by (rule page_idx, simp)+
  show ?thesis
    unfolding page_is_user_hw [symmetric] page_is_user_def idx ..
qed

lemma user_pages_loop_iff:
  "FOUR_KIB dvd a \<Longrightarrow>
   user_pages_loop p a stop \<longleftrightarrow> (\<forall>b. a \<le> b \<and> b < stop \<longrightarrow> hw_user p b)"
proof (induction p a stop rule: user_pages_loop.induct)
  case (1 p a stop)
  have step: "hw_user p b = hw_user p a" if "a \<le> b" "b < a + FOUR_KIB" for b
  proof -
    have "align_down b FOUR_KIB = a"
    proof -
      obtain k where k: "a = FOUR_KIB * k"
        using "1.prems" by (auto elim: dvdE)
      have "b div FOUR_KIB = k"
        using that k by (intro div_nat_eqI) auto
      then show ?thesis
        by (simp add: align_down_def k mult.commute)
    qed
    then show ?thesis
      using hw_user_page [of p b] by simp
  qed
  have rest: "user_pages_loop p (a + FOUR_KIB) stop \<longleftrightarrow>
      (\<forall>b. a + FOUR_KIB \<le> b \<and> b < stop \<longrightarrow> hw_user p b)"
    if "a < stop" "page_is_user p a"
    using "1.IH" that "1.prems" by simp
  show ?case
  proof (cases "a < stop \<and> page_is_user p a")
    case True
    then have "user_pages_loop p a stop \<longleftrightarrow> (\<forall>b. a + FOUR_KIB \<le> b \<and> b < stop \<longrightarrow> hw_user p b)"
      using rest by (subst user_pages_loop.simps) simp
    also have "\<dots> \<longleftrightarrow> (\<forall>b. a \<le> b \<and> b < stop \<longrightarrow> hw_user p b)"
    proof (intro iffI allI impI)
      fix b assume h: "\<forall>b. a + FOUR_KIB \<le> b \<and> b < stop \<longrightarrow> hw_user p b" and b: "a \<le> b \<and> b < stop"
      show "hw_user p b"
      proof (cases "a + FOUR_KIB \<le> b")
        case False
        then show ?thesis
          using step [of b] b True by (simp add: page_is_user_hw)
      qed (use h b in blast)
    qed simp
    finally show ?thesis .
  next
    case False
    then show ?thesis
      by (subst user_pages_loop.simps) (auto simp: page_is_user_hw)
  qed
qed

lemma user_accessible_iff:
  "user_accessible p addr len \<longleftrightarrow>
     len = 0 \<or> addr + len \<le> 4 * GIB \<and> (\<forall>b. addr \<le> b \<and> b < addr + len \<longrightarrow> hw_user p b)"
proof (cases "len = 0")
  case False
  have "4 * GIB < (2::nat) ^ 64"
    by (simp add: GIB_def)
  moreover have "(\<forall>b. align_down addr FOUR_KIB \<le> b \<and> b < addr + len \<longrightarrow> hw_user p b)
      \<longleftrightarrow> (\<forall>b. addr \<le> b \<and> b < addr + len \<longrightarrow> hw_user p b)"
  proof (intro iffI allI impI)
    fix b assume h: "\<forall>b. addr \<le> b \<and> b < addr + len \<longrightarrow> hw_user p b"
      and b: "align_down addr FOUR_KIB \<le> b \<and> b < addr + len"
    show "hw_user p b"
    proof (cases "addr \<le> b")
      case False
      have "b div FOUR_KIB = addr div FOUR_KIB"
      proof (rule antisym)
        show "b div FOUR_KIB \<le> addr div FOUR_KIB"
          using False by (intro div_le_mono) simp
        have "addr div FOUR_KIB * FOUR_KIB div FOUR_KIB \<le> b div FOUR_KIB"
          using b by (intro div_le_mono) (simp add: align_down_def)
        then show "addr div FOUR_KIB \<le> b div FOUR_KIB"
          by (simp add: FOUR_KIB_def)
      qed
      then have "align_down b FOUR_KIB = align_down addr FOUR_KIB"
        by (simp add: align_down_def)
      then have "hw_user p b = hw_user p addr"
        by (metis hw_user_page)
      with h \<open>len \<noteq> 0\<close> show ?thesis by simp
    qed (use h b in simp)
  next
    fix b assume h: "\<forall>b. align_down addr FOUR_KIB \<le> b \<and> b < addr + len \<longrightarrow> hw_user p b"
      and b: "addr \<le> b \<and> b < addr + len"
    have "align_down addr FOUR_KIB \<le> b"
      using b align_down_le [of addr FOUR_KIB] by linarith
    with h b show "hw_user p b" by simp
  qed
  ultimately show ?thesis
    using False
    by (auto simp: user_accessible_def user_pages_loop_iff split: option.splits)
qed (simp add: user_accessible_def)

end
