(* ===== verification/Paging_Isolation.thy ===== *)
theory Paging_Isolation
  imports Paging
begin

text \<open>
  What the page tables of \<open>Paging\<close> enforce.  The hierarchy for the first GiB is viewed as a
  function from 4 KiB page numbers to their presence, user right, no-execute flag and frame;
  each operation is shown to act on that view as intended while it keeps the structural
  invariant \<open>paging_ok\<close>, and the view after \<open>init\<close> and after any run of the operations the
  kernel performs at run time is computed.
\<close>

section \<open>Layout and structural invariant\<close>

text \<open>
  The statics lie page-aligned in the kernel's data block, as the linker script places them,
  and do not overlap.
\<close>

definition block_ok :: "nat \<Rightarrow> nat \<Rightarrow> bool" where
  "block_ok b n \<longleftrightarrow> FOUR_KIB dvd b \<and> 0x0F200000 \<le> b \<and> b + n * FOUR_KIB \<le> 0x1A000000"

definition apart :: "nat \<Rightarrow> nat \<Rightarrow> nat \<Rightarrow> nat \<Rightarrow> bool" where
  "apart b n c m \<longleftrightarrow> b + n * FOUR_KIB \<le> c \<or> c + m * FOUR_KIB \<le> b"

definition layout_ok :: "layout \<Rightarrow> bool" where
  "layout_ok l \<longleftrightarrow>
     block_ok (at_PML4 l) 1 \<and> block_ok (at_PDPT l) 1 \<and> block_ok (at_PDS l) 4 \<and>
     block_ok (at_SPLIT_PTS l) MAX_SPLIT_PTS \<and> block_ok (at_LOW_SCRATCH l) LOW_SCRATCH_FRAMES \<and>
     apart (at_PML4 l) 1 (at_PDPT l) 1 \<and> apart (at_PML4 l) 1 (at_PDS l) 4 \<and>
     apart (at_PML4 l) 1 (at_SPLIT_PTS l) MAX_SPLIT_PTS \<and>
     apart (at_PDPT l) 1 (at_PDS l) 4 \<and> apart (at_PDPT l) 1 (at_SPLIT_PTS l) MAX_SPLIT_PTS \<and>
     apart (at_PDS l) 4 (at_SPLIT_PTS l) MAX_SPLIT_PTS"

lemma apart_pages:
  "apart b n c m \<Longrightarrow> i < n \<Longrightarrow> \<not> (c \<le> b + i * FOUR_KIB \<and> b + i * FOUR_KIB < c + m * FOUR_KIB)"
proof
  assume h: "apart b n c m" "i < n" and c: "c \<le> b + i * FOUR_KIB \<and> b + i * FOUR_KIB < c + m * FOUR_KIB"
  have "i * FOUR_KIB < n * FOUR_KIB"
    using h(2) by (simp add: FOUR_KIB_def)
  with h(1) c show False
    unfolding apart_def by linarith
qed

lemma apart_sym: "apart b n c m \<Longrightarrow> apart c m b n"
  unfolding apart_def by linarith

lemma apart_single: "apart b 1 c m \<Longrightarrow> i < m \<Longrightarrow> c + i * FOUR_KIB \<noteq> b"
  using apart_pages [OF apart_sym, of b 1 c m i] by (auto simp: FOUR_KIB_def)

lemma layout_apart:
  assumes "layout_ok l"
  shows "apart (at_PML4 l) 1 (at_PDPT l) 1" "apart (at_PML4 l) 1 (at_PDS l) 4"
    "apart (at_PML4 l) 1 (at_SPLIT_PTS l) MAX_SPLIT_PTS" "apart (at_PDPT l) 1 (at_PDS l) 4"
    "apart (at_PDPT l) 1 (at_SPLIT_PTS l) MAX_SPLIT_PTS"
    "apart (at_SPLIT_PTS l) MAX_SPLIT_PTS (at_PDS l) 4"
  using assms apart_sym [of "at_PDS l" 4 "at_SPLIT_PTS l" MAX_SPLIT_PTS]
  unfolding layout_ok_def by blast+

lemma layout_blocks:
  assumes "layout_ok l"
  shows "block_ok (at_PML4 l) 1" "block_ok (at_PDPT l) 1" "block_ok (at_PDS l) 4"
    "block_ok (at_SPLIT_PTS l) MAX_SPLIT_PTS" "block_ok (at_LOW_SCRATCH l) LOW_SCRATCH_FRAMES"
  using assms unfolding layout_ok_def by blast+

lemma deref_PDPT: "layout_ok l \<Longrightarrow> deref l (at_PDPT l) = Some Ref_PDPT"
  using apart_single [OF layout_apart(1), of l 0] by (simp add: deref_def)

lemma deref_PD:
  assumes "layout_ok l" "g < 4"
  shows "deref l (at_PDS l + g * FOUR_KIB) = Some (Ref_PD g)"
  using apart_single [OF layout_apart(2) [OF assms(1)] assms(2)]
    apart_single [OF layout_apart(4) [OF assms(1)] assms(2)] assms(2)
  by (simp add: deref_def FOUR_KIB_def)

lemma deref_SPLIT:
  assumes "layout_ok l" "k < MAX_SPLIT_PTS"
  shows "deref l (at_SPLIT_PTS l + k * FOUR_KIB) = Some (Ref_SPLIT k)"
proof -
  let ?a = "at_SPLIT_PTS l + k * FOUR_KIB"
  have "?a \<noteq> at_PML4 l" "?a \<noteq> at_PDPT l"
    by (rule apart_single [OF layout_apart(3) [OF assms(1)] assms(2)],
        rule apart_single [OF layout_apart(5) [OF assms(1)] assms(2)])
  moreover have "\<not> (at_PDS l \<le> ?a \<and> ?a < at_PDS l + 4 * FOUR_KIB \<and> FOUR_KIB dvd ?a - at_PDS l)"
    using apart_pages [OF layout_apart(6) [OF assms(1)] assms(2)] by blast
  moreover have "at_SPLIT_PTS l \<le> ?a" "?a < at_SPLIT_PTS l + MAX_SPLIT_PTS * FOUR_KIB"
      "FOUR_KIB dvd ?a - at_SPLIT_PTS l" "(?a - at_SPLIT_PTS l) div FOUR_KIB = k"
    using assms(2) by (simp_all add: FOUR_KIB_def)
  ultimately show ?thesis
    unfolding deref_def by presburger
qed

lemma block_ok_frame: "block_ok b n \<Longrightarrow> i < n \<Longrightarrow> frame_addr (b + i * FOUR_KIB)"
proof -
  assume b: "block_ok b n" "i < n"
  have "i * FOUR_KIB < n * FOUR_KIB"
    using b(2) by (simp add: FOUR_KIB_def)
  then have "b + i * FOUR_KIB < 0x1A000000"
    using b(1) unfolding block_ok_def by linarith
  then show ?thesis
    using b(1) by (simp add: frame_addr_def block_ok_def)
qed

lemma frame_addr_layout:
  assumes "layout_ok l"
  shows "frame_addr (at_PDPT l)" "frame_addr (at_PDS l)"
    and "k < MAX_SPLIT_PTS \<Longrightarrow> frame_addr (at_SPLIT_PTS l + k * FOUR_KIB)"
    and "k < LOW_SCRATCH_FRAMES \<Longrightarrow> frame_addr (at_LOW_SCRATCH l + k * FOUR_KIB)"
  using block_ok_frame [OF layout_blocks(2) [OF assms], of 0]
    block_ok_frame [OF layout_blocks(3) [OF assms], of 0]
    block_ok_frame [OF layout_blocks(4) [OF assms], of k]
    block_ok_frame [OF layout_blocks(5) [OF assms], of k]
  by simp_all

abbreviation huge :: "paging \<Rightarrow> nat \<Rightarrow> bool" where
  "huge p i \<equiv> bit (PDS p 0 i) 7"

definition split_idx :: "paging \<Rightarrow> nat \<Rightarrow> nat" where
  "split_idx p i = (entry_addr (PDS p 0 i) - at_SPLIT_PTS (lay p)) div FOUR_KIB"

text \<open>The leaf entry of page \<open>j\<close> of the 2 MiB region \<open>i\<close> of the first GiB.\<close>

definition leaf :: "paging \<Rightarrow> nat \<Rightarrow> nat \<Rightarrow> u64" where
  "leaf p i j = (if huge p i then PDS p 0 i else SPLIT_PTS p (split_idx p i) j)"

text \<open>
  The PDE of region \<open>i\<close> is present and either a 2 MiB identity leaf or a pointer to a split
  table that has been handed out.
\<close>

definition region_ok :: "paging \<Rightarrow> nat \<Rightarrow> bool" where
  "region_ok p i \<longleftrightarrow>
     bit (PDS p 0 i) 0 \<and>
     (if huge p i then entry_addr (PDS p 0 i) = i * TWO_MIB
      else split_idx p i < min (SPLIT_NEXT p) MAX_SPLIT_PTS \<and>
           entry_addr (PDS p 0 i) = at_SPLIT_PTS (lay p) + split_idx p i * FOUR_KIB)"

definition upper_ok :: "paging \<Rightarrow> bool" where
  "upper_ok p \<longleftrightarrow>
     bit (PML4 p 0) 0 \<and> bit (PML4 p 0) 2 \<and> \<not> bit (PML4 p 0) 63 \<and>
     entry_addr (PML4 p 0) = at_PDPT (lay p) \<and>
     bit (PDPT p 0) 0 \<and> bit (PDPT p 0) 2 \<and> \<not> bit (PDPT p 0) 7 \<and> \<not> bit (PDPT p 0) 63 \<and>
     entry_addr (PDPT p 0) = at_PDS (lay p) \<and>
     (\<forall>g\<in>{1, 2, 3}. bit (PDPT p g) 0 \<and> bit (PDPT p g) 7 \<and> (bit (PDPT p g) 2 \<longleftrightarrow> g < 3) \<and>
        \<not> bit (PDPT p g) 63 \<and> entry_addr (PDPT p g) = g * GIB)"

text \<open>
  The structural invariant.  Its last clause is the one the source calls the US-AND invariant: a
  leaf marked user is covered by a directory entry that is marked user.
\<close>

definition paging_ok :: "paging \<Rightarrow> bool" where
  "paging_ok p \<longleftrightarrow> layout_ok (lay p) \<and> upper_ok p \<and> (\<forall>i<512. region_ok p i) \<and>
     (\<forall>i<512. \<forall>i'<512. \<not> huge p i \<longrightarrow> \<not> huge p i' \<longrightarrow> split_idx p i = split_idx p i' \<longrightarrow> i = i') \<and>
     (\<forall>i<512. \<not> huge p i \<longrightarrow> \<not> bit (PDS p 0 i) 63) \<and>
     (\<forall>i<512. \<forall>j<512. bit (leaf p i j) 2 \<longrightarrow> bit (PDS p 0 i) 2)"

section \<open>The view of the first GiB\<close>

record page_view =
  pv_present :: bool
  pv_user :: bool
  pv_nx :: bool
  pv_frame :: nat

definition view :: "paging \<Rightarrow> nat \<Rightarrow> nat \<Rightarrow> page_view" where
  "view p i j = \<lparr>pv_present = bit (leaf p i j) 0, pv_user = bit (leaf p i j) 2,
     pv_nx = bit (leaf p i j) 63,
     pv_frame = (if huge p i then i * TWO_MIB + j * FOUR_KIB else entry_addr (leaf p i j))\<rparr>"

lemma mod_div_swap: "a mod (b * c) div b = a div b mod c" if "0 < b" for a b c :: nat
  using that by (simp add: mod_mult2_eq)

lemma page_index: "a mod TWO_MIB div FOUR_KIB = a div FOUR_KIB mod 512"
  using mod_div_swap [of FOUR_KIB a 512] by (simp add: TWO_MIB_def FOUR_KIB_def)

lemma page_index_less [simp]: "a mod TWO_MIB div FOUR_KIB < 512"
  by (simp add: page_index)

lemma region_index:
  assumes "a < GIB"
  shows "a div GIB = 0" "a mod GIB = a" "a div TWO_MIB < 512"
  using assms by (simp_all add: GIB_def TWO_MIB_def less_mult_imp_div_less)

lemma walk_index:
  assumes "a < GIB"
  shows "a div 2 ^ 39 mod 512 = 0" "a div 2 ^ 30 mod 512 = 0"
    and "a div 2 ^ 21 mod 512 = a div TWO_MIB" "a div 2 ^ 12 mod 512 = a mod TWO_MIB div FOUR_KIB"
proof -
  have "a < 2 ^ 39" "a < 2 ^ 30"
    using assms by (simp_all add: GIB_def)
  then show "a div 2 ^ 39 mod 512 = 0" "a div 2 ^ 30 mod 512 = 0"
    by (simp_all only: div_less mod_0)
  show "a div 2 ^ 21 mod 512 = a div TWO_MIB"
    using region_index(3) [OF assms] by (simp add: TWO_MIB_def)
  show "a div 2 ^ 12 mod 512 = a mod TWO_MIB div FOUR_KIB"
    unfolding page_index by (simp add: FOUR_KIB_def)
qed

lemma mod_region: "a mod TWO_MIB = a mod TWO_MIB div FOUR_KIB * FOUR_KIB + a mod FOUR_KIB"
proof -
  have "FOUR_KIB dvd TWO_MIB"
    by (simp add: FOUR_KIB_def TWO_MIB_def)
  then have "a mod TWO_MIB mod FOUR_KIB = a mod FOUR_KIB"
    by (rule mod_mod_cancel)
  then show ?thesis
    using div_mult_mod_eq [of "a mod TWO_MIB" FOUR_KIB] by simp
qed

text \<open>The hardware walk of an address of the first GiB is read off the view.\<close>

lemma upper_okD:
  assumes "upper_ok p"
  shows "bit (PML4 p 0) 0 = True" "bit (PML4 p 0) 2 = True" "bit (PML4 p 0) 63 = False"
    "entry_addr (PML4 p 0) = at_PDPT (lay p)"
    "bit (PDPT p 0) 0 = True" "bit (PDPT p 0) 2 = True" "bit (PDPT p 0) 7 = False"
    "bit (PDPT p 0) 63 = False" "entry_addr (PDPT p 0) = at_PDS (lay p)"
  using assms unfolding upper_ok_def by blast+

lemma hw_walk_low:
  assumes lay: "layout_ok (lay p)" and up: "upper_ok p" and a: "a < GIB"
  shows "hw_walk p a =
    (let e2 = PDS p 0 (a div TWO_MIB) in
     if \<not> bit e2 0 then None
     else if bit e2 7 then Some (entry_addr e2 + a mod TWO_MIB, bit e2 2, bit e2 63)
     else let e1 = table_at p (entry_addr e2) (a mod TWO_MIB div FOUR_KIB) in
     if \<not> bit e1 0 then None
     else Some (entry_addr e1 + a mod FOUR_KIB, bit e2 2 \<and> bit e1 2, bit e2 63 \<or> bit e1 63))"
proof -
  have t3: "table_at p (at_PDPT (lay p)) = PDPT p"
    by (simp add: table_at_def deref_PDPT lay get_table_def)
  have t2: "table_at p (at_PDS (lay p)) = PDS p 0"
    using deref_PD [OF lay, of 0] by (simp add: table_at_def get_table_def)
  show ?thesis
    unfolding hw_walk_def walk_index [OF a] Let_def
    by (simp only: upper_okD [OF up] t3 t2 not_True_eq_False not_False_eq_True if_False if_True
        simp_thms)
qed

lemma hw_walk_view:
  assumes ok: "paging_ok p" and a: "a < GIB"
  shows "hw_walk p a =
    (let v = view p (a div TWO_MIB) (a mod TWO_MIB div FOUR_KIB)
     in if pv_present v then Some (pv_frame v + a mod FOUR_KIB, pv_user v, pv_nx v) else None)"
proof -
  let ?i = "a div TWO_MIB" and ?j = "a mod TWO_MIB div FOUR_KIB"
  have i: "?i < 512"
    by (rule region_index(3) [OF a])
  have lay: "layout_ok (lay p)" and up: "upper_ok p" and reg: "region_ok p ?i"
    and us: "bit (leaf p ?i ?j) 2 \<longrightarrow> bit (PDS p 0 ?i) 2"
    and nx: "\<not> huge p ?i \<longrightarrow> \<not> bit (PDS p 0 ?i) 63"
    using ok i page_index_less [of a] unfolding paging_ok_def by blast+
  have t1: "table_at p (entry_addr (PDS p 0 ?i)) = SPLIT_PTS p (split_idx p ?i)" if "\<not> huge p ?i"
    using reg that by (simp add: region_ok_def table_at_def deref_SPLIT lay get_table_def)
  show ?thesis
  proof (cases "huge p ?i")
    case True
    then have "entry_addr (PDS p 0 ?i) = ?i * TWO_MIB" and "bit (PDS p 0 ?i) 0"
      using reg by (simp_all add: region_ok_def)
    moreover have "?i * TWO_MIB + a mod TWO_MIB = ?i * TWO_MIB + ?j * FOUR_KIB + a mod FOUR_KIB"
      using mod_region [of a] by linarith
    ultimately show ?thesis
      using True unfolding hw_walk_low [OF lay up a] view_def leaf_def Let_def by auto
  next
    case False
    then have "bit (PDS p 0 ?i) 0"
      using reg by (simp add: region_ok_def)
    then show ?thesis
      using False us nx t1 [OF False] unfolding hw_walk_low [OF lay up a] view_def leaf_def Let_def
      by auto
  qed
qed

lemma hw_walk_high:
  assumes ok: "paging_ok p" and a: "GIB \<le> a" "a < 4 * GIB"
  shows "hw_walk p a = Some (a, a < 3 * GIB, False)"
proof -
  define g where "g = a div GIB"
  have g: "g \<in> {1, 2, 3}"
    using a by (auto simp: g_def GIB_def)
  have idx: "a div 2 ^ 39 mod 512 = 0" "a div 2 ^ 30 mod 512 = g"
    using a by (auto simp: GIB_def g_def)
  have lay: "layout_ok (lay p)" and up: "upper_ok p"
    using ok by (auto simp: paging_ok_def)
  have t3: "table_at p (at_PDPT (lay p)) = PDPT p"
    by (simp add: table_at_def deref_PDPT lay get_table_def)
  have "g * GIB + a mod GIB = a"
    by (simp add: g_def)
  moreover have "g < 3 \<longleftrightarrow> a < 3 * GIB"
    using a by (auto simp: g_def GIB_def)
  moreover have "bit (PDPT p g) 0" "bit (PDPT p g) 7" "bit (PDPT p g) 2 \<longleftrightarrow> g < 3"
      "\<not> bit (PDPT p g) 63" "entry_addr (PDPT p g) = g * GIB"
    using up g unfolding upper_ok_def by blast+
  ultimately show ?thesis
    unfolding hw_walk_def idx Let_def
    by (simp only: upper_okD [OF up] t3 if_True if_False simp_thms)
qed

section \<open>Effect of the operations on the view\<close>

lemma paging_okD:
  assumes "paging_ok p"
  shows "layout_ok (lay p)" "upper_ok p"
    and "i < 512 \<Longrightarrow> region_ok p i"
    and "\<lbrakk>i < 512; i' < 512; \<not> huge p i; \<not> huge p i'; split_idx p i = split_idx p i'\<rbrakk> \<Longrightarrow> i = i'"
    and "\<lbrakk>i < 512; \<not> huge p i\<rbrakk> \<Longrightarrow> \<not> bit (PDS p 0 i) 63"
    and "\<lbrakk>i < 512; j < 512; bit (leaf p i j) 2\<rbrakk> \<Longrightarrow> bit (PDS p 0 i) 2"
  using assms unfolding paging_ok_def by blast+

lemma paging_okI:
  assumes "layout_ok (lay p)" "upper_ok p" "\<And>i. i < 512 \<Longrightarrow> region_ok p i"
    and "\<And>i i'. \<lbrakk>i < 512; i' < 512; \<not> huge p i; \<not> huge p i'; split_idx p i = split_idx p i'\<rbrakk> \<Longrightarrow> i = i'"
    and "\<And>i. \<lbrakk>i < 512; \<not> huge p i\<rbrakk> \<Longrightarrow> \<not> bit (PDS p 0 i) 63"
    and "\<And>i j. \<lbrakk>i < 512; j < 512; bit (leaf p i j) 2\<rbrakk> \<Longrightarrow> bit (PDS p 0 i) 2"
  shows "paging_ok p"
  using assms unfolding paging_ok_def by blast

lemma upper_ok_cong:
  "lay p' = lay p \<Longrightarrow> PML4 p' = PML4 p \<Longrightarrow> PDPT p' = PDPT p \<Longrightarrow> upper_ok p' = upper_ok p"
  by (simp add: upper_ok_def)

lemma split_idx_less:
  "\<lbrakk>paging_ok p; i < 512; \<not> huge p i\<rbrakk> \<Longrightarrow> split_idx p i < SPLIT_NEXT p \<and> split_idx p i < MAX_SPLIT_PTS"
  using paging_okD(3) [of p i] by (simp add: region_ok_def)

lemma split_entry:
  "\<lbrakk>paging_ok p; i < 512; \<not> huge p i\<rbrakk>
   \<Longrightarrow> entry_addr (PDS p 0 i) = at_SPLIT_PTS (lay p) + split_idx p i * FOUR_KIB"
  using paging_okD(3) [of p i] by (simp add: region_ok_def)

lemma ensure_pt_split:
  assumes "paging_ok p" "a < GIB" "\<not> huge p (a div TWO_MIB)"
  shows "ensure_pt p a = (p, at_SPLIT_PTS (lay p) + split_idx p (a div TWO_MIB) * FOUR_KIB)"
  using assms split_entry [OF assms(1) region_index(3) [OF assms(2)] assms(3)]
  by (simp add: ensure_pt_def region_index)

text \<open>Writing to the split table of region \<open>i\<close>.\<close>

definition upd_split :: "paging \<Rightarrow> nat \<Rightarrow> (page_table \<Rightarrow> page_table) \<Rightarrow> paging" where
  "upd_split p i f =
     p\<lparr>SPLIT_PTS := (SPLIT_PTS p)(split_idx p i := f (SPLIT_PTS p (split_idx p i)))\<rparr>"

lemma upd_split_simps [simp]:
  "lay (upd_split p i f) = lay p" "PML4 (upd_split p i f) = PML4 p"
  "PDPT (upd_split p i f) = PDPT p" "PDS (upd_split p i f) = PDS p"
  "SPLIT_NEXT (upd_split p i f) = SPLIT_NEXT p"
  "LOW_SCRATCH_NEXT (upd_split p i f) = LOW_SCRATCH_NEXT p"
  by (simp_all add: upd_split_def)

lemma split_idx_upd_split [simp]: "split_idx (upd_split p i f) i' = split_idx p i'"
  by (simp add: split_idx_def)

lemma upd_table_at_split:
  assumes "paging_ok p" "i < 512" "\<not> huge p i"
  shows "upd_table_at p (at_SPLIT_PTS (lay p) + split_idx p i * FOUR_KIB) f = upd_split p i f"
  using deref_SPLIT [OF paging_okD(1) [OF assms(1)]] split_idx_less [OF assms]
  by (simp add: upd_table_at_def set_table_def get_table_def upd_split_def)

lemma leaf_upd_split:
  assumes "paging_ok p" "i < 512" "\<not> huge p i" "i' < 512"
  shows "leaf (upd_split p i f) i' j =
    (if i' = i then f (SPLIT_PTS p (split_idx p i)) j else leaf p i' j)"
  using assms paging_okD(4) [OF assms(1) assms(2,4)]
  by (auto simp: leaf_def upd_split_def split_idx_def)

definition entry_view :: "u64 \<Rightarrow> page_view" where
  "entry_view e = \<lparr>pv_present = bit e 0, pv_user = bit e 2, pv_nx = bit e 63, pv_frame = entry_addr e\<rparr>"

lemma view_split: "\<not> huge p i \<Longrightarrow> view p i j = entry_view (SPLIT_PTS p (split_idx p i) j)"
  by (simp add: view_def leaf_def entry_view_def)

lemma view_upd_split:
  assumes "paging_ok p" "i < 512" "\<not> huge p i" "i' < 512"
  shows "view (upd_split p i f) i' j =
    (if i' = i then entry_view (f (SPLIT_PTS p (split_idx p i)) j) else view p i' j)"
  using assms(3) by (simp add: view_def leaf_upd_split [OF assms] entry_view_def)

lemma paging_ok_upd_split:
  assumes ok: "paging_ok p" and i: "i < 512" "\<not> huge p i"
    and us: "\<And>j. j < 512 \<Longrightarrow> bit (f (SPLIT_PTS p (split_idx p i)) j) 2 \<Longrightarrow> bit (PDS p 0 i) 2"
  shows "paging_ok (upd_split p i f)"
proof -
  have cov: "bit (PDS p 0 i') 2" if "i' < 512" "j < 512" "bit (leaf (upd_split p i f) i' j) 2" for i' j
  proof (cases "i' = i")
    case True
    with that us [of j] show ?thesis by (simp add: leaf_upd_split [OF ok i])
  next
    case False
    with that paging_okD(6) [OF ok that(1,2)] show ?thesis by (simp add: leaf_upd_split [OF ok i])
  qed
  have reg: "region_ok (upd_split p i f) i' = region_ok p i'" for i'
    by (simp add: region_ok_def)
  have "upper_ok (upd_split p i f) = upper_ok p"
    by (rule upper_ok_cong) simp_all
  then have up: "upper_ok (upd_split p i f)"
    using paging_okD(2) [OF ok] by simp
  show ?thesis
    by (rule paging_okI, unfold upd_split_simps split_idx_upd_split reg)
      (fact paging_okD(1) [OF ok], fact up, erule paging_okD(3) [OF ok],
       erule (4) paging_okD(4) [OF ok], erule (1) paging_okD(5) [OF ok], erule (2) cov)
qed

lemma mark_user_view:
  assumes ok: "paging_ok p" and a: "a < GIB"
  defines "i \<equiv> a div TWO_MIB"
  shows "mark_user_covering_levels p a =
    (if huge p i then p else p\<lparr>PDS := (PDS p)(0 := (PDS p 0)(i := PDS p 0 i OR PAGE_USER))\<rparr>)"
proof -
  have set_user: "e OR PAGE_USER = e" if "bit e 2" for e :: u64
    using that by (intro bit_word_eqI) (auto simp: bit_or_iff)
  have "bit (PML4 p 0) 2" "bit (PDPT p 0) 2" "\<not> bit (PDPT p 0) 7"
    using paging_okD(2) [OF ok] unfolding upper_ok_def by blast+
  then show ?thesis
    using region_index [OF a]
    by (simp add: mark_user_covering_levels_def set_user i_def Let_def)
qed

lemma cover_props:
  fixes p i
  defines "p' \<equiv> p\<lparr>PDS := (PDS p)(0 := (PDS p 0)(i := PDS p 0 i OR PAGE_USER))\<rparr>"
  shows "huge p' i' = huge p i'" "split_idx p' i' = split_idx p i'"
    "\<not> huge p i \<Longrightarrow> leaf p' i' j = leaf p i' j" "\<not> huge p i \<Longrightarrow> view p' i' j = view p i' j"
  by (auto simp: p'_def split_idx_def leaf_def view_def bit_or_iff)

lemma paging_ok_cover:
  assumes ok: "paging_ok p" and i: "i < 512" "\<not> huge p i"
  shows "paging_ok (p\<lparr>PDS := (PDS p)(0 := (PDS p 0)(i := PDS p 0 i OR PAGE_USER))\<rparr>)"
    (is "paging_ok ?p")
proof -
  note c = cover_props [of p i]
  have reg: "region_ok ?p i'" if "i' < 512" for i'
    using paging_okD(3) [OF ok that] unfolding region_ok_def c by (auto simp: bit_or_iff)
  have "upper_ok ?p = upper_ok p"
    by (rule upper_ok_cong) simp_all
  then have up: "upper_ok ?p"
    using paging_okD(2) [OF ok] by simp
  have cov: "bit (PDS ?p 0 i') 2" if "i' < 512" "j < 512" "bit (leaf ?p i' j) 2" for i' j
    using paging_okD(6) [OF ok that(1,2)] that(3) unfolding c(3) [OF i(2)] by (auto simp: bit_or_iff)
  have nx: "\<not> bit (PDS ?p 0 i') 63" if "i' < 512" "\<not> huge ?p i'" for i'
    using paging_okD(5) [OF ok that(1)] that(2) unfolding c by (auto simp: bit_or_iff)
  have inj: "i1 = i2"
    if "i1 < 512" "i2 < 512" "\<not> huge ?p i1" "\<not> huge ?p i2" "split_idx ?p i1 = split_idx ?p i2" for i1 i2
    using paging_okD(4) [OF ok that(1,2)] that(3-5) unfolding c by blast
  have lay: "layout_ok (lay ?p)"
    using paging_okD(1) [OF ok] by simp
  show ?thesis
    by (rule paging_okI) (fact lay, fact up, erule reg, erule (4) inj, erule (1) nx, erule (2) cov)
qed

text \<open>
  Splitting a 2 MiB leaf: the region keeps its identity mapping, and every page of it comes out
  as supervisor and executable; no other region changes.
\<close>

definition identity_page :: "nat \<Rightarrow> nat \<Rightarrow> page_view" where
  "identity_page i j = \<lparr>pv_present = True, pv_user = False, pv_nx = False,
     pv_frame = i * TWO_MIB + j * FOUR_KIB\<rparr>"

lemma frame_addr_page: "i < 512 \<Longrightarrow> j < 512 \<Longrightarrow> frame_addr (i * TWO_MIB + j * FOUR_KIB)"
  by (simp add: frame_addr_def TWO_MIB_def FOUR_KIB_def)

lemma align_down_region: "align_down a TWO_MIB = a div TWO_MIB * TWO_MIB"
  by (simp add: align_down_def)

lemma pte_bits:
  assumes "frame_addr m"
  defines "e \<equiv> (of_nat m :: u64) OR PAGE_PRESENT OR PAGE_WRITABLE"
  shows "bit e 0" "\<not> bit e 2" "\<not> bit e 7" "\<not> bit e 63" "entry_addr e = m"
  using assms bit_frame_addr [OF assms(1)] by (auto simp: bit_or_iff or.assoc [symmetric])

lemma ensure_pt_huge:
  assumes ok: "paging_ok p" and a: "a < GIB" and h: "huge p (a div TWO_MIB)"
    and room: "SPLIT_NEXT p < MAX_SPLIT_PTS"
  defines "i \<equiv> a div TWO_MIB" and "p' \<equiv> fst (ensure_pt p a)"
  shows "snd (ensure_pt p a) = at_SPLIT_PTS (lay p) + SPLIT_NEXT p * FOUR_KIB"
    and "lay p' = lay p" "PML4 p' = PML4 p" "PDPT p' = PDPT p"
    and "SPLIT_NEXT p' = SPLIT_NEXT p + 1" "LOW_SCRATCH_NEXT p' = LOW_SCRATCH_NEXT p"
    and "huge p' i' \<longleftrightarrow> i' \<noteq> i \<and> huge p i'"
    and "split_idx p' i' = (if i' = i then SPLIT_NEXT p else split_idx p i')"
    and "i' < 512 \<Longrightarrow> j < 512 \<Longrightarrow>
      view p' i' j = (if i' = i then identity_page i j else view p i' j)"
    and "paging_ok p'"
proof -
  let ?slot = "SPLIT_NEXT p"
  define pde :: u64 where
    "pde = of_nat (at_SPLIT_PTS (lay p) + ?slot * FOUR_KIB) OR PAGE_PRESENT OR PAGE_WRITABLE"
  define pt :: page_table where
    "pt = (\<lambda>j. if j < 512 then of_nat (i * TWO_MIB + j * FOUR_KIB) OR PAGE_PRESENT OR PAGE_WRITABLE
               else SPLIT_PTS p ?slot j)"
  have i: "i < 512"
    unfolding i_def by (rule region_index(3) [OF a])
  have lay: "layout_ok (lay p)"
    by (rule paging_okD(1) [OF ok])
  have pde: "bit pde 0" "\<not> bit pde 2" "\<not> bit pde 7" "\<not> bit pde 63"
      "entry_addr pde = at_SPLIT_PTS (lay p) + ?slot * FOUR_KIB"
    unfolding pde_def by (rule pte_bits [OF frame_addr_layout(3) [OF lay room]])+
  have e: "ensure_pt p a = (p\<lparr>SPLIT_NEXT := ?slot + 1, SPLIT_PTS := (SPLIT_PTS p)(?slot := pt),
       PDS := (PDS p)(0 := (PDS p 0)(i := pde))\<rparr>, at_SPLIT_PTS (lay p) + ?slot * FOUR_KIB)"
    using h room pde(5)
    by (simp add: ensure_pt_def region_index [OF a] i_def pt_def pde_def phys_of_def
        align_down_region Let_def cong: if_cong)
  have pt: "bit (pt j) 0" "\<not> bit (pt j) 2" "\<not> bit (pt j) 63"
      "entry_addr (pt j) = i * TWO_MIB + j * FOUR_KIB" if "j < 512" for j
    using pte_bits [OF frame_addr_page [OF i that]] that by (simp_all add: pt_def)
  show snd: "snd (ensure_pt p a) = at_SPLIT_PTS (lay p) + ?slot * FOUR_KIB"
    and same: "lay p' = lay p" "PML4 p' = PML4 p" "PDPT p' = PDPT p"
    and next_: "SPLIT_NEXT p' = ?slot + 1" "LOW_SCRATCH_NEXT p' = LOW_SCRATCH_NEXT p"
    by (simp_all add: p'_def e)
  have pds: "PDS p' 0 = (PDS p 0)(i := pde)" and pts: "SPLIT_PTS p' = (SPLIT_PTS p)(?slot := pt)"
    by (simp_all add: p'_def e)
  show huge': "huge p' i' \<longleftrightarrow> i' \<noteq> i \<and> huge p i'" for i'
    by (simp add: pds pde)
  show sidx: "split_idx p' i' = (if i' = i then ?slot else split_idx p i')" for i'
    by (simp add: split_idx_def pds pde same FOUR_KIB_def)
  have fresh: "split_idx p i' \<noteq> ?slot" if "i' < 512" "\<not> huge p i'" for i'
    using split_idx_less [OF ok that] by simp
  have leaf': "leaf p' i' j = (if i' = i then pt j else leaf p i' j)" if "i' < 512" for i' j
    using fresh [OF that] by (simp add: leaf_def huge' sidx pts) (simp add: pds)
  show view': "view p' i' j = (if i' = i then identity_page i j else view p i' j)"
    if "i' < 512" "j < 512" for i' j
    using pt [OF that(2)] by (simp add: view_def leaf' that huge' identity_page_def)
  show "paging_ok p'"
  proof (rule paging_okI)
    show "layout_ok (lay p')" "upper_ok p'"
      using lay paging_okD(2) [OF ok] upper_ok_cong [OF same] by (simp_all add: same)
    show "region_ok p' i'" if "i' < 512" for i'
      using paging_okD(3) [OF ok that] room
      by (auto simp: region_ok_def pds pde sidx same next_)
    show "i1 = i2" if "i1 < 512" "i2 < 512" "\<not> huge p' i1" "\<not> huge p' i2"
      "split_idx p' i1 = split_idx p' i2" for i1 i2
      using that paging_okD(4) [OF ok that(1,2)] fresh by (auto simp: huge' sidx split: if_splits)
    show "\<not> bit (PDS p' 0 i') 63" if "i' < 512" "\<not> huge p' i'" for i'
      using that paging_okD(5) [OF ok that(1)] by (auto simp: pds pde)
    show "bit (PDS p' 0 i') 2" if "i' < 512" "j < 512" "bit (leaf p' i' j) 2" for i' j
      using that paging_okD(6) [OF ok that(1,2)] pt(2) [OF that(2)]
      by (auto simp: leaf' pds split: if_splits)
  qed
qed

lemma bit_apply_attrs:
  "n < 64 \<Longrightarrow> bit (apply_attrs e us nx) n = (if n = 2 then us else if n = 63 then nx else bit e n)"
  by (auto simp: apply_attrs_def Let_def bit_and_iff bit_or_iff bit_not_iff)

lemma entry_addr_apply_attrs [simp]: "entry_addr (apply_attrs e us nx) = entry_addr e"
  by (simp add: apply_attrs_def Let_def)

text \<open>Changing the attributes of a 2 MiB leaf.\<close>

lemma set_huge_pde:
  fixes us nx :: bool
  assumes ok: "paging_ok p" and i: "i < 512" "huge p i"
  defines "p' \<equiv> p\<lparr>PDS := (PDS p)(0 := (PDS p 0)(i := apply_attrs (PDS p 0 i) us nx))\<rparr>"
  shows "huge p' i' = huge p i'" "split_idx p' i' = (if i' = i then split_idx p i else split_idx p i')"
    and "paging_ok p'"
    and "i' < 512 \<Longrightarrow> view p' i' j =
      (if i' = i then (view p i j)\<lparr>pv_user := us, pv_nx := nx\<rparr> else view p i' j)"
proof -
  have pds: "PDS p' 0 = (PDS p 0)(i := apply_attrs (PDS p 0 i) us nx)"
    by (simp add: p'_def)
  have same: "lay p' = lay p" "PML4 p' = PML4 p" "PDPT p' = PDPT p" "SPLIT_PTS p' = SPLIT_PTS p"
      "SPLIT_NEXT p' = SPLIT_NEXT p"
    by (simp_all add: p'_def)
  show huge': "huge p' i' = huge p i'" for i'
    using i by (auto simp: pds bit_apply_attrs)
  show sidx: "split_idx p' i' = (if i' = i then split_idx p i else split_idx p i')" for i'
    by (simp add: split_idx_def pds same)
  have leaf': "leaf p' i' j = (if i' = i then apply_attrs (PDS p 0 i) us nx else leaf p i' j)" for i' j
    using i huge' [of i'] by (auto simp: leaf_def pds same sidx)
  show "view p' i' j = (if i' = i then (view p i j)\<lparr>pv_user := us, pv_nx := nx\<rparr> else view p i' j)"
    if "i' < 512"
    using i by (auto simp: view_def leaf' huge' bit_apply_attrs) (auto simp: leaf_def)
  show "paging_ok p'"
  proof (rule paging_okI)
    show "layout_ok (lay p')" "upper_ok p'"
      using paging_okD(1,2) [OF ok] upper_ok_cong [OF same(1-3)] by (simp_all add: same)
    show "region_ok p' i'" if "i' < 512" for i'
      using paging_okD(3) [OF ok that] i by (auto simp: region_ok_def pds bit_apply_attrs sidx same)
    show "i1 = i2" if "i1 < 512" "i2 < 512" "\<not> huge p' i1" "\<not> huge p' i2"
      "split_idx p' i1 = split_idx p' i2" for i1 i2
      using that paging_okD(4) [OF ok that(1,2)] i unfolding huge' sidx by (auto split: if_splits)
    show "\<not> bit (PDS p' 0 i') 63" if "i' < 512" "\<not> huge p' i'" for i'
      using that paging_okD(5) [OF ok that(1)] i unfolding huge' by (auto simp: pds)
    show "bit (PDS p' 0 i') 2" if "i' < 512" "j < 512" "bit (leaf p' i' j) 2" for i' j
      using that paging_okD(6) [OF ok that(1,2)] by (auto simp: leaf' pds split: if_splits)
  qed
qed

text \<open>The effect of one iteration of \<open>set_attrs\<close>, shared by both granularities.\<close>

definition attr_view :: "bool \<Rightarrow> bool \<Rightarrow> page_view \<Rightarrow> page_view" where
  "attr_view us nx v = (if pv_present v then v\<lparr>pv_user := us, pv_nx := nx\<rparr> else v)"

lemma set_attrs_region_effect:
  fixes us nx :: bool
  assumes ok: "paging_ok p" and a: "a < GIB" and i: "i = a div TWO_MIB"
  defines "p' \<equiv> set_attrs_region p a us nx"
  shows "paging_ok p' \<and> lay p' = lay p \<and> PDPT p' = PDPT p \<and> SPLIT_NEXT p' = SPLIT_NEXT p \<and>
    LOW_SCRATCH_NEXT p' = LOW_SCRATCH_NEXT p \<and> (\<forall>i'. huge p' i' = huge p i') \<and>
    (\<forall>i'<512. \<forall>j<512. view p' i' j = (if i' = i then attr_view us nx (view p i' j) else view p i' j))"
proof -
  note idx = region_index [OF a, folded i]
  have reg: "region_ok p i" and ne: "PDS p 0 i \<noteq> 0"
    using paging_okD(3) [OF ok idx(3)] by (auto simp: region_ok_def)
  show ?thesis
  proof (cases "huge p i")
    case True
    then have "p' = p\<lparr>PDS := (PDS p)(0 := (PDS p 0)(i := apply_attrs (PDS p 0 i) us nx))\<rparr>"
      using ne mark_user_view [OF ok a] by (simp add: p'_def set_attrs_region_def idx i [symmetric])
    moreover have "pv_present (view p i j)" for j
      using True reg by (simp add: view_def leaf_def region_ok_def)
    ultimately show ?thesis
      using set_huge_pde [OF ok idx(3) True, where us = us and nx = nx] by (simp add: attr_view_def)
  next
    case False
    define p1 where "p1 = (if us then mark_user_covering_levels p a else p)"
    define f :: "page_table \<Rightarrow> page_table" where
      "f = (\<lambda>pt j. if j < 512 \<and> pt j AND PAGE_PRESENT \<noteq> 0 then apply_attrs (pt j) us nx else pt j)"
    have p1: "p1 = (if us then p\<lparr>PDS := (PDS p)(0 := (PDS p 0)(i := PDS p 0 i OR PAGE_USER))\<rparr> else p)"
      using False mark_user_view [OF ok a] by (simp add: p1_def i)
    have ok1: "paging_ok p1"
      using ok paging_ok_cover [OF ok idx(3) False] by (simp add: p1)
    have same: "lay p1 = lay p" "PDPT p1 = PDPT p" "SPLIT_NEXT p1 = SPLIT_NEXT p"
        "LOW_SCRATCH_NEXT p1 = LOW_SCRATCH_NEXT p" "SPLIT_PTS p1 = SPLIT_PTS p"
        "huge p1 i' = huge p i'" "split_idx p1 i' = split_idx p i'" "view p1 i' j = view p i' j" for i' j
      using cover_props [of p i] False by (simp_all add: p1)
    have us1: "us \<Longrightarrow> bit (PDS p1 0 i) 2" and ne1: "PDS p1 0 i \<noteq> 0"
      using paging_okD(3) [OF ok1 idx(3)] by (auto simp: p1 bit_or_iff region_ok_def)
    have h1: "\<not> huge p1 i"
      using False same by simp
    have "p' = upd_split p1 i f"
      using ne1 h1 split_entry [OF ok1 idx(3) h1] upd_table_at_split [OF ok1 idx(3) h1]
      by (simp add: p'_def set_attrs_region_def idx i [symmetric] p1_def [symmetric] f_def)
    moreover have "paging_ok (upd_split p1 i f)"
    proof (rule paging_ok_upd_split [OF ok1 idx(3) h1])
      fix j :: nat
      assume "j < 512" "bit (f (SPLIT_PTS p1 (split_idx p1 i)) j) 2"
      then show "bit (PDS p1 0 i) 2"
        using us1 paging_okD(6) [OF ok1 idx(3), of j] h1
        by (auto simp: f_def bit_apply_attrs leaf_def split: if_splits)
    qed
    moreover have "view (upd_split p1 i f) i' j =
        (if i' = i then attr_view us nx (view p i' j) else view p i' j)" if "i' < 512" "j < 512" for i' j
    proof -
      have "view (upd_split p1 i f) i' j =
          (if i' = i then attr_view us nx (view p1 i' j) else view p1 i' j)"
        using that h1 by (simp add: view_upd_split [OF ok1 idx(3) h1] view_split f_def attr_view_def
            entry_view_def bit_apply_attrs)
      then show ?thesis
        by (simp only: same)
    qed
    ultimately show ?thesis
      using same by simp
  qed
qed

text \<open>The whole loop, on a range of the first GiB.\<close>

lemma set_attrs_loop_effect:
  fixes us nx :: bool
  assumes "paging_ok p" "TWO_MIB dvd a" "TWO_MIB dvd stop" "stop \<le> GIB"
  defines "p' \<equiv> set_attrs_loop p a stop us nx"
  shows "paging_ok p' \<and> lay p' = lay p \<and> SPLIT_NEXT p' = SPLIT_NEXT p \<and>
    LOW_SCRATCH_NEXT p' = LOW_SCRATCH_NEXT p \<and> (\<forall>i'. huge p' i' = huge p i') \<and>
    (\<forall>i<512. \<forall>j<512. view p' i j =
       (if a \<le> i * TWO_MIB \<and> i * TWO_MIB < stop then attr_view us nx (view p i j) else view p i j))"
  using assms(1-4) unfolding p'_def
proof (induction p a stop us nx rule: set_attrs_loop.induct)
  case (1 p a stop us nx)
  show ?case
  proof (cases "a < stop")
    case False
    then show ?thesis
      using "1.prems"(1) by (subst (1 2 3 4 5 6) set_attrs_loop.simps) auto
  next
    case True
    define i where "i = a div TWO_MIB"
    define p1 where "p1 = set_attrs_region p a us nx"
    have a: "a < GIB" and ai: "a = i * TWO_MIB"
      using True "1.prems" by (simp_all add: i_def)
    have nh: "\<not> 4 \<le> a div GIB" "\<not> PDPT p (a div GIB) AND PAGE_HUGE \<noteq> 0"
      using region_index(1) [OF a] upper_okD(7) [OF paging_okD(2) [OF "1.prems"(1)]] by simp_all
    have step: "set_attrs_loop p a stop us nx = set_attrs_loop p1 (a + TWO_MIB) stop us nx"
      using True nh by (subst set_attrs_loop.simps) (simp add: p1_def)
    note e1 = set_attrs_region_effect [OF "1.prems"(1) a i_def, of us nx, folded p1_def]
    have "TWO_MIB dvd a + TWO_MIB"
      using "1.prems"(2) by simp
    note e2 = "1.IH"(2) [OF True nh, folded p1_def, OF conjunct1 [OF e1] this "1.prems"(3,4)]
    have "view (set_attrs_loop p1 (a + TWO_MIB) stop us nx) i' j =
       (if a \<le> i' * TWO_MIB \<and> i' * TWO_MIB < stop then attr_view us nx (view p i' j) else view p i' j)"
      if "i' < 512" "j < 512" for i' j
    proof -
      have "a + TWO_MIB \<le> i' * TWO_MIB \<longleftrightarrow> i < i'" "a \<le> i' * TWO_MIB \<longleftrightarrow> i \<le> i'"
        "i' = i \<Longrightarrow> i' * TWO_MIB < stop"
        using True by (auto simp: ai TWO_MIB_def)
      then show ?thesis
        using e1 e2 that by auto
    qed
    then show ?thesis
      unfolding step using e1 e2 by simp
  qed
qed

lemma set_attrs_effect:
  fixes us nx :: bool
  assumes "paging_ok p" "TWO_MIB dvd a" "TWO_MIB dvd stop" "stop \<le> GIB"
  defines "p' \<equiv> set_attrs p a stop us nx"
  shows "paging_ok p'" "lay p' = lay p" "SPLIT_NEXT p' = SPLIT_NEXT p"
    "LOW_SCRATCH_NEXT p' = LOW_SCRATCH_NEXT p" "huge p' i' = huge p i'"
    "i < 512 \<Longrightarrow> j < 512 \<Longrightarrow> view p' i j =
       (if a \<le> i * TWO_MIB \<and> i * TWO_MIB < stop then attr_view us nx (view p i j) else view p i j)"
  using set_attrs_loop_effect [OF assms(1-4), of us nx] assms(2)
  by (simp_all add: p'_def set_attrs_def align_down_id)

section \<open>The view after \<open>init\<close>\<close>

lemma flag_entry_bits:
  assumes "frame_addr m"
  shows "bit ((of_nat m :: u64) OR PAGE_PRESENT OR PAGE_WRITABLE OR PAGE_HUGE) n =
      (n = 0 \<or> n = 1 \<or> n = 7 \<or> bit (of_nat m :: u64) n)"
    and "bit ((of_nat m :: u64) OR PAGE_PRESENT OR PAGE_WRITABLE OR PAGE_USER) n =
      (n = 0 \<or> n = 1 \<or> n = 2 \<or> bit (of_nat m :: u64) n)"
    and "entry_addr ((of_nat m :: u64) OR PAGE_PRESENT OR PAGE_WRITABLE OR PAGE_HUGE) = m"
    and "entry_addr ((of_nat m :: u64) OR PAGE_PRESENT OR PAGE_WRITABLE OR PAGE_USER) = m"
  using assms by (auto simp: bit_or_iff or.assoc [symmetric])

lemma paging_init_tables_ok:
  assumes "layout_ok l"
  defines "p \<equiv> paging_init_tables (paging_static l)"
  shows "paging_ok p" "lay p = l" "SPLIT_NEXT p = 0" "LOW_SCRATCH_NEXT p = 0"
    "i < 512 \<Longrightarrow> huge p i" "i < 512 \<Longrightarrow> j < 512 \<Longrightarrow> view p i j = identity_page i j"
proof -
  have fr: "frame_addr (i * TWO_MIB)" if "i < 512" for i
    using that by (simp add: frame_addr_def TWO_MIB_def FOUR_KIB_def)
  have pd: "PDS p 0 i = of_nat (i * TWO_MIB) OR PAGE_PRESENT OR PAGE_WRITABLE OR PAGE_HUGE"
    if "i < 512" for i
    using that by (simp add: p_def paging_init_tables_def Let_def)
  have bits: "bit (PDS p 0 i) 0" "huge p i" "\<not> bit (PDS p 0 i) 2" "\<not> bit (PDS p 0 i) 63"
      "entry_addr (PDS p 0 i) = i * TWO_MIB" if "i < 512" for i
    using bit_frame_addr [OF fr [OF that]]
    unfolding pd [OF that] flag_entry_bits [OF fr [OF that]] by simp_all
  have fg: "frame_addr GIB" "frame_addr (2 * GIB)" "frame_addr (3 * GIB)"
    by (simp_all add: frame_addr_def GIB_def FOUR_KIB_def)
  note fl = frame_addr_layout [OF assms(1)]
  have lay: "lay p = l" and next_: "SPLIT_NEXT p = 0" "LOW_SCRATCH_NEXT p = 0"
    by (simp_all add: p_def paging_init_tables_def paging_static_def Let_def)
  have up: "PML4 p 0 = of_nat (at_PDPT l) OR PAGE_PRESENT OR PAGE_WRITABLE OR PAGE_USER"
      "PDPT p 0 = of_nat (at_PDS l) OR PAGE_PRESENT OR PAGE_WRITABLE OR PAGE_USER"
      "PDPT p 1 = (of_nat GIB OR PAGE_PRESENT OR PAGE_WRITABLE OR PAGE_HUGE) OR PAGE_USER"
      "PDPT p 2 = (of_nat (2 * GIB) OR PAGE_PRESENT OR PAGE_WRITABLE OR PAGE_HUGE) OR PAGE_USER"
      "PDPT p 3 = of_nat (3 * GIB) OR PAGE_PRESENT OR PAGE_WRITABLE OR PAGE_HUGE"
    by (simp_all add: p_def paging_init_tables_def paging_static_def Let_def phys_of_def)
  have "upper_ok p"
    unfolding upper_ok_def lay
    using bit_frame_addr [OF fl(1)] bit_frame_addr [OF fl(2)] bit_frame_addr [OF fg(1)]
      bit_frame_addr [OF fg(2)] bit_frame_addr [OF fg(3)]
    by (simp only: up ball_simps flag_entry_bits [OF fl(1)] flag_entry_bits [OF fl(2)]
        flag_entry_bits [OF fg(1)] flag_entry_bits [OF fg(2)] flag_entry_bits [OF fg(3)]
        entry_addr_flags bit_or_iff [of _ PAGE_USER] bit_of_flags) simp
  moreover have "region_ok p i" if "i < 512" for i
    using bits [OF that] by (simp add: region_ok_def)
  moreover have "\<not> bit (leaf p i j) 2" if "i < 512" for i j
    using bits [OF that] by (simp add: leaf_def)
  ultimately show "paging_ok p"
    using assms(1) bits(2) lay by (intro paging_okI) simp_all
  show "lay p = l" "SPLIT_NEXT p = 0" "LOW_SCRATCH_NEXT p = 0"
    by (fact lay next_)+
  show "i < 512 \<Longrightarrow> huge p i"
    by (rule bits(2))
  show "view p i j = identity_page i j" if "i < 512"
    using bits [OF that] by (simp add: view_def leaf_def identity_page_def)
qed

text \<open>
  The state while \<open>init\<close> pre-splits regions: \<open>S\<close> is the set of regions split so far, and every
  page is still an executable supervisor identity page.
\<close>

definition presplit_state :: "layout \<Rightarrow> nat set \<Rightarrow> paging \<Rightarrow> bool" where
  "presplit_state l S p \<longleftrightarrow> paging_ok p \<and> lay p = l \<and> LOW_SCRATCH_NEXT p = 0 \<and>
     SPLIT_NEXT p = card S \<and> (\<forall>i<512. huge p i \<longleftrightarrow> i \<notin> S) \<and>
     (\<forall>i<512. \<forall>j<512. view p i j = identity_page i j)"

lemma presplit_step:
  assumes "presplit_state l S p" "a < GIB" "i = a div TWO_MIB" "i \<notin> S" "finite S" "card S < 16"
  shows "presplit_state l (insert i S) (fst (ensure_pt p a))"
proof -
  have i: "i < 512"
    using region_index(3) [OF assms(2)] assms(3) by simp
  have h: "huge p (a div TWO_MIB)" and ok: "paging_ok p" and room: "SPLIT_NEXT p < MAX_SPLIT_PTS"
    using assms i by (simp_all add: presplit_state_def MAX_SPLIT_PTS_def)
  note e = ensure_pt_huge [OF ok assms(2) h room, folded assms(3)]
  show ?thesis
    using assms(1,4,5) e by (auto simp: presplit_state_def)
qed

lemma presplit_arena_state:
  assumes "presplit_state l {56..<56 + k} p" "k \<le> 8"
  shows "presplit_state l {56..<64} (presplit_arena p (k * TWO_MIB))"
  using assms
proof (induction "8 - k" arbitrary: k p)
  case 0
  then have k: "k = 8" by simp
  show ?case
    using "0.prems" by (subst presplit_arena.simps) (simp add: k TWO_MIB_def KSTACK_ARENA_SIZE_def)
next
  case (Suc n)
  let ?a = "KSTACK_ARENA_BASE + k * TWO_MIB"
  have k: "k < 8"
    using Suc by simp
  have a: "?a < GIB" "56 + k = ?a div TWO_MIB"
    using k by (simp_all add: KSTACK_ARENA_BASE_def TWO_MIB_def GIB_def)
  have "presplit_state l (insert (56 + k) {56..<56 + k}) (fst (ensure_pt p ?a))"
    using Suc.prems k by (intro presplit_step [OF _ a]) auto
  moreover have "insert (56 + k) {56..<56 + k} = {56..<56 + Suc k}"
    by auto
  ultimately have "presplit_state l {56..<56 + Suc k} (fst (ensure_pt p ?a))"
    by simp
  then have "presplit_state l {56..<64} (presplit_arena (fst (ensure_pt p ?a)) (Suc k * TWO_MIB))"
    using Suc k by (intro Suc.hyps(1)) auto
  then show ?case
    using k by (subst presplit_arena.simps) (simp add: KSTACK_ARENA_SIZE_def TWO_MIB_def add.commute)
qed

lemma presplit_init:
  assumes "layout_ok l"
  shows "presplit_state l (insert 0 {56..<64})
    (fst (ensure_pt (presplit_arena (paging_init_tables (paging_static l)) 0) 0))"
proof -
  have "presplit_state l {56..<56 + 0} (paging_init_tables (paging_static l))"
    using paging_init_tables_ok [OF assms] by (simp add: presplit_state_def)
  from presplit_arena_state [OF this]
  have "presplit_state l {56..<64} (presplit_arena (paging_init_tables (paging_static l)) 0)"
    by simp
  then show ?thesis
    by (rule presplit_step) (simp_all add: GIB_def)
qed

text \<open>The attributes \<open>init\<close> leaves on page \<open>j\<close> of region \<open>i\<close>.\<close>

definition init_view :: "nat \<Rightarrow> nat \<Rightarrow> page_view" where
  "init_view i j =
     (if 2 \<le> i \<and> i < 56 \<or> 208 \<le> i then (identity_page i j)\<lparr>pv_user := True\<rparr>
      else if i = 112 then (identity_page i j)\<lparr>pv_user := True, pv_nx := True\<rparr>
      else if 121 \<le> i then (identity_page i j)\<lparr>pv_nx := True\<rparr>
      else identity_page i j)"

definition split_regions :: "nat set" where
  "split_regions = insert 0 {56..<64}"

lemma attribute_regions_view:
  assumes "presplit_state l split_regions p"
  defines "p' \<equiv> attribute_regions p"
  shows "paging_ok p'" "lay p' = l" "LOW_SCRATCH_NEXT p' = 0"
    "i < 512 \<Longrightarrow> huge p' i \<longleftrightarrow> i \<notin> split_regions"
    "i < 512 \<Longrightarrow> j < 512 \<Longrightarrow> view p' i j = init_view i j"
proof -
  have st: "paging_ok p" "lay p = l" "LOW_SCRATCH_NEXT p = 0"
      "\<And>i. i < 512 \<Longrightarrow> huge p i \<longleftrightarrow> i \<notin> split_regions"
      "\<And>i j. i < 512 \<Longrightarrow> j < 512 \<Longrightarrow> view p i j = identity_page i j"
    using assms(1) unfolding presplit_state_def by blast+
  define p1 where "p1 = set_attrs p 0x00400000 0x07000000 True False"
  define p2 where "p2 = set_attrs p1 0x0E000000 0x0E200000 True True"
  define p3 where "p3 = set_attrs p2 0x1A000000 0x40000000 True False"
  have p': "p' = set_attrs p3 0x0F200000 0x1A000000 False True"
    by (simp add: p'_def attribute_regions_def p1_def p2_def p3_def)
  have al: "TWO_MIB dvd 0x00400000" "TWO_MIB dvd 0x07000000" "TWO_MIB dvd 0x0E000000"
    "TWO_MIB dvd 0x0E200000" "TWO_MIB dvd 0x1A000000" "TWO_MIB dvd 0x40000000" "TWO_MIB dvd 0x0F200000"
    "0x07000000 \<le> GIB" "0x0E200000 \<le> GIB" "0x40000000 \<le> GIB" "0x1A000000 \<le> GIB"
    by (simp_all add: TWO_MIB_def GIB_def)
  note e1 = set_attrs_effect [OF st(1) al(1,2,8), where us = True and nx = False, folded p1_def]
  note e2 = set_attrs_effect [OF e1(1) al(3,4,9), where us = True and nx = True, folded p2_def]
  note e3 = set_attrs_effect [OF e2(1) al(5,6,10), where us = True and nx = False, folded p3_def]
  note e4 = set_attrs_effect [OF e3(1) al(7,5,11), where us = False and nx = True, folded p']
  show "paging_ok p'" "lay p' = l" "LOW_SCRATCH_NEXT p' = 0"
    by (simp_all add: e4 e3 e2 e1 st)
  show "huge p' i \<longleftrightarrow> i \<notin> split_regions" if "i < 512"
    by (simp add: e4 e3 e2 e1 st that)
  show "view p' i j = init_view i j" if "i < 512" "j < 512"
  proof -
    have r: "0x00400000 \<le> i * TWO_MIB \<and> i * TWO_MIB < 0x07000000 \<longleftrightarrow> 2 \<le> i \<and> i < 56"
      "0x0E000000 \<le> i * TWO_MIB \<and> i * TWO_MIB < 0x0E200000 \<longleftrightarrow> i = 112"
      "0x1A000000 \<le> i * TWO_MIB \<and> i * TWO_MIB < 0x40000000 \<longleftrightarrow> 208 \<le> i"
      "0x0F200000 \<le> i * TWO_MIB \<and> i * TWO_MIB < 0x1A000000 \<longleftrightarrow> 121 \<le> i \<and> i < 208"
      using that by (auto simp: TWO_MIB_def)
    show ?thesis
      using that unfolding e4(6) [OF that] e3(6) [OF that] e2(6) [OF that] e1(6) [OF that] st(5) [OF that] r
      by (auto simp: attr_view_def init_view_def identity_page_def)
  qed
qed

lemma paging_init_view:
  assumes "layout_ok l"
  defines "p \<equiv> paging_init (paging_static l)"
  shows "paging_ok p" "lay p = l" "LOW_SCRATCH_NEXT p = 0"
    "i < 512 \<Longrightarrow> huge p i \<longleftrightarrow> i \<notin> split_regions"
    "i < 512 \<Longrightarrow> j < 512 \<Longrightarrow> view p i j = init_view i j"
  using attribute_regions_view [OF presplit_init [OF assms(1), folded split_regions_def]]
  by (simp_all add: p_def paging_init_def Let_def)

section \<open>Run-time operations\<close>

lemma null_split: "paging_ok p \<Longrightarrow> at_SPLIT_PTS (lay p) \<noteq> 0"
  using layout_blocks(4) [OF paging_okD(1), of p] by (auto simp: block_ok_def)

lemma page_of:
  assumes "a < GIB"
  shows "align_down a FOUR_KIB < GIB" "align_down a FOUR_KIB div TWO_MIB = a div TWO_MIB"
    "align_down a FOUR_KIB mod TWO_MIB div FOUR_KIB = a mod TWO_MIB div FOUR_KIB"
proof -
  have q: "align_down a FOUR_KIB div FOUR_KIB = a div FOUR_KIB"
    by (simp add: align_down_def FOUR_KIB_def)
  have r: "x div TWO_MIB = x div FOUR_KIB div 512" for x
    by (simp add: TWO_MIB_def FOUR_KIB_def div_mult2_eq [symmetric])
  show "align_down a FOUR_KIB < GIB"
    by (rule le_less_trans [OF align_down_le assms])
  show "align_down a FOUR_KIB div TWO_MIB = a div TWO_MIB"
    by (simp add: r q)
  show "align_down a FOUR_KIB mod TWO_MIB div FOUR_KIB = a mod TWO_MIB div FOUR_KIB"
    by (simp add: page_index q)
qed

lemma map_guard_page_split:
  assumes ok: "paging_ok p" and a: "a < GIB" and h: "\<not> huge p (a div TWO_MIB)"
  shows "map_guard_page p a =
    (upd_split p (a div TWO_MIB) (\<lambda>t. t(a mod TWO_MIB div FOUR_KIB := 0)), align_down a FOUR_KIB)"
  using ensure_pt_split [OF ok page_of(1) [OF a]] h null_split [OF ok]
    upd_table_at_split [OF ok region_index(3) [OF a] h]
  by (simp add: map_guard_page_def page_of [OF a] Let_def)

definition no_page :: page_view where
  "no_page = \<lparr>pv_present = False, pv_user = False, pv_nx = False, pv_frame = 0\<rparr>"

lemma entry_view_0 [simp]: "entry_view 0 = no_page"
  by (simp add: entry_view_def no_page_def entry_addr_def)

lemma map_guard_page_effect:
  assumes ok: "paging_ok p" and a: "a < GIB" and h: "\<not> huge p (a div TWO_MIB)"
  defines "p' \<equiv> fst (map_guard_page p a)"
  shows "paging_ok p'" "lay p' = lay p" "LOW_SCRATCH_NEXT p' = LOW_SCRATCH_NEXT p"
    "PDS p' = PDS p"
    "i < 512 \<Longrightarrow> view p' i j =
      (if i = a div TWO_MIB \<and> j = a mod TWO_MIB div FOUR_KIB then no_page else view p i j)"
proof -
  note i = region_index(3) [OF a]
  show "paging_ok p'"
    unfolding p'_def map_guard_page_split [OF ok a h] fst_conv
    using paging_okD(6) [OF ok i] h
    by (intro paging_ok_upd_split [OF ok i h]) (auto simp: leaf_def split: if_splits)
  show "lay p' = lay p" "LOW_SCRATCH_NEXT p' = LOW_SCRATCH_NEXT p" "PDS p' = PDS p"
    by (simp_all add: p'_def map_guard_page_split [OF ok a h])
  show "view p' i j =
      (if i = a div TWO_MIB \<and> j = a mod TWO_MIB div FOUR_KIB then no_page else view p i j)" if "i < 512"
    using h by (simp add: p'_def map_guard_page_split [OF ok a h] view_upd_split [OF ok i h that] view_split)
qed

text \<open>The page that \<open>map_low_scratch\<close> installs from scratch frame \<open>s\<close>.\<close>

definition scratch_page :: "layout \<Rightarrow> nat \<Rightarrow> page_view" where
  "scratch_page l s = \<lparr>pv_present = True, pv_user = True, pv_nx = False,
     pv_frame = at_LOW_SCRATCH l + s * FOUR_KIB\<rparr>"

lemma map_low_scratch_effect:
  assumes ok: "paging_ok p" and a: "a < TWO_MIB" and h: "\<not> huge p 0"
    and room: "LOW_SCRATCH_NEXT p < LOW_SCRATCH_FRAMES"
  defines "p' \<equiv> fst (map_low_scratch p a)"
  shows "snd (map_low_scratch p a)" "paging_ok p'" "lay p' = lay p"
    "LOW_SCRATCH_NEXT p' = LOW_SCRATCH_NEXT p + 1" "huge p' i = huge p i"
    "i < 512 \<Longrightarrow> view p' i j =
      (if i = 0 \<and> j = a div FOUR_KIB then scratch_page (lay p) (LOW_SCRATCH_NEXT p) else view p i j)"
proof -
  let ?s = "LOW_SCRATCH_NEXT p"
  let ?fr = "at_LOW_SCRATCH (lay p) + ?s * FOUR_KIB"
  define p1 where "p1 = p\<lparr>LOW_SCRATCH_NEXT := ?s + 1\<rparr>"
  define p3 where "p3 = p1\<lparr>PDS := (PDS p1)(0 := (PDS p1 0)(0 := PDS p1 0 0 OR PAGE_USER))\<rparr>"
  define e :: u64 where "e = (of_nat ?fr AND ADDR_MASK) OR PAGE_PRESENT OR PAGE_WRITABLE OR PAGE_USER"
  have aG: "a < GIB" and a0: "a div TWO_MIB = 0" "a mod TWO_MIB = a"
    using a by (simp_all add: TWO_MIB_def GIB_def)
  have lo: "\<not> TWO_MIB \<le> align_down a FOUR_KIB"
    using a align_down_le [of a FOUR_KIB] by linarith
  have p1_same: "huge p1 i = huge p i" "split_idx p1 i = split_idx p i" "leaf p1 i j = leaf p i j"
      "view p1 i j = view p i j" for i j
    by (simp_all add: p1_def split_idx_def leaf_def view_def)
  have p1_Suc: "p\<lparr>LOW_SCRATCH_NEXT := Suc ?s\<rparr> = p1"
    by (simp add: p1_def)
  have p1_fields: "lay p1 = lay p" "PML4 p1 = PML4 p" "PDPT p1 = PDPT p" "PDS p1 = PDS p"
      "SPLIT_NEXT p1 = SPLIT_NEXT p"
    by (simp_all add: p1_def)
  have "paging_ok p1 = paging_ok p"
    by (simp only: paging_ok_def upper_ok_def region_ok_def p1_same p1_fields)
  then have ok1: "paging_ok p1"
    using ok by (rule iffD2)
  have h1: "\<not> huge p1 0"
    using h by (simp add: p1_same)
  have ok3: "paging_ok p3"
    unfolding p3_def by (rule paging_ok_cover [OF ok1 _ h1]) simp
  have c3: "huge p3 i = huge p i" "view p3 i j = view p i j" for i j
    using cover_props(1,4) [of p1 0] h1 by (simp_all add: p3_def p1_same)
  have h3: "\<not> huge p3 0"
    using h by (simp add: c3)
  have mark: "mark_user_covering_levels p1 (align_down a FOUR_KIB) = p3"
    using mark_user_view [OF ok1 page_of(1) [OF aG]] h1 by (simp add: page_of [OF aG] a0 p3_def)
  have sp: "at_SPLIT_PTS (lay p1) + split_idx p1 0 * FOUR_KIB =
      at_SPLIT_PTS (lay p3) + split_idx p3 0 * FOUR_KIB"
    using cover_props(2) [of p1 0] by (simp add: p3_def)
  have r: "map_low_scratch p a = (upd_split p3 0 (\<lambda>t. t(a div FOUR_KIB := e)), True)"
    using lo room null_split [OF ok3] ensure_pt_split [OF ok1 page_of(1) [OF aG]] h1 mark sp
      upd_table_at_split [OF ok3 _ h3] p1_Suc page_of(3) [OF aG]
    by (simp add: map_low_scratch_def page_of [OF aG] a0 Let_def e_def)
  have fr: "frame_addr ?fr"
    by (rule frame_addr_layout(4) [OF paging_okD(1) [OF ok] room])
  have ev: "entry_view e = scratch_page (lay p) ?s"
    using bit_frame_addr [OF fr] unfolding e_def entry_view_def of_nat_and_mask [OF fr] flag_entry_bits [OF fr]
    by (simp add: scratch_page_def)
  have us3: "bit (PDS p3 0 0) 2"
    by (simp add: p3_def bit_or_iff)
  show "snd (map_low_scratch p a)" "lay p' = lay p" "LOW_SCRATCH_NEXT p' = ?s + 1" "huge p' i = huge p i"
    by (simp_all add: r p'_def c3) (simp_all add: p3_def p1_def)
  show "paging_ok p'"
    unfolding p'_def r fst_conv by (rule paging_ok_upd_split [OF ok3 _ h3]) (simp_all add: us3)
  show "view p' i j =
      (if i = 0 \<and> j = a div FOUR_KIB then scratch_page (lay p) ?s else view p i j)" if "i < 512"
  proof -
    have "view p' i j = (if i = 0 \<and> j = a div FOUR_KIB then scratch_page (lay p) ?s else view p3 i j)"
      using that h3 ev by (simp add: p'_def r view_upd_split [OF ok3 _ h3] view_split)
    then show ?thesis
      by (simp only: c3)
  qed
qed

section \<open>Reachable page tables\<close>

text \<open>
  The kernel builds the hierarchy once, then installs guard pages below the kernel stacks it
  takes from the arena (\<open>sched::spawn\<close>) and serves stray low accesses from the page-fault
  handler (\<open>interrupts.rs\<close>).  These are all the writers of the tables in a build without the
  probe features.
\<close>

inductive kernel_paging :: "layout \<Rightarrow> paging \<Rightarrow> bool" for l where
  boot: "kernel_paging l (paging_init (paging_static l))"
| guard: "kernel_paging l p \<Longrightarrow> KSTACK_ARENA_BASE \<le> a \<Longrightarrow> a < KSTACK_ARENA_BASE + KSTACK_ARENA_SIZE
    \<Longrightarrow> kernel_paging l (fst (map_guard_page p a))"
| low: "kernel_paging l p \<Longrightarrow> kernel_paging l (fst (map_low_scratch p a))"

definition reachable_inv :: "layout \<Rightarrow> paging \<Rightarrow> bool" where
  "reachable_inv l p \<longleftrightarrow> paging_ok p \<and> lay p = l \<and>
     (\<forall>i<512. huge p i \<longleftrightarrow> i \<notin> split_regions) \<and>
     (\<forall>i<512. \<forall>j<512. i \<notin> split_regions \<longrightarrow> view p i j = init_view i j) \<and>
     (\<forall>i\<in>{56..<64}. \<forall>j<512. view p i j \<in> {init_view i j, no_page}) \<and>
     (\<forall>j<512. view p 0 j = init_view 0 j \<or>
        (\<exists>s<min (LOW_SCRATCH_NEXT p) LOW_SCRATCH_FRAMES. view p 0 j = scratch_page l s)) \<and>
     (\<forall>j<512. \<forall>j'<512. pv_user (view p 0 j) \<longrightarrow> pv_user (view p 0 j') \<longrightarrow>
        pv_frame (view p 0 j) = pv_frame (view p 0 j') \<longrightarrow> j = j')"

lemma init_view_low: "pv_user (init_view 0 j) = False"
  by (simp add: init_view_def identity_page_def)

lemma reachable_boot:
  assumes "layout_ok l"
  shows "reachable_inv l (paging_init (paging_static l))"
proof -
  note e = paging_init_view [OF assms]
  have "{56..<64} \<subseteq> {..<512::nat}"
    by auto
  then show ?thesis
    using e by (auto simp: reachable_inv_def init_view_low)
qed

lemma reachable_guard:
  assumes inv: "reachable_inv l p"
    and a: "KSTACK_ARENA_BASE \<le> a" "a < KSTACK_ARENA_BASE + KSTACK_ARENA_SIZE"
  shows "reachable_inv l (fst (map_guard_page p a))"
proof -
  have i: "a div TWO_MIB \<in> {56..<64}"
    using a by (auto simp: KSTACK_ARENA_BASE_def KSTACK_ARENA_SIZE_def TWO_MIB_def)
  have aG: "a < GIB"
    using a by (simp add: KSTACK_ARENA_BASE_def KSTACK_ARENA_SIZE_def GIB_def)
  have h: "\<not> huge p (a div TWO_MIB)" and ok: "paging_ok p"
    using inv i by (auto simp: reachable_inv_def split_regions_def)
  note e = map_guard_page_effect [OF ok aG h]
  have other: "view (fst (map_guard_page p a)) i' j = view p i' j" if "i' < 512" "i' \<notin> {56..<64}" for i' j
    using e(5) [OF that(1)] that i by auto
  have arena: "view (fst (map_guard_page p a)) i' j \<in> {init_view i' j, no_page}"
    if "i' \<in> {56..<64}" "j < 512" for i' j
  proof -
    have "i' < 512" and "view p i' j \<in> {init_view i' j, no_page}"
      using that inv unfolding reachable_inv_def by auto
    then show ?thesis
      using e(5) [of i' j] by (simp split: if_splits)
  qed
  have "huge (fst (map_guard_page p a)) i' \<longleftrightarrow> i' \<notin> split_regions" if "i' < 512" for i'
    using inv that by (simp add: reachable_inv_def e(4))
  moreover have "view (fst (map_guard_page p a)) i' j = init_view i' j"
    if "i' < 512" "j < 512" "i' \<notin> split_regions" for i' j
  proof -
    have "i' \<notin> {56..<64}"
      using that(3) by (simp add: split_regions_def)
    then show ?thesis
      using inv that other unfolding reachable_inv_def by simp
  qed
  moreover have "view (fst (map_guard_page p a)) 0 j = view p 0 j" for j
    by (rule other) simp_all
  ultimately show ?thesis
    using inv arena e(1-3) unfolding reachable_inv_def by simp
qed

lemma scratch_page_inj:
  "pv_frame (scratch_page l s) = pv_frame (scratch_page l s') \<Longrightarrow> s = s'"
  by (simp add: scratch_page_def FOUR_KIB_def)

lemma reachable_low:
  assumes inv: "reachable_inv l p"
  shows "reachable_inv l (fst (map_low_scratch p a))"
proof (cases "TWO_MIB \<le> align_down a FOUR_KIB")
  case True
  then show ?thesis
    using inv by (simp add: map_low_scratch_def Let_def)
next
  case low: False
  let ?s = "LOW_SCRATCH_NEXT p"
  define p1 where "p1 = p\<lparr>LOW_SCRATCH_NEXT := ?s + 1\<rparr>"
  show ?thesis
  proof (cases "LOW_SCRATCH_FRAMES \<le> ?s")
    case True
    have same: "huge p1 i = huge p i" "split_idx p1 i = split_idx p i" "leaf p1 i j = leaf p i j"
      "view p1 i j = view p i j" for i j
      by (simp_all add: p1_def split_idx_def leaf_def view_def)
    have fields: "lay p1 = lay p" "PML4 p1 = PML4 p" "PDPT p1 = PDPT p" "PDS p1 = PDS p"
      "SPLIT_NEXT p1 = SPLIT_NEXT p"
      "min (LOW_SCRATCH_NEXT p1) LOW_SCRATCH_FRAMES = min (LOW_SCRATCH_NEXT p) LOW_SCRATCH_FRAMES"
      using True by (simp_all add: p1_def)
    have "reachable_inv l p1 = reachable_inv l p"
      by (simp only: reachable_inv_def paging_ok_def upper_ok_def region_ok_def same fields)
    then show ?thesis
      using inv True low by (simp add: map_low_scratch_def Let_def p1_def)
  next
    case False
    define p' where "p' = fst (map_low_scratch p a)"
    have a: "a < TWO_MIB"
    proof (rule ccontr)
      assume "\<not> a < TWO_MIB"
      then have "TWO_MIB div FOUR_KIB \<le> a div FOUR_KIB"
        by (intro div_le_mono) simp
      then have "TWO_MIB \<le> align_down a FOUR_KIB"
        by (simp add: align_down_def TWO_MIB_def FOUR_KIB_def)
      with low show False by simp
    qed
    have ok: "paging_ok p" and h: "\<not> huge p 0" and room: "?s < LOW_SCRATCH_FRAMES" and l: "lay p = l"
      using inv False by (auto simp: reachable_inv_def split_regions_def)
    note e = map_low_scratch_effect [OF ok a h room, folded p'_def]
    let ?j = "a div FOUR_KIB"
    have v: "view p' i j = (if i = 0 \<and> j = ?j then scratch_page l ?s else view p i j)" if "i < 512" for i j
      using e(6) [OF that] l by simp
    have old: "view p 0 j = init_view 0 j \<or>
        (\<exists>s<min ?s LOW_SCRATCH_FRAMES. view p 0 j = scratch_page l s)" if "j < 512" for j
      using inv that unfolding reachable_inv_def by blast
    have oldfr: "pv_frame (view p 0 j) \<noteq> pv_frame (scratch_page l ?s)"
      if "j < 512" "pv_user (view p 0 j)" for j
      using old [OF that(1)] that(2) by (auto simp: init_view_low dest: scratch_page_inj)
    have new: "view p' 0 j = init_view 0 j \<or>
        (\<exists>s<min (LOW_SCRATCH_NEXT p') LOW_SCRATCH_FRAMES. view p' 0 j = scratch_page l s)"
      if "j < 512" for j
    proof (cases "j = ?j")
      case True
      then have "view p' 0 j = scratch_page l ?s" "?s < min (LOW_SCRATCH_NEXT p') LOW_SCRATCH_FRAMES"
        using v [of 0 j] room e(4) by simp_all
      then show ?thesis by blast
    next
      case False
      then have "view p' 0 j = view p 0 j" "min ?s LOW_SCRATCH_FRAMES \<le> min (LOW_SCRATCH_NEXT p') LOW_SCRATCH_FRAMES"
        using v [of 0 j] e(4) by simp_all
      then show ?thesis
        using old [OF that] by (metis less_le_trans)
    qed
    have inj: "j = j'" if "j < 512" "j' < 512" "pv_user (view p' 0 j)" "pv_user (view p' 0 j')"
      "pv_frame (view p' 0 j) = pv_frame (view p' 0 j')" for j j'
    proof (cases "j = ?j \<or> j' = ?j")
      case True
      then show ?thesis
        using that oldfr [of j] oldfr [of j'] v [of 0 j] v [of 0 j'] by (auto split: if_splits)
    next
      case False
      then show ?thesis
        using that inv v [of 0 j] v [of 0 j'] unfolding reachable_inv_def by auto
    qed
    have rest: "view p' i j = view p i j" if "i < 512" "i \<noteq> 0" for i j
      using v [OF that(1)] that(2) by simp
    have "\<forall>i<512. huge p' i \<longleftrightarrow> i \<notin> split_regions"
      using inv e(5) unfolding reachable_inv_def by blast
    moreover have "\<forall>i<512. \<forall>j<512. i \<notin> split_regions \<longrightarrow> view p' i j = init_view i j"
    proof (intro allI impI)
      fix i j :: nat assume "i < 512" "j < 512" "i \<notin> split_regions"
      moreover from this have "i \<noteq> 0"
        by (auto simp: split_regions_def)
      ultimately show "view p' i j = init_view i j"
        using inv rest unfolding reachable_inv_def by simp
    qed
    moreover have "\<forall>i\<in>{56..<64}. \<forall>j<512. view p' i j \<in> {init_view i j, no_page}"
    proof (intro ballI allI impI)
      fix i j :: nat assume i: "i \<in> {56..<64}" "j < 512"
      then have "i < 512" "i \<noteq> 0" by auto
      then have "view p' i j = view p i j" by (rule rest)
      then show "view p' i j \<in> {init_view i j, no_page}"
        using inv i unfolding reachable_inv_def by simp
    qed
    ultimately show ?thesis
      unfolding p'_def [symmetric] reachable_inv_def using e(2,3) l new inj by blast
  qed
qed

lemma reachable:
  assumes "layout_ok l" "kernel_paging l p"
  shows "reachable_inv l p"
  using assms(2,1)
  by (induction rule: kernel_paging.induct) (auto intro: reachable_boot reachable_guard reachable_low)

lemma reachable_view:
  assumes "reachable_inv l p" "i < 512" "j < 512"
  shows "view p i j = init_view i j \<or> i \<in> {56..<64} \<and> view p i j = no_page \<or>
    i = 0 \<and> (\<exists>s<LOW_SCRATCH_FRAMES. view p i j = scratch_page l s)"
proof -
  consider "i \<notin> split_regions" | "i \<in> {56..<64}" | "i = 0"
    by (auto simp: split_regions_def)
  then show ?thesis
  proof cases
    case 1
    then show ?thesis
      using assms unfolding reachable_inv_def by blast
  next
    case 2
    then have "view p i j \<in> {init_view i j, no_page}"
      using assms unfolding reachable_inv_def by blast
    with 2 show ?thesis by blast
  next
    case 3
    have "view p 0 j = init_view 0 j \<or>
        (\<exists>s<min (LOW_SCRATCH_NEXT p) LOW_SCRATCH_FRAMES. view p 0 j = scratch_page l s)"
      using assms unfolding reachable_inv_def by blast
    with 3 show ?thesis by auto
  qed
qed

section \<open>What user mode can reach\<close>

text \<open>
  The memory the kernel means to give to the BEAM: its image and break heap, its stack, and the
  code and mapping area up to the third GiB boundary.
\<close>

definition beam_range :: "nat \<Rightarrow> bool" where
  "beam_range a \<longleftrightarrow> 0x00400000 \<le> a \<and> a < 0x07000000 \<or> 0x0E000000 \<le> a \<and> a < 0x0E200000 \<or>
     0x1A000000 \<le> a \<and> a < 0xC0000000"

definition nx_range :: "nat \<Rightarrow> bool" where
  "nx_range a \<longleftrightarrow> 0x0E000000 \<le> a \<and> a < 0x0E200000 \<or> 0x0F200000 \<le> a \<and> a < 0x1A000000"

lemma region_bounds:
  "c \<le> a div TWO_MIB \<longleftrightarrow> c * TWO_MIB \<le> a" "a div TWO_MIB < c \<longleftrightarrow> a < c * TWO_MIB"
  by (simp_all add: TWO_MIB_def less_eq_div_iff_mult_less_eq div_less_iff_less_mult)

lemma init_view_of:
  assumes "a < GIB"
  defines "v \<equiv> init_view (a div TWO_MIB) (a mod TWO_MIB div FOUR_KIB)"
  shows "pv_present v" "pv_user v = beam_range a" "pv_nx v = nx_range a"
    "pv_frame v + a mod FOUR_KIB = a"
proof -
  let ?i = "a div TWO_MIB"
  have i: "2 \<le> ?i \<longleftrightarrow> 0x00400000 \<le> a" "?i < 56 \<longleftrightarrow> a < 0x07000000" "208 \<le> ?i \<longleftrightarrow> 0x1A000000 \<le> a"
    "121 \<le> ?i \<longleftrightarrow> 0x0F200000 \<le> a"
    unfolding region_bounds by (simp_all add: TWO_MIB_def)
  have i112: "?i = 112 \<longleftrightarrow> 0x0E000000 \<le> a \<and> a < 0x0E200000"
  proof -
    have "?i = 112 \<longleftrightarrow> 112 \<le> ?i \<and> ?i < 113"
      by linarith
    also have "\<dots> \<longleftrightarrow> 0x0E000000 \<le> a \<and> a < 0x0E200000"
      unfolding region_bounds by (simp add: TWO_MIB_def)
    finally show ?thesis .
  qed
  show "pv_present v"
    by (simp add: v_def init_view_def identity_page_def)
  show "pv_user v = beam_range a" "pv_nx v = nx_range a"
    using assms(1) unfolding v_def init_view_def i i112 beam_range_def nx_range_def
    by (auto simp: identity_page_def GIB_def)
  have "?i * TWO_MIB + a mod TWO_MIB = a"
    by simp
  moreover have "pv_frame v = ?i * TWO_MIB + a mod TWO_MIB div FOUR_KIB * FOUR_KIB"
    by (simp add: v_def init_view_def identity_page_def)
  ultimately show "pv_frame v + a mod FOUR_KIB = a"
    using mod_region [of a] by linarith
qed

lemma high_ranges: "GIB \<le> a \<Longrightarrow> a < 4 * GIB \<Longrightarrow> (a < 3 * GIB) = beam_range a \<and> \<not> nx_range a"
  by (auto simp: beam_range_def nx_range_def GIB_def)

lemma reachable_walk:
  assumes "layout_ok l" "kernel_paging l p" "a < 4 * GIB"
  shows "hw_walk p a = Some (a, beam_range a, nx_range a) \<or>
    KSTACK_ARENA_BASE \<le> a \<and> a < KSTACK_ARENA_BASE + KSTACK_ARENA_SIZE \<and> hw_walk p a = None \<or>
    a < TWO_MIB \<and> (\<exists>s<LOW_SCRATCH_FRAMES.
      hw_walk p a = Some (at_LOW_SCRATCH l + s * FOUR_KIB + a mod FOUR_KIB, True, False))"
proof (cases "a < GIB")
  case False
  have "paging_ok p"
    using reachable [OF assms(1,2)] by (simp add: reachable_inv_def)
  then show ?thesis
    using hw_walk_high [of p a] high_ranges [of a] False assms(3) by simp
next
  case True
  let ?i = "a div TWO_MIB" and ?j = "a mod TWO_MIB div FOUR_KIB"
  have inv: "reachable_inv l p"
    by (rule reachable [OF assms(1,2)])
  have ij: "?i < 512" "?j < 512"
    using region_index(3) [OF True] by simp_all
  have w: "hw_walk p a = (let v = view p ?i ?j
     in if pv_present v then Some (pv_frame v + a mod FOUR_KIB, pv_user v, pv_nx v) else None)"
    using inv by (intro hw_walk_view [OF _ True]) (simp add: reachable_inv_def)
  consider "view p ?i ?j = init_view ?i ?j" | "?i \<in> {56..<64}" "view p ?i ?j = no_page"
    | s where "?i = 0" "s < LOW_SCRATCH_FRAMES" "view p ?i ?j = scratch_page l s"
    using reachable_view [OF inv ij] by blast
  then show ?thesis
  proof cases
    case 1
    then show ?thesis
      using w init_view_of [OF True] by (simp add: Let_def)
  next
    case 2
    then have "56 \<le> ?i" "?i < 64"
      by simp_all
    then have "KSTACK_ARENA_BASE \<le> a" "a < KSTACK_ARENA_BASE + KSTACK_ARENA_SIZE"
      unfolding region_bounds by (simp_all add: KSTACK_ARENA_BASE_def KSTACK_ARENA_SIZE_def TWO_MIB_def)
    then show ?thesis
      using w 2 by (simp add: no_page_def)
  next
    case 3
    then have "?i < 1"
      by linarith
    then have "a < TWO_MIB"
      unfolding region_bounds by simp
    then show ?thesis
      using w 3 by (auto simp: scratch_page_def)
  qed
qed

section \<open>The interface to the rest of the kernel\<close>

text \<open>
  What the system-call handlers rely on when they validate a range: the empty range is always
  accepted, a range is accepted exactly when both parts of any cut of it are, and an accepted
  range lies in the 4 GiB identity map.
\<close>

locale user_access =
  fixes acc :: "nat \<Rightarrow> nat \<Rightarrow> bool"
  assumes acc_empty: "acc a 0"
    and acc_append: "acc a (m + n) \<longleftrightarrow> acc a m \<and> acc (a + m) n"
    and acc_bound: "acc a n \<Longrightarrow> 0 < n \<Longrightarrow> a + n \<le> 4 * GIB"
begin

lemma acc_sub:
  assumes "acc a n" "a \<le> b" "b + k \<le> a + n"
  shows "acc b k"
proof -
  have "n = (b - a) + (k + (a + n - (b + k)))" "a + (b - a) = b"
    using assms by simp_all
  with assms(1) acc_append [of a "b - a"] acc_append [of b k] show ?thesis
    by metis
qed

lemma acc_bytes: "acc a n \<longleftrightarrow> (\<forall>i<n. acc (a + i) 1)"
proof (induction n)
  case (Suc n)
  then show ?case
    using acc_append [of a n 1] by (auto simp: less_Suc_eq)
qed (simp add: acc_empty)

end

interpretation uacc: user_access "user_accessible p" for p
proof
  show "user_accessible p a 0" for a
    by (simp add: user_accessible_def)
  show "user_accessible p a (m + n) \<longleftrightarrow> user_accessible p a m \<and> user_accessible p (a + m) n" for a m n
  proof (cases "m = 0 \<or> n = 0")
    case False
    have cut: "a \<le> b \<and> b < a + (m + n) \<longleftrightarrow> a \<le> b \<and> b < a + m \<or> a + m \<le> b \<and> b < a + m + n" for b
      by linarith
    have "(\<forall>b. a \<le> b \<and> b < a + (m + n) \<longrightarrow> hw_user p b) \<longleftrightarrow>
        (\<forall>b. a \<le> b \<and> b < a + m \<longrightarrow> hw_user p b) \<and> (\<forall>b. a + m \<le> b \<and> b < a + m + n \<longrightarrow> hw_user p b)"
      unfolding cut by blast
    moreover have "a + (m + n) \<le> 4 * GIB \<longleftrightarrow> a + m \<le> 4 * GIB \<and> a + m + n \<le> 4 * GIB" "m + n \<noteq> 0" "m \<noteq> 0" "n \<noteq> 0"
      using False by linarith+
    ultimately show ?thesis
      unfolding user_accessible_iff by blast
  qed (auto simp: user_accessible_iff)
  show "a + n \<le> 4 * GIB" if "user_accessible p a n" "0 < n" for a n
    using that by (simp add: user_accessible_iff)
qed

section \<open>Properties\<close>

definition example_layout :: layout where
  "example_layout = \<lparr>at_PML4 = 0x0F400000, at_PDPT = 0x0F401000, at_PDS = 0x0F402000,
     at_SPLIT_PTS = 0x0F406000, at_LOW_SCRATCH = 0x0F416000\<rparr>"

lemma example_layout_ok: "layout_ok example_layout"
  by (simp add: layout_ok_def block_ok_def apart_def example_layout_def FOUR_KIB_def
      MAX_SPLIT_PTS_def LOW_SCRATCH_FRAMES_def)

text \<open>
  C21: the page tables \<open>init\<close> builds map the whole 4 GiB identically, give user mode access to
  exactly the BEAM's memory, and mark exactly the user stack and the kernel's data block
  no-execute.  This holds for every placement of the static tables the linker may choose.
\<close>

theorem paging_init_maps:
  assumes "layout_ok l" and "a < 4 * GIB"
  shows "hw_walk (paging_init (paging_static l)) a = Some (a, beam_range a, nx_range a)"
proof (cases "a < GIB")
  case True
  note e = paging_init_view [OF assms(1)]
  show ?thesis
    using hw_walk_view [OF e(1) True] init_view_of [OF True] region_index(3) [OF True] by (simp add: e(5))
next
  case False
  then show ?thesis
    using hw_walk_high [OF paging_init_view(1) [OF assms(1)], of a] high_ranges [of a] assms(2) by simp
qed

theorem paging_init_maps_witness:
  "hw_walk (paging_init (paging_static example_layout)) 0x00600000 = Some (0x00600000, True, False) \<and>
   hw_walk (paging_init (paging_static example_layout)) 0x0F400000 = Some (0x0F400000, False, True)"
  using paging_init_maps [OF example_layout_ok, of "0x00600000"]
    paging_init_maps [OF example_layout_ok, of "0x0F400000"]
  by (simp add: GIB_def beam_range_def nx_range_def)

text \<open>
  C1: isolation at run time.  After \<open>init\<close> and any number of guard-page installations and
  low-page faults, a user-mode access either is to the BEAM's own memory and reaches the same
  physical address, or is to the first 2 MiB and reaches one of the dedicated scratch frames;
  and the BEAM never loses access to its memory.  No user access reaches the kernel's image,
  heap, page tables, stacks or low memory.
\<close>

theorem kernel_isolation:
  assumes "layout_ok l" and "kernel_paging l p" and "a < 4 * GIB"
  shows "(hw_walk p a = Some (pa, True, nx) \<longrightarrow>
            beam_range a \<and> pa = a \<or>
            a < TWO_MIB \<and> (\<exists>s<LOW_SCRATCH_FRAMES. pa = at_LOW_SCRATCH l + s * FOUR_KIB + a mod FOUR_KIB)) \<and>
         (beam_range a \<longrightarrow> hw_walk p a = Some (a, True, nx_range a))"
proof -
  have "beam_range a \<Longrightarrow> \<not> (KSTACK_ARENA_BASE \<le> a \<and> a < KSTACK_ARENA_BASE + KSTACK_ARENA_SIZE) \<and> \<not> a < TWO_MIB"
    by (auto simp: beam_range_def KSTACK_ARENA_BASE_def KSTACK_ARENA_SIZE_def TWO_MIB_def)
  then show ?thesis
    using reachable_walk [OF assms] by auto
qed

theorem kernel_isolation_witness:
  "let p = fst (map_low_scratch (fst (map_guard_page (paging_init (paging_static example_layout))
             0x07000000)) 0x2be4)
   in hw_walk p 0x0F400000 \<noteq> Some (0x0F400000, True, False) \<and>
      hw_walk p 0x1A000000 = Some (0x1A000000, True, False)"
proof -
  let ?p = "fst (map_low_scratch (fst (map_guard_page (paging_init (paging_static example_layout))
             0x07000000)) 0x2be4)"
  have k: "kernel_paging example_layout ?p"
    by (intro kernel_paging.intros) (simp_all add: KSTACK_ARENA_BASE_def KSTACK_ARENA_SIZE_def)
  show ?thesis
    using kernel_isolation [OF example_layout_ok k, of "0x0F400000" "0x0F400000" False]
      kernel_isolation [OF example_layout_ok k, of "0x1A000000" 0 False]
    by (simp add: GIB_def beam_range_def nx_range_def TWO_MIB_def)
qed

text \<open>
  C9: the confused-deputy check is exact.  A range is accepted if and only if it is empty, or
  lies within 4 GiB (so that its end does not wrap) and the processor itself would let user mode
  access every byte of it.
\<close>

theorem user_accessible_exact:
  "user_accessible p addr len \<longleftrightarrow>
     len = 0 \<or> addr + len \<le> 4 * GIB \<and>
       (\<forall>b\<in>{addr..<addr + len}. \<exists>pa nx. hw_walk p b = Some (pa, True, nx))"
proof -
  have "hw_user p b \<longleftrightarrow> (\<exists>pa nx. hw_walk p b = Some (pa, True, nx))" for b
    by (auto simp: hw_user_def split: option.splits)
  then show ?thesis
    unfolding user_accessible_iff by auto
qed

theorem user_accessible_exact_witness:
  "user_accessible (paging_init (paging_static example_layout)) 0x00600000 16 \<and>
   \<not> user_accessible (paging_init (paging_static example_layout)) 0x06FFFFF8 16 \<and>
   \<not> user_accessible (paging_init (paging_static example_layout)) 0xFFFFFFFFFFFFFFF8 16"
proof -
  let ?p = "paging_init (paging_static example_layout)"
  note e = paging_init_view [OF example_layout_ok]
  have w: "hw_walk ?p a = Some (a, beam_range a, nx_range a)" if "a < GIB" for a
    using hw_walk_view [OF e(1) that] init_view_of [OF that] region_index(3) [OF that] by (simp add: e(5))
  have "\<forall>b\<in>{0x00600000..<0x00600000 + 16}. \<exists>pa nx. hw_walk ?p b = Some (pa, True, nx)"
    by (auto simp: w GIB_def beam_range_def)
  moreover have "hw_walk ?p 0x07000000 = Some (0x07000000, False, False)"
    by (simp add: w GIB_def beam_range_def nx_range_def)
  moreover have "0x07000000 \<in> {0x06FFFFF8..<0x06FFFFF8 + 16::nat}"
    by simp
  ultimately show ?thesis
    using user_accessible_exact [of ?p "0x00600000" 16] user_accessible_exact [of ?p "0x06FFFFF8" 16]
      user_accessible_exact [of ?p "0xFFFFFFFFFFFFFFF8" 16]
    by (fastforce simp: GIB_def)
qed

lemma same_page_iff:
  "b div TWO_MIB = a div TWO_MIB \<and> b mod TWO_MIB div FOUR_KIB = a mod TWO_MIB div FOUR_KIB \<longleftrightarrow>
   b div FOUR_KIB = a div FOUR_KIB"
proof -
  have r: "x div TWO_MIB = x div FOUR_KIB div 512" for x
    by (simp add: TWO_MIB_def FOUR_KIB_def div_mult2_eq [symmetric])
  show ?thesis
    unfolding page_index r by (metis div_mult_mod_eq)
qed

lemma page_ne_high: "\<not> b < GIB \<Longrightarrow> a < GIB \<Longrightarrow> b div FOUR_KIB \<noteq> a div FOUR_KIB"
proof -
  assume ab: "\<not> b < GIB" "a < GIB"
  have "GIB div FOUR_KIB \<le> b div FOUR_KIB"
    using ab(1) by (intro div_le_mono) simp
  moreover have "a div FOUR_KIB < GIB div FOUR_KIB"
    using ab(2) by (simp add: GIB_def FOUR_KIB_def div_less_iff_less_mult)
  ultimately show ?thesis
    by linarith
qed

lemma low_page: "TWO_MIB \<le> align_down a FOUR_KIB \<longleftrightarrow> TWO_MIB \<le> a"
proof
  show "TWO_MIB \<le> align_down a FOUR_KIB \<Longrightarrow> TWO_MIB \<le> a"
    using align_down_le [of a FOUR_KIB] by (rule order_trans [rotated])
next
  assume "TWO_MIB \<le> a"
  then have "TWO_MIB div FOUR_KIB \<le> a div FOUR_KIB"
    by (rule div_le_mono)
  then show "TWO_MIB \<le> align_down a FOUR_KIB"
    by (simp add: align_down_def TWO_MIB_def FOUR_KIB_def)
qed

lemma hw_walk_counter: "hw_walk (p\<lparr>LOW_SCRATCH_NEXT := n\<rparr>) b = hw_walk p b"
proof -
  have t: "table_at (p\<lparr>LOW_SCRATCH_NEXT := n\<rparr>) = table_at p"
    by (rule ext) (simp add: table_at_def get_table_def split: option.split table_ref.split)
  have r: "PML4 (p\<lparr>LOW_SCRATCH_NEXT := n\<rparr>) = PML4 p"
    by simp
  show ?thesis
    unfolding hw_walk_def t r ..
qed

text \<open>The next scratch frame is reached by no user access.\<close>

lemma fresh_scratch_frame:
  assumes "layout_ok l" "kernel_paging l p" "b < 4 * GIB" "LOW_SCRATCH_NEXT p < LOW_SCRATCH_FRAMES"
  shows "hw_walk p b \<noteq> Some (at_LOW_SCRATCH l + LOW_SCRATCH_NEXT p * FOUR_KIB + b mod FOUR_KIB, True, nx)"
proof
  let ?s = "LOW_SCRATCH_NEXT p"
  assume w: "hw_walk p b = Some (at_LOW_SCRATCH l + ?s * FOUR_KIB + b mod FOUR_KIB, True, nx)"
  have inv: "reachable_inv l p"
    by (rule reachable [OF assms(1,2)])
  then have ok: "paging_ok p"
    by (simp add: reachable_inv_def)
  have "0x0F200000 \<le> at_LOW_SCRATCH l" "at_LOW_SCRATCH l + LOW_SCRATCH_FRAMES * FOUR_KIB \<le> 0x1A000000"
    using layout_blocks(5) [OF assms(1)] by (simp_all add: block_ok_def)
  moreover have "?s * FOUR_KIB + b mod FOUR_KIB < LOW_SCRATCH_FRAMES * FOUR_KIB"
    using assms(4) by (simp add: LOW_SCRATCH_FRAMES_def FOUR_KIB_def)
  ultimately have "\<not> beam_range (at_LOW_SCRATCH l + ?s * FOUR_KIB + b mod FOUR_KIB)"
    by (simp add: beam_range_def)
  then have "b < TWO_MIB"
    using reachable_walk [OF assms(1-3)] w by auto
  then have b: "b < GIB" "b div TWO_MIB = 0"
    by (simp_all add: TWO_MIB_def GIB_def)
  let ?v = "view p 0 (b mod TWO_MIB div FOUR_KIB)"
  have v: "pv_user ?v" "pv_frame ?v = at_LOW_SCRATCH l + ?s * FOUR_KIB"
    using hw_walk_view [OF ok b(1)] w unfolding b(2) by (auto simp: Let_def split: if_splits)
  have "?v = init_view 0 (b mod TWO_MIB div FOUR_KIB) \<or>
      (\<exists>s<min ?s LOW_SCRATCH_FRAMES. ?v = scratch_page l s)"
    using inv page_index_less [of b] unfolding reachable_inv_def by blast
  then show False
    using v by (auto simp: init_view_low scratch_page_def FOUR_KIB_def)
qed

text \<open>
  installing a guard page below a kernel stack unmaps exactly that 4 KiB page: every access
  to it faults, the walk of every other address is unchanged, no split table is consumed, and
  the page address is reported.
\<close>

theorem guard_page_exact:
  assumes "layout_ok l" and "kernel_paging l p" and "b < 4 * GIB"
    and "KSTACK_ARENA_BASE \<le> a" and "a < KSTACK_ARENA_BASE + KSTACK_ARENA_SIZE"
  shows "snd (map_guard_page p a) = align_down a FOUR_KIB \<and>
    SPLIT_NEXT (fst (map_guard_page p a)) = SPLIT_NEXT p \<and>
    hw_walk (fst (map_guard_page p a)) b =
      (if b div FOUR_KIB = a div FOUR_KIB then None else hw_walk p b)"
proof -
  have inv: "reachable_inv l p"
    by (rule reachable [OF assms(1,2)])
  have aG: "a < GIB"
    using assms(5) by (simp add: KSTACK_ARENA_BASE_def KSTACK_ARENA_SIZE_def GIB_def)
  have "56 \<le> a div TWO_MIB" "a div TWO_MIB < 64"
    using assms(4,5) unfolding region_bounds
    by (simp_all add: KSTACK_ARENA_BASE_def KSTACK_ARENA_SIZE_def TWO_MIB_def)
  then have ok: "paging_ok p" and h: "\<not> huge p (a div TWO_MIB)"
    using inv by (auto simp: reachable_inv_def split_regions_def)
  note e = map_guard_page_effect [OF ok aG h]
  have "hw_walk (fst (map_guard_page p a)) b =
      (if b div FOUR_KIB = a div FOUR_KIB then None else hw_walk p b)"
  proof (cases "b < GIB")
    case True
    note w = hw_walk_view [OF e(1) True] hw_walk_view [OF ok True]
    show ?thesis
      unfolding w using e(5) [OF region_index(3) [OF True], of "b mod TWO_MIB div FOUR_KIB"]
      unfolding same_page_iff by (simp add: no_page_def)
  next
    case False
    then show ?thesis
      using page_ne_high [OF False aG] hw_walk_high [OF e(1), of b] hw_walk_high [OF ok, of b] assms(3)
      by simp
  qed
  then show ?thesis
    by (simp add: map_guard_page_split [OF ok aG h])
qed

theorem guard_page_exact_witness:
  "let p = paging_init (paging_static example_layout); p' = fst (map_guard_page p 0x07006010)
   in hw_walk p' 0x07006FFF = None \<and> hw_walk p' 0x07007000 = hw_walk p 0x07007000"
proof -
  have k: "kernel_paging example_layout (paging_init (paging_static example_layout))"
    by (rule kernel_paging.boot)
  show ?thesis
    using guard_page_exact [OF example_layout_ok k, of "0x07006FFF" "0x07006010"]
      guard_page_exact [OF example_layout_ok k, of "0x07007000" "0x07006010"]
    by (simp add: GIB_def KSTACK_ARENA_BASE_def KSTACK_ARENA_SIZE_def FOUR_KIB_def Let_def)
qed

text \<open>
  C22: serving a stray low access.  While a scratch frame is left, the page of the faulting
  address is redirected to a frame that no other user-accessible address reaches, and the walk
  of every other address is unchanged; when none is left, or the address is above the first
  2 MiB, the fault is reported as a violation and no mapping changes.
\<close>

theorem low_scratch_exact:
  assumes "layout_ok l" and "kernel_paging l p" and "b < 4 * GIB"
  shows "if a < TWO_MIB \<and> LOW_SCRATCH_NEXT p < LOW_SCRATCH_FRAMES
    then snd (map_low_scratch p a) \<and>
      hw_walk (fst (map_low_scratch p a)) b =
        (if b div FOUR_KIB = a div FOUR_KIB
         then Some (at_LOW_SCRATCH l + LOW_SCRATCH_NEXT p * FOUR_KIB + b mod FOUR_KIB, True, False)
         else hw_walk p b) \<and>
      hw_walk p b \<noteq> Some (at_LOW_SCRATCH l + LOW_SCRATCH_NEXT p * FOUR_KIB + b mod FOUR_KIB, True, nx)
    else \<not> snd (map_low_scratch p a) \<and> hw_walk (fst (map_low_scratch p a)) b = hw_walk p b"
proof (cases "a < TWO_MIB \<and> LOW_SCRATCH_NEXT p < LOW_SCRATCH_FRAMES")
  case True
  let ?s = "LOW_SCRATCH_NEXT p"
  have ok: "paging_ok p" and h: "\<not> huge p 0" and l: "lay p = l"
    using reachable [OF assms(1,2)] by (auto simp: reachable_inv_def split_regions_def)
  note e = map_low_scratch_effect [OF ok conjunct1 [OF True] h conjunct2 [OF True]]
  have a: "a div TWO_MIB = 0" "a mod TWO_MIB = a" "a < GIB"
    using True by (simp_all add: TWO_MIB_def GIB_def)
  have "hw_walk (fst (map_low_scratch p a)) b =
      (if b div FOUR_KIB = a div FOUR_KIB
       then Some (at_LOW_SCRATCH l + ?s * FOUR_KIB + b mod FOUR_KIB, True, False) else hw_walk p b)"
  proof (cases "b < GIB")
    case bG: True
    have same: "b div FOUR_KIB = a div FOUR_KIB \<longleftrightarrow>
        b div TWO_MIB = 0 \<and> b mod TWO_MIB div FOUR_KIB = a div FOUR_KIB"
      by (rule same_page_iff [of b a, symmetric, unfolded a(1,2)])
    show ?thesis
      unfolding same hw_walk_view [OF e(2) bG] hw_walk_view [OF ok bG]
      using e(6) [OF region_index(3) [OF bG], of "b mod TWO_MIB div FOUR_KIB"]
      by (simp add: scratch_page_def l Let_def)
  next
    case False
    then show ?thesis
      using page_ne_high [OF False a(3)] hw_walk_high [OF e(2), of b] hw_walk_high [OF ok, of b] assms(3)
      by simp
  qed
  then show ?thesis
    using True e(1) fresh_scratch_frame [OF assms] by simp
next
  case False
  then show ?thesis
    by (auto simp: map_low_scratch_def low_page Let_def hw_walk_counter)
qed

theorem low_scratch_exact_witness:
  "let p = paging_init (paging_static example_layout)
   in snd (map_low_scratch p 0x2be4) \<and>
      hw_walk (fst (map_low_scratch p 0x2be4)) 0x2000 = Some (0x0F416000, True, False) \<and>
      \<not> snd (map_low_scratch p 0x200000)"
proof -
  have k: "kernel_paging example_layout (paging_init (paging_static example_layout))"
    by (rule kernel_paging.boot)
  show ?thesis
    using low_scratch_exact [OF example_layout_ok k, of "0x2000" "0x2be4"]
      low_scratch_exact [OF example_layout_ok k, of 0 "0x200000"] paging_init_view(3) [OF example_layout_ok]
    by (simp add: GIB_def TWO_MIB_def FOUR_KIB_def LOW_SCRATCH_FRAMES_def example_layout_def Let_def)
qed

text \<open>
  \<open>set_page_us\<close> on a page of a region that is still one 2 MiB leaf does more than flip the
  user bit of that page: the split rebuilds the whole region as executable supervisor pages, so
  every other page of the region loses the user right and the no-execute flag it had.
\<close>

theorem set_page_us_resets_region:
  assumes ok: "paging_ok p" and a: "a < GIB" and b: "b < GIB"
    and h: "huge p (a div TWO_MIB)" and room: "SPLIT_NEXT p < MAX_SPLIT_PTS"
  shows "hw_walk (set_page_us p a True) b =
    (if b div FOUR_KIB = a div FOUR_KIB then Some (b, True, False)
     else if b div TWO_MIB = a div TWO_MIB then Some (b, False, False)
     else hw_walk p b)"
proof -
  let ?i = "a div TWO_MIB" and ?j = "a mod TWO_MIB div FOUR_KIB"
  let ?page = "align_down a FOUR_KIB"
  define p1 where "p1 = fst (ensure_pt p ?page)"
  have i: "?i < 512"
    by (rule region_index(3) [OF a])
  note e = ensure_pt_huge [OF ok page_of(1) [OF a] _ room, unfolded page_of(2) [OF a], OF h, folded p1_def]
  define p2 where "p2 = p1\<lparr>PDS := (PDS p1)(0 := (PDS p1 0)(?i := PDS p1 0 ?i OR PAGE_USER))\<rparr>"
  have h1: "\<not> huge p1 ?i"
    by (simp add: e(7))
  have ok2: "paging_ok p2"
    unfolding p2_def by (rule paging_ok_cover [OF e(10) i h1])
  have c: "huge p2 i' = huge p1 i'" "split_idx p2 i' = split_idx p1 i'" "view p2 i' j = view p1 i' j" for i' j
    using cover_props [of p1 ?i] h1 by (simp_all add: p2_def)
  have h2: "\<not> huge p2 ?i"
    using h1 by (simp add: c)
  have mark: "mark_user_covering_levels p1 ?page = p2"
    using mark_user_view [OF e(10) page_of(1) [OF a]] h1 by (simp add: page_of [OF a] p2_def)
  have ptr: "snd (ensure_pt p ?page) = at_SPLIT_PTS (lay p2) + split_idx p2 ?i * FOUR_KIB"
    using e(1,2,8) by (simp add: c) (simp add: p2_def)
  let ?f = "\<lambda>t. t(?j := t ?j OR PAGE_USER)"
  have r: "set_page_us p a True = upd_split p2 ?i ?f"
    using ptr mark null_split [OF ok2] upd_table_at_split [OF ok2 i h2, of ?f] page_of(3) [OF a]
    by (simp add: set_page_us_def Let_def case_prod_beta p1_def)
  have us2: "bit (PDS p2 0 ?i) 2"
    by (simp add: p2_def bit_or_iff)
  have ok': "paging_ok (upd_split p2 ?i ?f)"
    by (rule paging_ok_upd_split [OF ok2 i h2]) (rule us2)
  have orv: "entry_view (e OR PAGE_USER) = (entry_view e)\<lparr>pv_user := True\<rparr>" for e
    by (simp add: entry_view_def bit_or_iff)
  have v: "view (upd_split p2 ?i ?f) i' j = (if i' = ?i then
      (if j = ?j then (identity_page i' j)\<lparr>pv_user := True\<rparr> else identity_page i' j) else view p i' j)"
    if "i' < 512" "j < 512" for i' j
    using view_upd_split [OF ok2 i h2 that(1)] e(9) [OF that] view_split [OF h2, of j] c(3) [of i' j]
    by (auto simp: orv)
  let ?ib = "b div TWO_MIB" and ?jb = "b mod TWO_MIB div FOUR_KIB"
  have "?ib * TWO_MIB + ?jb * FOUR_KIB + b mod FOUR_KIB = b"
    using mod_region [of b] div_mult_mod_eq [of b TWO_MIB] by linarith
  then show ?thesis
    unfolding r hw_walk_view [OF ok' b] hw_walk_view [OF ok b]
    using v [OF region_index(3) [OF b] page_index_less] same_page_iff [of b a]
    by (auto simp: identity_page_def Let_def)
qed

theorem set_page_us_resets_region_witness:
  "let p = paging_init_tables (paging_static example_layout);
       p1 = set_attrs p 0x00400000 0x07000000 True False
   in hw_walk p1 0x00601000 = Some (0x00601000, True, False) \<and>
      hw_walk (set_page_us p1 0x00600000 True) 0x00601000 = Some (0x00601000, False, False)"
proof -
  let ?p = "paging_init_tables (paging_static example_layout)"
  let ?p1 = "set_attrs ?p 0x00400000 0x07000000 True False"
  note i = paging_init_tables_ok [OF example_layout_ok]
  have d: "TWO_MIB dvd 0x00400000" "TWO_MIB dvd 0x07000000" "0x07000000 \<le> GIB"
    by (simp_all add: TWO_MIB_def GIB_def)
  note e = set_attrs_effect [OF i(1) d, where us = True and nx = False]
  have n: "(0x00601000::nat) < GIB" "(0x00600000::nat) < GIB"
    by (simp_all add: GIB_def)
  have "view ?p1 3 1 = (identity_page 3 1)\<lparr>pv_user := True\<rparr>"
    using e(6) [of 3 1] i(6) [of 3 1] by (simp add: TWO_MIB_def attr_view_def identity_page_def)
  then have "hw_walk ?p1 0x00601000 = Some (0x00601000, True, False)"
    using hw_walk_view [OF e(1) n(1)]
    by (simp add: identity_page_def TWO_MIB_def FOUR_KIB_def)
  moreover have "huge ?p1 (0x00600000 div TWO_MIB)" "SPLIT_NEXT ?p1 < MAX_SPLIT_PTS"
    using i(3,5) e(3,5) by (simp_all add: TWO_MIB_def MAX_SPLIT_PTS_def)
  ultimately show ?thesis
    using set_page_us_resets_region [OF e(1) n(2,1)] by (simp add: FOUR_KIB_def TWO_MIB_def)
qed

end
