(* ===== verification/Uaccess.thy ===== *)
theory Uaccess
  imports Paging_Isolation
begin

text \<open>
  The guarded kernel-to-user memory path (\<open>src/src/uaccess.rs\<close>).  A machine is the page tables
  together with the byte memory; every function validates the user range against the page tables
  before it touches memory.  The \<open>stac\<close>/\<open>clac\<close> bracket has no effect on the values modelled
  here.  The memory is indexed by virtual address; all mappings are the identity except the scratch
  frames behind the low pages, whose sharing of one frame by two addresses is not visible here.  The relation \<open>user_only\<close> says that a step changed no byte outside user memory; it is
  reflexive and transitive, and the handlers of the other theories are composed from steps that
  satisfy it.
\<close>

section \<open>Guarded accesses\<close>

record machine =
  pg :: paging
  ram :: memory

definition EFAULT :: int where "EFAULT = -14"

definition with_user_access ::
  "machine \<Rightarrow> nat \<Rightarrow> nat \<Rightarrow> (memory \<Rightarrow> 'r \<times> memory) \<Rightarrow> (int + 'r) \<times> machine" where
  "with_user_access m ptr len f =
     (if \<not> user_accessible (pg m) ptr len then (Inl EFAULT, m)
      else case f (ram m) of (r, ram') \<Rightarrow> (Inr r, m\<lparr>ram := ram'\<rparr>))"

definition copy_from_user :: "machine \<Rightarrow> nat \<Rightarrow> nat \<Rightarrow> int + bytes" where
  "copy_from_user m len src =
     (if \<not> user_accessible (pg m) src len then Inl EFAULT else Inr (mem_read (ram m) src len))"

definition read_user_u32 :: "machine \<Rightarrow> nat \<Rightarrow> int + nat" where
  "read_user_u32 m addr =
     (if \<not> user_accessible (pg m) addr 4 then Inl EFAULT else Inr (le_nat (mem_read (ram m) addr 4)))"

definition write_user_u32 :: "machine \<Rightarrow> nat \<Rightarrow> nat \<Rightarrow> int + machine" where
  "write_user_u32 m addr val =
     (if \<not> user_accessible (pg m) addr 4 then Inl EFAULT
      else Inr (m\<lparr>ram := mem_write (ram m) addr (le_bytes 4 val)\<rparr>))"

text \<open>The loop of \<open>copy_user_cstr\<close>; the first argument is \<open>dst.len() - n\<close>.\<close>

primrec copy_user_cstr :: "machine \<Rightarrow> nat \<Rightarrow> nat \<Rightarrow> int + bytes" where
  "copy_user_cstr m 0 p = Inr []"
| "copy_user_cstr m (Suc k) p =
     (if \<not> user_accessible (pg m) p 1 then Inl EFAULT
      else if ram m p = 0 then Inr []
      else case copy_user_cstr m k (p + 1) of Inl e \<Rightarrow> Inl e | Inr bs \<Rightarrow> Inr (ram m p # bs))"

definition copy_to_user :: "machine \<Rightarrow> nat \<Rightarrow> bytes \<Rightarrow> int + machine" where
  "copy_to_user m dst src =
     (if \<not> user_accessible (pg m) dst (length src) then Inl EFAULT
      else Inr (m\<lparr>ram := mem_write (ram m) dst src\<rparr>))"

section \<open>Stores outside the guarded path\<close>

text \<open>
  A store by kernel code through a plain pointer, with \<open>CR4.SMAP\<close> set and the access window closed:
  it succeeds on pages mapped for the supervisor only (every entry the kernel makes is writable) and
  faults on a page that is not mapped or that user mode can access.  A page fault of the kernel
  stops the machine (\<open>page_fault_handler\<close>); the result is then \<open>None\<close>.
\<close>

definition supervisor_page :: "paging \<Rightarrow> nat \<Rightarrow> bool" where
  "supervisor_page p a = (case hw_walk p a of Some (pa, us, nx) \<Rightarrow> \<not> us | None \<Rightarrow> False)"

definition kernel_store :: "machine \<Rightarrow> nat \<Rightarrow> bytes \<Rightarrow> machine option" where
  "kernel_store m dst bs =
     (if list_all (\<lambda>i. supervisor_page (pg m) (dst + i)) [0..<length bs]
      then Some (m\<lparr>ram := mem_write (ram m) dst bs\<rparr>) else None)"

lemma supervisor_not_user: "supervisor_page p a \<Longrightarrow> \<not> hw_user p a"
  by (auto simp: supervisor_page_def hw_user_def split: option.splits)

lemma kernel_store_user:
  assumes "user_accessible (pg m) dst (length bs)" "bs \<noteq> []"
  shows "kernel_store m dst bs = None"
proof -
  have "hw_user (pg m) (dst + 0)"
    using assms by (cases bs) (auto simp: user_accessible_iff)
  then have "\<not> supervisor_page (pg m) (dst + 0)"
    using supervisor_not_user by blast
  moreover have "0 \<in> set [0..<length bs]" using assms(2) by simp
  ultimately show ?thesis
    unfolding kernel_store_def list_all_iff by (metis (no_types))
qed

section \<open>Steps that change user memory only\<close>

definition user_only :: "machine \<Rightarrow> machine \<Rightarrow> bool" where
  "user_only m m' \<longleftrightarrow> pg m' = pg m \<and> (\<forall>a. ram m' a \<noteq> ram m a \<longrightarrow> hw_user (pg m) a)"

lemma user_only_refl [simp, intro]: "user_only m m"
  by (simp add: user_only_def)

lemma user_only_trans [trans]: "user_only m m' \<Longrightarrow> user_only m' m'' \<Longrightarrow> user_only m m''"
  unfolding user_only_def by metis

lemma user_accessible_byte:
  "user_accessible p a n \<Longrightarrow> a \<le> x \<Longrightarrow> x < a + n \<Longrightarrow> hw_user p x"
  by (cases "n = 0") (auto simp: user_accessible_iff)

lemma user_only_write:
  "user_accessible (pg m) a (length bs) \<Longrightarrow> user_only m (m\<lparr>ram := mem_write (ram m) a bs\<rparr>)"
  by (auto simp: user_only_def mem_write_def intro: user_accessible_byte split: if_splits)

lemma copy_to_user_only [intro]: "copy_to_user m dst src = Inr m' \<Longrightarrow> user_only m m'"
  by (auto simp: copy_to_user_def user_only_write split: if_splits)

lemma write_user_u32_only [intro]: "write_user_u32 m addr val = Inr m' \<Longrightarrow> user_only m m'"
  by (auto simp: write_user_u32_def user_only_write split: if_splits)

lemma copy_to_user_Inr:
  "copy_to_user m dst src = Inr m' \<longleftrightarrow>
     user_accessible (pg m) dst (length src) \<and> m' = m\<lparr>ram := mem_write (ram m) dst src\<rparr>"
  by (auto simp: copy_to_user_def)

lemma copy_to_user_Inl:
  "copy_to_user m dst src = Inl e \<longleftrightarrow> \<not> user_accessible (pg m) dst (length src) \<and> e = EFAULT"
  by (auto simp: copy_to_user_def)

lemma copy_from_user_Inr:
  "copy_from_user m len src = Inr bs \<longleftrightarrow>
     user_accessible (pg m) src len \<and> bs = mem_read (ram m) src len"
  by (auto simp: copy_from_user_def)

lemma copy_from_user_Inl:
  "copy_from_user m len src = Inl e \<longleftrightarrow> \<not> user_accessible (pg m) src len \<and> e = EFAULT"
  by (auto simp: copy_from_user_def)

lemma copy_from_user_length: "copy_from_user m len src = Inr bs \<Longrightarrow> length bs = len"
  by (simp add: copy_from_user_Inr)

text \<open>
  Specification of the string copy: the bytes before the first NUL, at most \<open>cap\<close> of them, and a
  fault exactly when a byte that has to be looked at is not user memory.
\<close>

lemma copy_user_cstr_spec:
  "copy_user_cstr m cap p =
     (let bs = takeWhile (\<lambda>b. b \<noteq> 0) (mem_read (ram m) p cap);
          looked_at = (if length bs < cap then length bs + 1 else cap)
      in if user_accessible (pg m) p looked_at then Inr bs else Inl EFAULT)"
proof (induction cap arbitrary: p)
  case 0
  then show ?case by (simp add: mem_read_def user_accessible_def)
next
  case (Suc k)
  have r: "mem_read (ram m) p (Suc k) = ram m p # mem_read (ram m) (p + 1) k"
  proof -
    have "[0..<Suc k] = 0 # map Suc [0..<k]"
      by (simp add: upt_conv_Cons map_Suc_upt)
    then show ?thesis
      by (simp add: mem_read_def comp_def del: upt_Suc)
  qed
  let ?bs = "takeWhile (\<lambda>b. b \<noteq> 0) (mem_read (ram m) (p + 1) k)"
  have ap: "user_accessible (pg m) p (1 + n) \<longleftrightarrow> user_accessible (pg m) p 1 \<and> user_accessible (pg m) (p + 1) n" for n
    by (rule uacc.acc_append)
  show ?case
  proof (cases "ram m p = 0")
    case True
    then show ?thesis
      by (simp add: r Let_def)
  next
    case False
    then show ?thesis
      using Suc [of "p + 1"] ap [of "length ?bs + 1"] ap [of k] by (simp add: r Let_def split: sum.splits)
  qed
qed

section \<open>The memory of the user program\<close>

lemma beam_accessible:
  assumes "layout_ok l" "kernel_paging l p" "0x1A000000 \<le> a" "a + n \<le> 0xC0000000"
  shows "user_accessible p a n"
proof -
  have "hw_user p b" if "a \<le> b" "b < a + n" for b
    using reachable_walk [OF assms(1,2), of b] that assms(3,4)
    by (simp add: GIB_def hw_user_def beam_range_def KSTACK_ARENA_BASE_def KSTACK_ARENA_SIZE_def TWO_MIB_def)
  then show ?thesis
    using assms(4) by (auto simp: user_accessible_iff GIB_def)
qed

section \<open>A concrete machine\<close>

text \<open>The page tables of \<open>init\<close> for a concrete layout, used to instantiate the properties.\<close>

abbreviation example_paging :: paging where
  "example_paging \<equiv> paging_init (paging_static example_layout)"

lemma example_user_accessible:
  "0x1B000000 \<le> a \<Longrightarrow> a + n \<le> 0x1C000000 \<Longrightarrow> user_accessible (paging_init (paging_static example_layout)) a n"
  by (rule beam_accessible [OF example_layout_ok kernel_paging.boot]) simp_all

section \<open>Properties\<close>

text \<open>
  C8: copying out to user memory and reading back.  A copy either is refused with \<open>EFAULT\<close>
  because the target leaves the 4 GiB map or some byte of it is not user memory, or succeeds, changes no byte outside the
  target range, all of which is user memory, and a copy in from the same range then returns
  exactly the bytes written.
\<close>

theorem copy_to_user_correct:
  "(case copy_to_user m dst src of
      Inl e \<Rightarrow> e = EFAULT \<and> (4 * GIB < dst + length src \<or>
                (\<exists>x. dst \<le> x \<and> x < dst + length src \<and> \<not> hw_user (pg m) x))
    | Inr m' \<Rightarrow> user_only m m' \<and> (\<forall>x. x < dst \<or> dst + length src \<le> x \<longrightarrow> ram m' x = ram m x) \<and>
                copy_from_user m' (length src) dst = Inr src)"
proof (cases "user_accessible (pg m) dst (length src)")
  case True
  then show ?thesis
    using user_only_write [OF True] by (simp add: copy_to_user_def copy_from_user_def)
next
  case False
  then have "length src \<noteq> 0 \<and> (4 * GIB < dst + length src \<or> (\<exists>x. dst \<le> x \<and> x < dst + length src \<and> \<not> hw_user (pg m) x))"
    by (auto simp: user_accessible_iff)
  with False show ?thesis
    by (auto simp: copy_to_user_def)
qed

theorem copy_to_user_correct_witness:
  "let m = \<lparr>pg = paging_init (paging_static example_layout), ram = (\<lambda>_. 0)\<rparr>
   in copy_to_user m 0x0F400000 [1, 2] = Inl EFAULT \<and>
      (\<exists>m'. copy_to_user m 0x1B000000 [1, 2] = Inr m' \<and> copy_from_user m' 2 0x1B000000 = Inr [1, 2])"
proof -
  let ?m = "\<lparr>pg = paging_init (paging_static example_layout), ram = (\<lambda>_. 0)\<rparr> :: machine"
  note e = paging_init_view [OF example_layout_ok]
  have w: "hw_user (pg ?m) a = beam_range a" if "a < GIB" for a
    using hw_walk_view [OF e(1) that] init_view_of [OF that] region_index(3) [OF that]
    by (simp add: e(5) hw_user_def)
  have acc: "user_accessible (pg ?m) 0x1B000000 2"
    unfolding user_accessible_iff using w by (auto simp: GIB_def beam_range_def)
  have "\<not> hw_user (pg ?m) 0x0F400000"
    using w [of "0x0F400000"] by (simp add: GIB_def beam_range_def)
  then have na: "\<not> user_accessible (pg ?m) 0x0F400000 2"
    unfolding user_accessible_iff by auto
  show ?thesis
    using copy_to_user_correct [where m = ?m and dst = "0x1B000000" and src = "[1, 2]"] acc na
    by (auto simp: copy_to_user_def numeral_2_eq_2)
qed

end
