(* ===== verification/Pipe.thy ===== *)
theory Pipe
  imports Uaccess
begin

text \<open>
  Pipes (\<open>src/src/pipe.rs\<close>): sixteen ring buffers of 4096 bytes, one slot always kept empty, so
  a pipe holds at most 4095 bytes.  A ring is lifted to the list of bytes it holds, and its fill
  and drain loops are shown to satisfy the contract \<open>bounded_fifo\<close> of a bounded queue, from which
  the stream property (nothing lost, duplicated or reordered) follows for every interleaving.
\<close>

section \<open>State\<close>

definition PIPE_BUF_SIZE :: nat where "PIPE_BUF_SIZE = 4096"
definition MAX_PIPES :: nat where "MAX_PIPES = 16"

text \<open>The buffer array is a function of the index; only indices below \<open>PIPE_BUF_SIZE\<close> are used.\<close>

record pipe =
  p_buf :: "nat \<Rightarrow> u8"
  p_head :: nat
  p_tail :: nat
  p_read_fd :: int
  p_write_fd :: int
  p_nonblock :: bool

definition pipe_empty :: pipe where
  "pipe_empty = \<lparr>p_buf = (\<lambda>_. 0), p_head = 0, p_tail = 0, p_read_fd = -1, p_write_fd = -1, p_nonblock = False\<rparr>"

definition pipe_is_empty :: "pipe \<Rightarrow> bool" where
  "pipe_is_empty p \<longleftrightarrow> p_head p = p_tail p"

record pipes =
  NEXT_PIPE_FD :: nat
  PIPES :: "pipe list"

definition pipes_init :: pipes where
  "pipes_init = \<lparr>NEXT_PIPE_FD = 200, PIPES = replicate MAX_PIPES pipe_empty\<rparr>"

section \<open>Operations\<close>

definition pipe_create :: "pipes \<Rightarrow> pipes \<times> int \<times> int" where
  "pipe_create s =
     (let rfd = i32_of (int (NEXT_PIPE_FD s));
          wfd = i32_of (int (NEXT_PIPE_FD s + 1));
          s1 = s\<lparr>NEXT_PIPE_FD := NEXT_PIPE_FD s + 2\<rparr>
      in case position (\<lambda>p. p_read_fd p = -1) (PIPES s1) of
           Some i \<Rightarrow> (s1\<lparr>PIPES := (PIPES s1)[i := pipe_empty\<lparr>p_read_fd := rfd, p_write_fd := wfd\<rparr>]\<rparr>, rfd, wfd)
         | None \<Rightarrow> (s1, rfd, wfd))"

text \<open>The body of the write closure: store bytes until the ring is full.\<close>

fun pipe_fill :: "pipe \<Rightarrow> bytes \<Rightarrow> pipe \<times> nat" where
  "pipe_fill p [] = (p, 0)"
| "pipe_fill p (byte # rest) =
     (let next_tail = (p_tail p + 1) mod PIPE_BUF_SIZE in
      if next_tail = p_head p then (p, 0)
      else case pipe_fill (p\<lparr>p_buf := (p_buf p)(p_tail p := byte), p_tail := next_tail\<rparr>) rest of
             (p', written) \<Rightarrow> (p', written + 1))"

definition pipe_write :: "machine \<Rightarrow> pipes \<Rightarrow> int \<Rightarrow> nat \<Rightarrow> nat \<Rightarrow> pipes \<times> int" where
  "pipe_write m s fd data count =
     (case position (\<lambda>p. p_write_fd p = fd) (PIPES s) of
        None \<Rightarrow> (s, -9)
      | Some i \<Rightarrow>
          (case with_user_access m data count
                  (\<lambda>r. (pipe_fill (PIPES s ! i) (mem_read r data count), r)) of
             (Inl _, _) \<Rightarrow> (s, -14)
           | (Inr (p', written), _) \<Rightarrow> (s\<lparr>PIPES := (PIPES s)[i := p']\<rparr>, int written)))"

text \<open>The body of the read closure: the ring after the loop and the bytes stored from \<open>buf\<close> on.\<close>

primrec pipe_drain :: "pipe \<Rightarrow> nat \<Rightarrow> pipe \<times> bytes" where
  "pipe_drain p 0 = (p, [])"
| "pipe_drain p (Suc n) =
     (if p_head p = p_tail p then (p, [])
      else case pipe_drain (p\<lparr>p_head := (p_head p + 1) mod PIPE_BUF_SIZE\<rparr>) n of
             (p', bs) \<Rightarrow> (p', p_buf p (p_head p) # bs))"

text \<open>
  The result carries whether the caller yields the processor before returning, which the code
  does on an empty blocking pipe after it has dropped the lock.
\<close>

definition pipe_read :: "machine \<Rightarrow> pipes \<Rightarrow> int \<Rightarrow> nat \<Rightarrow> nat \<Rightarrow> machine \<times> pipes \<times> int \<times> bool" where
  "pipe_read m s fd dst count =
     (case position (\<lambda>p. p_read_fd p = fd) (PIPES s) of
        None \<Rightarrow> (m, s, -9, False)
      | Some i \<Rightarrow>
          (let p = PIPES s ! i in
           if \<not> pipe_is_empty p then
             (case with_user_access m dst count
                     (\<lambda>r. case pipe_drain p count of (p', bs) \<Rightarrow> ((p', length bs), mem_write r dst bs)) of
                (Inl _, _) \<Rightarrow> (m, s, -14, False)
              | (Inr (p', nread), m') \<Rightarrow> (m', s\<lparr>PIPES := (PIPES s)[i := p']\<rparr>, int nread, False))
           else if p_write_fd p = -1 then (m, s, 0, False)
           else if p_nonblock p then (m, s, -11, False)
           else (m, s, -4, True)))"

definition pipe_set_nonblock :: "pipes \<Rightarrow> int \<Rightarrow> bool \<Rightarrow> pipes" where
  "pipe_set_nonblock s fd nb =
     (case position (\<lambda>p. p_read_fd p = fd \<or> p_write_fd p = fd) (PIPES s) of
        Some i \<Rightarrow> s\<lparr>PIPES := (PIPES s)[i := (PIPES s ! i)\<lparr>p_nonblock := nb\<rparr>]\<rparr>
      | None \<Rightarrow> s)"

definition is_pipe_fd :: "pipes \<Rightarrow> int \<Rightarrow> bool" where
  "is_pipe_fd s fd \<longleftrightarrow> list_ex (\<lambda>p. p_read_fd p = fd \<or> p_write_fd p = fd) (PIPES s)"

definition pipe_any_has_data :: "pipes \<Rightarrow> bool" where
  "pipe_any_has_data s \<longleftrightarrow> list_ex (\<lambda>p. p_read_fd p \<noteq> -1 \<and> \<not> pipe_is_empty p) (PIPES s)"

definition pipe_has_data :: "pipes \<Rightarrow> int \<Rightarrow> bool" where
  "pipe_has_data s fd \<longleftrightarrow> list_ex (\<lambda>p. p_read_fd p = fd \<and> \<not> pipe_is_empty p) (PIPES s)"

definition pipe_close :: "pipes \<Rightarrow> int \<Rightarrow> pipes" where
  "pipe_close s fd =
     s\<lparr>PIPES := map (\<lambda>p. if p_read_fd p = fd
                        then let p' = p\<lparr>p_read_fd := -1\<rparr> in if p_write_fd p' = -1 then pipe_empty else p'
                        else p) (PIPES s)\<rparr>"

section \<open>Contract of a bounded queue\<close>

datatype 'a fifo_op = Push "'a list" | Pull nat

text \<open>A run of operations: final queue, items accepted and items delivered, in order.\<close>

fun fifo_run :: "('q \<Rightarrow> 'a list \<Rightarrow> 'q \<times> nat) \<Rightarrow> ('q \<Rightarrow> nat \<Rightarrow> 'q \<times> 'a list) \<Rightarrow> 'q \<Rightarrow> 'a fifo_op list
    \<Rightarrow> 'q \<times> 'a list \<times> 'a list" where
  "fifo_run push pull q [] = (q, [], [])"
| "fifo_run push pull q (Push xs # ops) =
     (case push q xs of (q1, n) \<Rightarrow>
      case fifo_run push pull q1 ops of (q2, accepted, delivered) \<Rightarrow> (q2, take n xs @ accepted, delivered))"
| "fifo_run push pull q (Pull k # ops) =
     (case pull q k of (q1, ys) \<Rightarrow>
      case fifo_run push pull q1 ops of (q2, accepted, delivered) \<Rightarrow> (q2, accepted, ys @ delivered))"

locale bounded_fifo =
  fixes invar :: "'q \<Rightarrow> bool"
    and contents :: "'q \<Rightarrow> 'a list"
    and cap :: nat
    and push :: "'q \<Rightarrow> 'a list \<Rightarrow> 'q \<times> nat"
    and pull :: "'q \<Rightarrow> nat \<Rightarrow> 'q \<times> 'a list"
  assumes contents_cap: "invar q \<Longrightarrow> length (contents q) \<le> cap"
    and push_invar: "invar q \<Longrightarrow> invar (fst (push q xs))"
    and push_count: "invar q \<Longrightarrow> snd (push q xs) = min (length xs) (cap - length (contents q))"
    and push_contents: "invar q \<Longrightarrow> contents (fst (push q xs)) = contents q @ take (cap - length (contents q)) xs"
    and pull_invar: "invar q \<Longrightarrow> invar (fst (pull q n))"
    and pull_items: "invar q \<Longrightarrow> snd (pull q n) = take n (contents q)"
    and pull_contents: "invar q \<Longrightarrow> contents (fst (pull q n)) = drop n (contents q)"
begin

lemma run_stream:
  "invar q \<Longrightarrow> fifo_run push pull q ops = (q', accepted, delivered) \<Longrightarrow>
   invar q' \<and> contents q @ accepted = delivered @ contents q'"
proof (induction ops arbitrary: q q' accepted delivered)
  case Nil
  then show ?case by simp
next
  case (Cons op ops)
  show ?case
  proof (cases op)
    case (Push xs)
    obtain q1 n where p: "push q xs = (q1, n)"
      by fastforce
    obtain q2 a d where r: "fifo_run push pull q1 ops = (q2, a, d)"
      using prod_cases3 by blast
    have q1: "invar q1" "contents q1 = contents q @ take n xs"
      using push_invar [OF Cons.prems(1), of xs] push_contents [OF Cons.prems(1), of xs]
        push_count [OF Cons.prems(1), of xs] p by (simp_all add: min_def)
    show ?thesis
      using Cons.IH [OF q1(1) r] Cons.prems(2) Push p r q1(2) by auto
  next
    case (Pull k)
    obtain q1 ys where p: "pull q k = (q1, ys)"
      by fastforce
    obtain q2 a d where r: "fifo_run push pull q1 ops = (q2, a, d)"
      using prod_cases3 by blast
    have q1: "invar q1" "contents q = ys @ contents q1"
      using pull_invar [OF Cons.prems(1), of k] pull_contents [OF Cons.prems(1), of k]
        pull_items [OF Cons.prems(1), of k] p by auto
    show ?thesis
      using Cons.IH [OF q1(1) r] Cons.prems(2) Pull p r q1(2) by auto
  qed
qed

lemma push_pull_all:
  assumes "invar q" "contents q = []" "length xs \<le> cap"
  shows "snd (push q xs) = length xs" "snd (pull (fst (push q xs)) (length xs)) = xs"
  using assms by (simp_all add: push_count pull_items push_invar push_contents)

end

section \<open>The ring as a list\<close>

definition ring_len :: "pipe \<Rightarrow> nat" where
  "ring_len p = (p_tail p + PIPE_BUF_SIZE - p_head p) mod PIPE_BUF_SIZE"

definition ring :: "pipe \<Rightarrow> bytes" where
  "ring p = map (\<lambda>k. p_buf p ((p_head p + k) mod PIPE_BUF_SIZE)) [0..<ring_len p]"

definition ring_ok :: "pipe \<Rightarrow> bool" where
  "ring_ok p \<longleftrightarrow> p_head p < PIPE_BUF_SIZE \<and> p_tail p < PIPE_BUF_SIZE"

lemma N_pos: "1 < PIPE_BUF_SIZE"
  by (simp add: PIPE_BUF_SIZE_def)

lemma mod_wrap: "a < N \<Longrightarrow> b < N \<Longrightarrow> (a + b) mod N = (if a + b < N then a + b else a + b - N)" for a b N :: nat
  by (simp add: mod_if)

lemma mod_succ: "a < N \<Longrightarrow> (a + 1) mod N = (if a + 1 = N then 0 else a + 1)" for a N :: nat
  by (simp add: mod_if)

lemma ring_len_cases:
  "ring_ok p \<Longrightarrow> ring_len p =
     (if p_head p \<le> p_tail p then p_tail p - p_head p else p_tail p + PIPE_BUF_SIZE - p_head p)"
  by (auto simp: ring_len_def ring_ok_def mod_if)

lemma ring_len_less: "ring_ok p \<Longrightarrow> ring_len p < PIPE_BUF_SIZE"
  using N_pos by (simp add: ring_len_def)

lemma length_ring [simp]: "length (ring p) = ring_len p"
  by (simp add: ring_def)

lemma ring_empty_iff: "ring_ok p \<Longrightarrow> p_head p = p_tail p \<longleftrightarrow> ring p = []"
  using ring_len_cases [of p] by (auto simp: ring_def ring_ok_def split: if_splits)

lemma ring_full_iff:
  "ring_ok p \<Longrightarrow> (p_tail p + 1) mod PIPE_BUF_SIZE = p_head p \<longleftrightarrow> ring_len p = PIPE_BUF_SIZE - 1"
  using ring_len_cases [of p] N_pos mod_succ [of "p_tail p" PIPE_BUF_SIZE]
  by (auto simp: ring_ok_def split: if_splits)

lemma ring_push:
  fixes b :: u8
  assumes ok: "ring_ok p" and nf: "(p_tail p + 1) mod PIPE_BUF_SIZE \<noteq> p_head p"
  defines "p' \<equiv> p\<lparr>p_buf := (p_buf p)(p_tail p := b), p_tail := (p_tail p + 1) mod PIPE_BUF_SIZE\<rparr>"
  shows "ring_ok p'" "ring p' = ring p @ [b]"
proof -
  let ?N = PIPE_BUF_SIZE and ?h = "p_head p" and ?t = "p_tail p"
  have ht: "?h < ?N" "?t < ?N"
    using ok by (simp_all add: ring_ok_def)
  show ok': "ring_ok p'"
    using ht N_pos by (simp add: ring_ok_def p'_def)
  have len: "ring_len p' = Suc (ring_len p)"
    using ring_len_cases [OF ok] ring_len_cases [OF ok'] nf mod_succ [OF ht(2)] ht
    by (auto simp: p'_def split: if_splits)
  have old: "(?h + k) mod ?N \<noteq> ?t" if "k < ring_len p" for k
    using that ring_len_cases [OF ok] ring_len_less [OF ok] ht mod_wrap [of ?h ?N k]
    by (auto split: if_splits)
  have new: "(?h + ring_len p) mod ?N = ?t"
    using ring_len_cases [OF ok] ring_len_less [OF ok] ht mod_wrap [of ?h ?N "ring_len p"]
    by (auto split: if_splits)
  show "ring p' = ring p @ [b]"
    unfolding ring_def len using old new by (simp add: p'_def)
qed

lemma ring_pop:
  assumes ok: "ring_ok p" and ne: "p_head p \<noteq> p_tail p"
  defines "p' \<equiv> p\<lparr>p_head := (p_head p + 1) mod PIPE_BUF_SIZE\<rparr>"
  shows "ring_ok p'" "ring p = p_buf p (p_head p) # ring p'"
proof -
  let ?N = PIPE_BUF_SIZE and ?h = "p_head p" and ?t = "p_tail p"
  have ht: "?h < ?N" "?t < ?N"
    using ok by (simp_all add: ring_ok_def)
  show ok': "ring_ok p'"
    using ht N_pos by (simp add: ring_ok_def p'_def)
  have len: "ring_len p = Suc (ring_len p')"
    using ring_len_cases [OF ok] ring_len_cases [OF ok'] ne mod_succ [OF ht(1)] ht
    by (auto simp: p'_def split: if_splits)
  have shift: "((?h + 1) mod ?N + k) mod ?N = (?h + Suc k) mod ?N" for k
    by (simp add: mod_add_left_eq)
  have "[0..<Suc (ring_len p')] = 0 # map Suc [0..<ring_len p']"
    by (simp add: upt_conv_Cons map_Suc_upt)
  then show "ring p = p_buf p ?h # ring p'"
    using ht shift by (simp add: ring_def len p'_def comp_def del: upt_Suc)
qed

lemma pipe_fill_ring:
  "ring_ok p \<Longrightarrow> ring_ok (fst (pipe_fill p bs)) \<and>
     snd (pipe_fill p bs) = min (length bs) (PIPE_BUF_SIZE - 1 - length (ring p)) \<and>
     ring (fst (pipe_fill p bs)) = ring p @ take (PIPE_BUF_SIZE - 1 - length (ring p)) bs"
proof (induction p bs rule: pipe_fill.induct)
  case (1 p)
  then show ?case by simp
next
  case (2 p b rest)
  show ?case
  proof (cases "(p_tail p + 1) mod PIPE_BUF_SIZE = p_head p")
    case True
    then show ?thesis
      using 2(2) ring_full_iff [OF 2(2)] by simp
  next
    case False
    let ?p1 = "p\<lparr>p_buf := (p_buf p)(p_tail p := b), p_tail := (p_tail p + 1) mod PIPE_BUF_SIZE\<rparr>"
    note push = ring_push [OF 2(2) False, of b]
    have room: "ring_len p < PIPE_BUF_SIZE - 1"
      using ring_len_less [OF 2(2)] ring_full_iff [OF 2(2)] False by simp
    have "length (ring ?p1) = Suc (ring_len p)"
      by (simp only: push(2)) simp
    then have room': "PIPE_BUF_SIZE - 1 - ring_len p = Suc (PIPE_BUF_SIZE - 1 - length (ring ?p1))"
      using room by linarith
    show ?thesis
      using 2(1) [OF refl False push(1)] False room' push(2)
      by (simp add: case_prod_beta del: length_ring) simp
  qed
qed

lemma pipe_drain_ring:
  "ring_ok p \<Longrightarrow> ring_ok (fst (pipe_drain p n)) \<and>
     snd (pipe_drain p n) = take n (ring p) \<and> ring (fst (pipe_drain p n)) = drop n (ring p)"
proof (induction n arbitrary: p)
  case 0
  then show ?case by simp
next
  case (Suc n)
  show ?case
  proof (cases "p_head p = p_tail p")
    case True
    then show ?thesis
      using Suc.prems ring_empty_iff [OF Suc.prems] by simp
  next
    case False
    note pop = ring_pop [OF Suc.prems False]
    show ?thesis
      using Suc.IH [OF pop(1)] False pop(2) by (simp add: case_prod_beta)
  qed
qed

interpretation pipe_fifo: bounded_fifo ring_ok ring "PIPE_BUF_SIZE - 1" pipe_fill pipe_drain
proof
  show "length (ring q) \<le> PIPE_BUF_SIZE - 1" if "ring_ok q" for q
    using ring_len_less [OF that] by simp
qed (use pipe_fill_ring pipe_drain_ring in blast)+

section \<open>Invariant of the pipe table\<close>

text \<open>
  Every ring is well formed; descriptors in use have been handed out by the counter; no two slots
  share an open descriptor; and a slot whose read end is open has its write end open.
\<close>

definition fd_slot_ok :: "nat \<Rightarrow> int \<Rightarrow> bool" where
  "fd_slot_ok n fd \<longleftrightarrow> fd = -1 \<or> 200 \<le> fd \<and> fd < int n"

definition pipe_ok :: "nat \<Rightarrow> pipe \<Rightarrow> bool" where
  "pipe_ok n p \<longleftrightarrow> ring_ok p \<and> fd_slot_ok n (p_read_fd p) \<and> fd_slot_ok n (p_write_fd p) \<and>
     (p_read_fd p \<noteq> -1 \<longrightarrow> p_write_fd p = p_read_fd p + 1)"

definition unique_fds :: "pipe list \<Rightarrow> bool" where
  "unique_fds ps \<longleftrightarrow> (\<forall>i<length ps. \<forall>j<length ps. i \<noteq> j \<longrightarrow>
     (p_read_fd (ps ! i) \<noteq> -1 \<longrightarrow> p_read_fd (ps ! i) \<noteq> p_read_fd (ps ! j)) \<and>
     (p_write_fd (ps ! i) \<noteq> -1 \<longrightarrow> p_write_fd (ps ! i) \<noteq> p_write_fd (ps ! j)))"

definition pipes_ok :: "pipes \<Rightarrow> bool" where
  "pipes_ok s \<longleftrightarrow> length (PIPES s) = MAX_PIPES \<and> 200 \<le> NEXT_PIPE_FD s \<and>
     (\<forall>i<length (PIPES s). pipe_ok (NEXT_PIPE_FD s) (PIPES s ! i)) \<and> unique_fds (PIPES s)"

lemma pipes_okD:
  assumes "pipes_ok s"
  shows "length (PIPES s) = MAX_PIPES" "200 \<le> NEXT_PIPE_FD s"
    "i < length (PIPES s) \<Longrightarrow> pipe_ok (NEXT_PIPE_FD s) (PIPES s ! i)" "unique_fds (PIPES s)"
  using assms by (simp_all add: pipes_ok_def)

lemma unique_readD:
  "\<lbrakk>unique_fds ps; i < length ps; j < length ps; p_read_fd (ps ! i) = p_read_fd (ps ! j);
    p_read_fd (ps ! i) \<noteq> -1\<rbrakk> \<Longrightarrow> i = j"
  unfolding unique_fds_def by metis

lemma unique_writeD:
  "\<lbrakk>unique_fds ps; i < length ps; j < length ps; p_write_fd (ps ! i) = p_write_fd (ps ! j);
    p_write_fd (ps ! i) \<noteq> -1\<rbrakk> \<Longrightarrow> i = j"
  unfolding unique_fds_def by metis

lemma position_unique:
  assumes "unique_fds ps" "i < length ps" "fd \<noteq> -1"
  shows "p_write_fd (ps ! i) = fd \<Longrightarrow> position (\<lambda>p. p_write_fd p = fd) ps = Some i"
    and "p_read_fd (ps ! i) = fd \<Longrightarrow> position (\<lambda>p. p_read_fd p = fd) ps = Some i"
proof -
  have "p_write_fd (ps ! j) \<noteq> fd" if "p_write_fd (ps ! i) = fd" "j < i" for j
    using unique_writeD [OF assms(1) _ assms(2), of j] that assms(2,3) by auto
  then show "p_write_fd (ps ! i) = fd \<Longrightarrow> position (\<lambda>p. p_write_fd p = fd) ps = Some i"
    using assms(2) by (intro position_SomeI) blast+
  have "p_read_fd (ps ! j) \<noteq> fd" if "p_read_fd (ps ! i) = fd" "j < i" for j
    using unique_readD [OF assms(1) _ assms(2), of j] that assms(2,3) by auto
  then show "p_read_fd (ps ! i) = fd \<Longrightarrow> position (\<lambda>p. p_read_fd p = fd) ps = Some i"
    using assms(2) by (intro position_SomeI) blast+
qed

text \<open>Replacing the ring of a slot and keeping its descriptors keeps the invariant.\<close>

lemma pipes_ok_upd:
  assumes ok: "pipes_ok s" and i: "i < length (PIPES s)" and r: "ring_ok p"
    and fds: "p_read_fd p = p_read_fd (PIPES s ! i)" "p_write_fd p = p_write_fd (PIPES s ! i)"
  shows "pipes_ok (s\<lparr>PIPES := (PIPES s)[i := p]\<rparr>)"
proof -
  have sel: "p_read_fd ((PIPES s)[i := p] ! j) = p_read_fd (PIPES s ! j)"
    "p_write_fd ((PIPES s)[i := p] ! j) = p_write_fd (PIPES s ! j)" for j
    using fds i by (cases "i = j"; simp)+
  have "unique_fds ((PIPES s)[i := p])"
    using pipes_okD(4) [OF ok] unfolding unique_fds_def by (simp add: sel)
  moreover have "pipe_ok (NEXT_PIPE_FD s) ((PIPES s)[i := p] ! j)" if "j < length (PIPES s)" for j
    using pipes_okD(3) [OF ok that] r fds that by (cases "i = j") (simp_all add: pipe_ok_def)
  ultimately show ?thesis
    using ok by (simp add: pipes_ok_def)
qed

lemma pipe_fill_fds [simp]:
  "p_read_fd (fst (pipe_fill p bs)) = p_read_fd p" "p_write_fd (fst (pipe_fill p bs)) = p_write_fd p"
  "p_nonblock (fst (pipe_fill p bs)) = p_nonblock p"
  by (induction p bs rule: pipe_fill.induct) (auto simp: Let_def case_prod_beta)

lemma pipe_drain_fds [simp]:
  "p_read_fd (fst (pipe_drain p n)) = p_read_fd p" "p_write_fd (fst (pipe_drain p n)) = p_write_fd p"
  "p_nonblock (fst (pipe_drain p n)) = p_nonblock p"
  by (induction n arbitrary: p) (auto simp: case_prod_beta)

text \<open>The two guarded operations on a slot that was found.\<close>

lemma pipe_write_found:
  assumes "position (\<lambda>p. p_write_fd p = fd) (PIPES s) = Some i"
  shows "pipe_write m s fd data count =
    (if user_accessible (pg m) data count
     then (s\<lparr>PIPES := (PIPES s)[i := fst (pipe_fill (PIPES s ! i) (mem_read (ram m) data count))]\<rparr>,
           int (snd (pipe_fill (PIPES s ! i) (mem_read (ram m) data count))))
     else (s, -14))"
  using assms by (simp add: pipe_write_def with_user_access_def case_prod_beta)

lemma pipe_read_found:
  assumes "position (\<lambda>p. p_read_fd p = fd) (PIPES s) = Some i" "p_head (PIPES s ! i) \<noteq> p_tail (PIPES s ! i)"
  shows "pipe_read m s fd dst count =
    (if user_accessible (pg m) dst count
     then let d = pipe_drain (PIPES s ! i) count
          in (m\<lparr>ram := mem_write (ram m) dst (snd d)\<rparr>, s\<lparr>PIPES := (PIPES s)[i := fst d]\<rparr>,
              int (length (snd d)), False)
     else (m, s, -14, False))"
  using assms by (simp add: pipe_read_def with_user_access_def case_prod_beta pipe_is_empty_def Let_def)

lemma i32_small: "int n < 2 ^ 31 \<Longrightarrow> i32_of (int n) = int n"
  by (rule i32_of_id) simp_all

lemma pipes_ok_create:
  assumes ok: "pipes_ok s" and small: "NEXT_PIPE_FD s + 1 < 2 ^ 31"
  shows "pipes_ok (fst (pipe_create s))"
proof -
  let ?n = "NEXT_PIPE_FD s"
  have fds: "i32_of (int ?n) = int ?n" "i32_of (1 + int ?n) = int ?n + 1"
    using small by simp_all
  have mono: "pipe_ok (?n + 2) p" if "pipe_ok ?n p" for p
    using that by (auto simp: pipe_ok_def fd_slot_ok_def)
  show ?thesis
  proof (cases "position (\<lambda>p. p_read_fd p = -1) (PIPES s)")
    case None
    then show ?thesis
      using ok mono by (simp add: pipe_create_def Let_def pipes_ok_def)
  next
    case (Some i)
    let ?p = "pipe_empty\<lparr>p_read_fd := int ?n, p_write_fd := int ?n + 1\<rparr>"
    have new: "pipe_ok (?n + 2) ?p"
      using pipes_okD(2) [OF ok] N_pos by (simp add: pipe_ok_def fd_slot_ok_def ring_ok_def pipe_empty_def)
    have old: "p_read_fd (PIPES s ! j) < int ?n" "p_write_fd (PIPES s ! j) < int ?n"
      if "j < length (PIPES s)" for j
      using pipes_okD(2,3) [OF ok] that by (force simp: pipe_ok_def fd_slot_ok_def)+
    have "unique_fds ((PIPES s)[i := ?p])"
      unfolding unique_fds_def
    proof (intro allI impI)
      fix j k assume jk: "j < length ((PIPES s)[i := ?p])" "k < length ((PIPES s)[i := ?p])" "j \<noteq> k"
      then show "(p_read_fd ((PIPES s)[i := ?p] ! j) \<noteq> -1 \<longrightarrow>
            p_read_fd ((PIPES s)[i := ?p] ! j) \<noteq> p_read_fd ((PIPES s)[i := ?p] ! k)) \<and>
          (p_write_fd ((PIPES s)[i := ?p] ! j) \<noteq> -1 \<longrightarrow>
            p_write_fd ((PIPES s)[i := ?p] ! j) \<noteq> p_write_fd ((PIPES s)[i := ?p] ! k))"
        using old [of j] old [of k] unique_readD [OF pipes_okD(4) [OF ok], of j k]
          unique_writeD [OF pipes_okD(4) [OF ok], of j k] position_less [OF Some]
        by (auto simp: nth_list_update split: if_splits)
    qed
    moreover have "pipe_ok (?n + 2) ((PIPES s)[i := ?p] ! j)" if "j < length (PIPES s)" for j
      using new mono [OF pipes_okD(3) [OF ok that]] that by (cases "i = j") simp_all
    ultimately show ?thesis
      using Some ok by (simp add: pipe_create_def Let_def pipes_ok_def fds)
  qed
qed

lemma pipes_ok_write: "pipes_ok s \<Longrightarrow> pipes_ok (fst (pipe_write m s fd data count))"
proof (cases "position (\<lambda>p. p_write_fd p = fd) (PIPES s)")
  case None
  assume "pipes_ok s"
  with None show ?thesis by (simp add: pipe_write_def)
next
  case (Some i)
  assume ok: "pipes_ok s"
  have i: "i < length (PIPES s)"
    using Some by (rule position_less)
  have "ring_ok (PIPES s ! i)"
    using pipes_okD(3) [OF ok i] by (simp add: pipe_ok_def)
  then have "pipes_ok (s\<lparr>PIPES := (PIPES s)[i := fst (pipe_fill (PIPES s ! i) bs)]\<rparr>)" for bs
    using i by (intro pipes_ok_upd [OF ok]) (simp_all add: pipe_fifo.push_invar)
  then show ?thesis
    using ok by (simp add: pipe_write_found [OF Some])
qed

lemma pipes_ok_read: "pipes_ok s \<Longrightarrow> pipes_ok (fst (snd (pipe_read m s fd dst count)))"
proof (cases "position (\<lambda>p. p_read_fd p = fd) (PIPES s)")
  case None
  assume "pipes_ok s"
  with None show ?thesis by (simp add: pipe_read_def)
next
  case (Some i)
  assume ok: "pipes_ok s"
  have i: "i < length (PIPES s)"
    using Some by (rule position_less)
  have "ring_ok (PIPES s ! i)"
    using pipes_okD(3) [OF ok i] by (simp add: pipe_ok_def)
  then have upd: "pipes_ok (s\<lparr>PIPES := (PIPES s)[i := fst (pipe_drain (PIPES s ! i) count)]\<rparr>)"
    using i by (intro pipes_ok_upd [OF ok]) (simp_all add: pipe_fifo.pull_invar)
  show ?thesis
  proof (cases "p_head (PIPES s ! i) = p_tail (PIPES s ! i)")
    case True
    then show ?thesis
      using Some ok by (simp add: pipe_read_def Let_def pipe_is_empty_def)
  next
    case False
    then show ?thesis
      using upd ok by (simp add: pipe_read_found [OF Some False] Let_def)
  qed
qed

lemma pipes_ok_set_nonblock: "pipes_ok s \<Longrightarrow> pipes_ok (pipe_set_nonblock s fd nb)"
proof (cases "position (\<lambda>p. p_read_fd p = fd \<or> p_write_fd p = fd) (PIPES s)")
  case (Some i)
  assume ok: "pipes_ok s"
  have i: "i < length (PIPES s)"
    using Some by (rule position_less)
  have "ring_ok ((PIPES s ! i)\<lparr>p_nonblock := nb\<rparr>)"
    using pipes_okD(3) [OF ok i] by (simp add: pipe_ok_def ring_ok_def)
  then show ?thesis
    using Some i by (simp add: pipe_set_nonblock_def pipes_ok_upd [OF ok])
qed (simp add: pipe_set_nonblock_def)

lemma pipes_ok_close: "pipes_ok s \<Longrightarrow> pipes_ok (pipe_close s fd)"
proof -
  assume ok: "pipes_ok s"
  define f where "f = (\<lambda>p. if p_read_fd p = fd
      then let p' = p\<lparr>p_read_fd := -1\<rparr> in if p_write_fd p' = -1 then pipe_empty else p' else p)"
  have sel: "p_read_fd (f p) = (if p_read_fd p = fd then -1 else p_read_fd p)"
    "p_write_fd (f p) = p_write_fd p" for p
    by (auto simp: f_def Let_def pipe_empty_def)
  have fok: "pipe_ok n (f p)" if "pipe_ok n p" for n p
    using that N_pos by (auto simp: f_def Let_def pipe_ok_def pipe_empty_def fd_slot_ok_def ring_ok_def)
  have "unique_fds (map f (PIPES s))"
    using pipes_okD(4) [OF ok] unfolding unique_fds_def by (auto simp: sel)
  then show ?thesis
    using ok fok unfolding pipe_close_def f_def [symmetric] by (simp add: pipes_ok_def)
qed

section \<open>Properties\<close>

text \<open>
  C6: a pipe is a byte stream.  In every interleaving of writes and reads of any sizes on a
  well-formed ring, what was in the pipe followed by everything the writes accepted equals
  everything the reads delivered followed by what is left: no byte is lost, duplicated or
  reordered across the wrap-around of the ring, and the pipe never holds more than 4095 bytes.
\<close>

theorem pipe_stream:
  assumes "ring_ok p" and "fifo_run pipe_fill pipe_drain p ops = (p', accepted, delivered)"
  shows "ring p @ accepted = delivered @ ring p' \<and> length (ring p') \<le> 4095 \<and> ring_ok p'"
  using pipe_fifo.run_stream [OF assms] pipe_fifo.contents_cap [of p'] by (simp add: PIPE_BUF_SIZE_def)

theorem pipe_stream_witness:
  "let p = pipe_empty\<lparr>p_head := 4095, p_tail := 4095\<rparr>
   in fst (snd (fifo_run pipe_fill pipe_drain p [Push [1, 2], Pull 1, Push [3]])) = [1, 2, 3] \<and>
      snd (snd (fifo_run pipe_fill pipe_drain p [Push [1, 2], Pull 1, Push [3]])) = [1] \<and>
      ring (fst (fifo_run pipe_fill pipe_drain p [Push [1, 2], Pull 1, Push [3]])) = [2, 3]"
proof -
  let ?p = "pipe_empty\<lparr>p_head := 4095, p_tail := 4095\<rparr>"
  have ok: "ring_ok ?p" and emp: "ring ?p = []"
    using ring_empty_iff [of ?p] by (simp_all add: ring_ok_def PIPE_BUF_SIZE_def)
  have "\<exists>p'. fifo_run pipe_fill pipe_drain ?p [Push [1, 2], Pull 1, Push [3]] = (p', [1, 2, 3], [1])"
    by (simp add: PIPE_BUF_SIZE_def Let_def)
  then obtain p' where r: "fifo_run pipe_fill pipe_drain ?p [Push [1, 2], Pull 1, Push [3]] = (p', [1, 2, 3], [1])"
    by blast
  show ?thesis
    using pipe_stream [OF ok r] r emp by simp
qed

text \<open>
  C24: every operation on the pipe table keeps its invariant: rings stay well formed, descriptors
  are unique and below the counter, and an open read end has its write end.
\<close>

theorem pipes_ok_preserved:
  assumes "pipes_ok s" and "NEXT_PIPE_FD s + 1 < 2 ^ 31"
  shows "pipes_ok (fst (pipe_create s)) \<and> pipes_ok (fst (pipe_write m s fd a n)) \<and>
    pipes_ok (fst (snd (pipe_read m s fd a n))) \<and> pipes_ok (pipe_set_nonblock s fd nb) \<and>
    pipes_ok (pipe_close s fd)"
  using assms by (simp add: pipes_ok_create pipes_ok_write pipes_ok_read pipes_ok_set_nonblock pipes_ok_close)

lemma pipes_init_ok: "pipes_ok pipes_init"
  by (simp add: pipes_ok_def pipes_init_def pipe_ok_def ring_ok_def fd_slot_ok_def pipe_empty_def
      unique_fds_def PIPE_BUF_SIZE_def)

theorem pipes_ok_preserved_witness:
  "pipes_ok (fst (pipe_create pipes_init)) \<and> pipes_ok (pipe_close pipes_init 200)"
  using pipes_ok_preserved [OF pipes_init_ok, of undefined 200 0 0 True]
  by (simp add: pipes_init_def)

text \<open>
  C23: a pipe created while a slot is free carries data end to end: bytes a user buffer writes
  into the write end come out of the read end unchanged into another user buffer, in one call
  each when they fit the ring, and both calls report the number of bytes.
\<close>

theorem pipe_round_trip:
  assumes ok: "pipes_ok s" and small: "NEXT_PIPE_FD s + 1 < 2 ^ 31"
    and free: "\<exists>p\<in>set (PIPES s). p_read_fd p = -1"
    and n: "0 < n" "n \<le> 4095"
    and acc: "user_accessible (pg m) src n" "user_accessible (pg m) dst n"
    and ops: "pipe_create s = (s1, rfd, wfd)" "pipe_write m s1 wfd src n = (s2, w)"
      "pipe_read m s2 rfd dst n = (m', s3, r, yielded)"
  shows "w = int n \<and> r = int n \<and> \<not> yielded \<and> mem_read (ram m') dst n = mem_read (ram m) src n"
proof -
  let ?n = "NEXT_PIPE_FD s"
  obtain i where i: "position (\<lambda>p. p_read_fd p = -1) (PIPES s) = Some i"
    using free by (cases "position (\<lambda>p. p_read_fd p = -1) (PIPES s)") (auto simp: position_None_iff)
  have len: "i < length (PIPES s)"
    using i by (rule position_less)
  define p where "p = pipe_empty\<lparr>p_read_fd := int ?n, p_write_fd := int ?n + 1\<rparr>"
  have fds: "rfd = int ?n" "wfd = int ?n + 1" and s1: "PIPES s1 = (PIPES s)[i := p]"
    using ops(1) small i by (auto simp: pipe_create_def Let_def p_def add.commute)
  have ok1: "pipes_ok s1"
    using pipes_ok_create [OF ok small] ops(1) by simp
  have pos: "position (\<lambda>p. p_write_fd p = wfd) (PIPES s1) = Some i"
      "position (\<lambda>p. p_read_fd p = rfd) (PIPES s1) = Some i"
    using len by (auto simp: s1 fds p_def intro!: position_unique [OF pipes_okD(4) [OF ok1, unfolded s1 p_def]])
  have p: "ring_ok p" "ring p = []" "PIPES s1 ! i = p"
    using len ring_empty_iff [of p] by (simp_all add: s1 p_def pipe_empty_def ring_ok_def PIPE_BUF_SIZE_def)
  define q where "q = pipe_fill p (mem_read (ram m) src n)"
  have q: "snd q = n" "ring (fst q) = mem_read (ram m) src n" "ring_ok (fst q)"
    using pipe_fifo.push_count [OF p(1)] pipe_fifo.push_contents [OF p(1)] pipe_fifo.push_invar [OF p(1)] p(2) n
    by (simp_all add: q_def PIPE_BUF_SIZE_def)
  have s2: "PIPES s2 = (PIPES s1)[i := fst q]" and w: "w = int n"
    using ops(2) acc(1) q(1) by (auto simp: pipe_write_found [OF pos(1)] p(3) q_def [symmetric])
  have qi: "PIPES s2 ! i = fst q"
    using len by (simp add: s2 s1)
  have "pipes_ok s2"
    using pipes_ok_write [OF ok1, of m wfd src n] ops(2) by simp
  then have "position (\<lambda>p. p_read_fd p = rfd) (PIPES s2) = Some i"
    using len by (intro position_unique(2) [OF pipes_okD(4)]) (simp_all add: s2 s1 q_def p_def fds)
  moreover have "p_head (PIPES s2 ! i) \<noteq> p_tail (PIPES s2 ! i)"
    using ring_empty_iff [OF q(3)] q(2) n(1) unfolding qi by (metis length_0_conv length_mem_read less_numeral_extra(3))
  moreover have "snd (pipe_drain (fst q) n) = mem_read (ram m) src n"
    using pipe_fifo.pull_items [OF q(3)] q(2) by simp
  ultimately show ?thesis
    using ops(3) acc(2) w mem_read_write [of "ram m" dst "mem_read (ram m) src n"]
    by (simp add: pipe_read_found qi Let_def) auto
qed

theorem pipe_round_trip_witness:
  "let m = \<lparr>pg = paging_init (paging_static example_layout), ram = (\<lambda>a. of_nat (a mod 256))\<rparr>;
       (s1, rfd, wfd) = pipe_create pipes_init;
       (s2, w) = pipe_write m s1 wfd 0x1B000000 3;
       (m', s3, r, yielded) = pipe_read m s2 rfd 0x1B001010 3
   in w = 3 \<and> r = 3 \<and> mem_read (ram m') 0x1B001010 3 = [0, 1, 2]"
proof -
  let ?m = "\<lparr>pg = paging_init (paging_static example_layout), ram = (\<lambda>a. of_nat (a mod 256))\<rparr> :: machine"
  obtain s1 rfd wfd where c: "pipe_create pipes_init = (s1, rfd, wfd)"
    using prod_cases3 by blast
  obtain s2 w where w: "pipe_write ?m s1 wfd 0x1B000000 3 = (s2, w)"
    by fastforce
  obtain m' s3 r y where r: "pipe_read ?m s2 rfd 0x1B001010 3 = (m', s3, r, y)"
    using prod_cases4 by blast
  have fr: "\<exists>p\<in>set (PIPES pipes_init). p_read_fd p = -1"
    by (simp add: pipes_init_def pipe_empty_def MAX_PIPES_def)
  have "mem_read (ram ?m) 0x1B000000 3 = [0, 1, 2]"
    by (simp add: mem_read_def upt_rec)
  then show ?thesis
    using pipe_round_trip [OF pipes_init_ok _ fr _ _ _ _ c w r]
      example_user_accessible [of "0x1B000000" 3] example_user_accessible [of "0x1B001010" 3] c w r
    by (simp add: pipes_init_def)
qed

text \<open>
  descriptor \<open>-1\<close> is taken for a pipe as long as a slot is unused, because an unused slot
  stores \<open>-1\<close> in both descriptor fields: the query answers yes, a read reports end of file and a
  write is accepted into the unused ring, where \<open>EBADF\<close> is due.
\<close>

theorem pipe_minus_one_accepted:
  assumes "position (\<lambda>p. p_read_fd p = -1) (PIPES s) = Some i" and "PIPES s ! i = pipe_empty"
    and "position (\<lambda>p. p_write_fd p = -1) (PIPES s) = Some i"
  shows "is_pipe_fd s (-1) \<and> pipe_read m s (-1) dst n = (m, s, 0, False) \<and>
    (user_accessible (pg m) src k \<longrightarrow> snd (pipe_write m s (-1) src k) = int (min k 4095))"
proof -
  have "ring_ok pipe_empty" "ring pipe_empty = []"
    using ring_empty_iff [of pipe_empty] by (simp_all add: ring_ok_def pipe_empty_def PIPE_BUF_SIZE_def)
  then have "snd (pipe_fill pipe_empty bs) = min (length bs) 4095" for bs
    using pipe_fifo.push_count [of pipe_empty bs] by (simp add: PIPE_BUF_SIZE_def)
  moreover have "is_pipe_fd s (-1)"
    using position_less [OF assms(1)] position_holds [OF assms(1)] by (auto simp: is_pipe_fd_def list_ex_iff)
  moreover have "pipe_read m s (-1) dst n = (m, s, 0, False)"
    using assms(1,2) by (simp add: pipe_read_def Let_def pipe_is_empty_def pipe_empty_def)
  ultimately show ?thesis
    by (simp add: pipe_write_found [OF assms(3)] assms(2))
qed

theorem pipe_minus_one_accepted_witness:
  "let m = \<lparr>pg = paging_static example_layout, ram = (\<lambda>_. 0)\<rparr>
   in is_pipe_fd pipes_init (-1) \<and> pipe_read m pipes_init (-1) 0 16 = (m, pipes_init, 0, False)"
proof -
  have "position (\<lambda>p. p_read_fd p = -1) (PIPES pipes_init) = Some 0"
      "position (\<lambda>p. p_write_fd p = -1) (PIPES pipes_init) = Some 0" "PIPES pipes_init ! 0 = pipe_empty"
    by (simp_all add: pipes_init_def MAX_PIPES_def pipe_empty_def numeral_eq_Suc)
  then show ?thesis
    using pipe_minus_one_accepted [of pipes_init 0 _ 0 16 0 0] by (simp add: Let_def)
qed

end
