(* ===== verification/Fd_Table.thy ===== *)
theory Fd_Table
  imports Prelude
begin

text \<open>
  The pure slot table of \<open>src/src/fd_table.rs\<close>: allocation, lookup and release of open-file
  slots.  The table is seen from outside as a finite map from descriptors to open files; the
  locale \<open>fd_map\<close> states that contract and the facts its clients need, and the slot table is
  shown to satisfy it.
\<close>

section \<open>The slot table\<close>

record open_file =
  of_fd :: int
  data_offset :: nat
  data_len :: nat
  of_pos :: nat

type_synonym fd_table = "open_file option list"

fun fd_alloc :: "fd_table \<Rightarrow> open_file \<Rightarrow> fd_table \<times> nat option" where
  "fd_alloc [] entry = ([], None)"
| "fd_alloc (None # slots) entry = (Some entry # slots, Some 0)"
| "fd_alloc (Some f # slots) entry =
     (case fd_alloc slots entry of (slots', r) \<Rightarrow> (Some f # slots', map_option Suc r))"

definition fd_find :: "fd_table \<Rightarrow> int \<Rightarrow> nat option" where
  "fd_find table fd = position (\<lambda>slot. case slot of Some f \<Rightarrow> of_fd f = fd | None \<Rightarrow> False) table"

definition fd_free :: "fd_table \<Rightarrow> int \<Rightarrow> fd_table \<times> bool" where
  "fd_free table fd =
     (case fd_find table fd of Some i \<Rightarrow> (table[i := None], True) | None \<Rightarrow> (table, False))"

section \<open>The contract of a descriptor table\<close>

locale fd_map =
  fixes invar :: "'t \<Rightarrow> bool"
    and abs :: "'t \<Rightarrow> int \<Rightarrow> 'f option"
    and room :: "'t \<Rightarrow> bool"
    and key :: "'f \<Rightarrow> int"
    and alloc :: "'t \<Rightarrow> 'f \<Rightarrow> 't \<times> nat option"
    and free :: "'t \<Rightarrow> int \<Rightarrow> 't \<times> bool"
  assumes alloc_full: "\<not> room t \<Longrightarrow> alloc t e = (t, None)"
    and alloc_room: "room t \<Longrightarrow> snd (alloc t e) \<noteq> None"
    and alloc_abs: "\<lbrakk>invar t; room t; abs t (key e) = None\<rbrakk>
      \<Longrightarrow> abs (fst (alloc t e)) = (abs t)(key e \<mapsto> e)"
    and alloc_invar: "\<lbrakk>invar t; abs t (key e) = None\<rbrakk> \<Longrightarrow> invar (fst (alloc t e))"
    and free_hit: "snd (free t fd) \<longleftrightarrow> abs t fd \<noteq> None"
    and free_abs: "invar t \<Longrightarrow> abs (fst (free t fd)) = (abs t)(fd := None)"
    and free_invar: "invar t \<Longrightarrow> invar (fst (free t fd))"
    and free_room: "snd (free t fd) \<Longrightarrow> room (fst (free t fd))"
begin

lemma alloc_keeps_others:
  assumes "invar t" "abs t (key e) = None" "fd \<noteq> key e"
  shows "abs (fst (alloc t e)) fd = abs t fd"
  using assms by (cases "room t") (simp_all add: alloc_abs alloc_full)

lemma open_close_restores:
  assumes "invar t" "room t" "abs t (key e) = None"
  shows "snd (free (fst (alloc t e)) (key e))"
    and "abs (fst (free (fst (alloc t e)) (key e))) = abs t"
  using assms by (auto simp: free_hit free_abs alloc_abs alloc_invar)

lemma double_free: "invar t \<Longrightarrow> \<not> snd (free (fst (free t fd)) fd)"
  by (simp add: free_hit free_abs)

lemma free_then_alloc:
  assumes "invar t" "abs t fd \<noteq> None" "abs t (key e) = None"
  shows "abs (fst (alloc (fst (free t fd)) e)) = (abs t)(fd := None, key e \<mapsto> e)"
  using assms by (simp add: alloc_abs free_abs free_invar free_room free_hit)

end

section \<open>The slot table satisfies the contract\<close>

definition fd_lookup :: "fd_table \<Rightarrow> int \<Rightarrow> open_file option" where
  "fd_lookup table fd = (case fd_find table fd of Some i \<Rightarrow> table ! i | None \<Rightarrow> None)"

definition fd_room :: "fd_table \<Rightarrow> bool" where
  "fd_room table \<longleftrightarrow> None \<in> set table"

text \<open>No two occupied slots carry the same descriptor.\<close>

definition fd_invar :: "fd_table \<Rightarrow> bool" where
  "fd_invar table \<longleftrightarrow> distinct (map of_fd (List.map_filter id table))"

lemma map_filter_id_simps [simp]:
  "List.map_filter id [] = []"
  "List.map_filter id (None # t) = List.map_filter id t"
  "List.map_filter id (Some f # t) = f # List.map_filter id t"
  by (simp_all add: List.map_filter_def)

lemma set_map_filter_id [simp]: "set (List.map_filter id t) = {f. Some f \<in> set t}"
  by (induction t) (auto simp: List.map_filter_def)

lemma fd_lookup_simps [simp]:
  "fd_lookup [] fd = None"
  "fd_lookup (None # t) fd = fd_lookup t fd"
  "fd_lookup (Some f # t) fd = (if of_fd f = fd then Some f else fd_lookup t fd)"
  by (auto simp: fd_lookup_def fd_find_def split: option.splits)

lemma fd_lookup_None_iff: "fd_lookup t fd = None \<longleftrightarrow> (\<forall>f. Some f \<in> set t \<longrightarrow> of_fd f \<noteq> fd)"
proof (induction t)
  case (Cons s t)
  then show ?case by (cases s) auto
qed simp

lemma fd_lookup_SomeD: "fd_lookup t fd = Some f \<Longrightarrow> Some f \<in> set t \<and> of_fd f = fd"
proof (induction t)
  case (Cons s t)
  then show ?case by (cases s) (auto split: if_splits)
qed simp

lemma fd_invar_simps [simp]:
  "fd_invar []"
  "fd_invar (None # t) \<longleftrightarrow> fd_invar t"
  "fd_invar (Some f # t) \<longleftrightarrow> fd_lookup t (of_fd f) = None \<and> fd_invar t"
  by (auto simp: fd_invar_def fd_lookup_None_iff image_iff)

lemma fd_lookup_find: "fd_find t fd = Some i \<Longrightarrow> fd_lookup t fd = t ! i \<and> t ! i \<noteq> None \<and> i < length t"
  using position_SomeD [of _ t i] by (auto simp: fd_lookup_def fd_find_def split: option.splits)

lemma fd_find_None_iff: "fd_find t fd = None \<longleftrightarrow> fd_lookup t fd = None"
proof (cases "fd_find t fd")
  case (Some i)
  then show ?thesis
    using fd_lookup_find [OF Some] by auto
qed (simp add: fd_lookup_def)

lemma fd_alloc_full: "\<not> fd_room t \<Longrightarrow> fd_alloc t e = (t, None)"
  by (induction t e rule: fd_alloc.induct) (auto simp: fd_room_def)

lemma fd_alloc_room:
  "fd_room t \<Longrightarrow> \<exists>i. position (\<lambda>s. s = None) t = Some i \<and> fd_alloc t e = (t[i := Some e], Some i)"
  by (induction t e rule: fd_alloc.induct) (auto simp: fd_room_def)

lemma fd_alloc_lookup:
  "fd_lookup t (of_fd e) = None \<Longrightarrow> fd_room t \<Longrightarrow>
   fd_lookup (fst (fd_alloc t e)) = (fd_lookup t)(of_fd e \<mapsto> e)"
proof (induction t e rule: fd_alloc.induct)
  case (3 f slots entry)
  then show ?case
    by (auto simp: fd_room_def fun_eq_iff split: prod.splits if_splits)
qed (auto simp: fd_room_def fun_eq_iff)

lemma fd_alloc_set: "Some f \<in> set (fst (fd_alloc t e)) \<Longrightarrow> f = e \<or> Some f \<in> set t"
  by (induction t e rule: fd_alloc.induct) (auto split: prod.splits)

lemma fd_alloc_invar:
  "fd_invar t \<Longrightarrow> fd_lookup t (of_fd e) = None \<Longrightarrow> fd_invar (fst (fd_alloc t e))"
proof (induction t e rule: fd_alloc.induct)
  case (3 f slots entry)
  have "fd_lookup (fst (fd_alloc slots entry)) (of_fd f) = None"
    using fd_alloc_set [of _ slots entry] 3(2,3)
    by (fastforce simp: fd_lookup_None_iff split: if_splits)
  with 3 show ?case
    by (auto split: prod.splits if_splits)
qed auto

lemma length_fd_alloc [simp]: "length (fst (fd_alloc t e)) = length t"
  by (induction t e rule: fd_alloc.induct) (auto split: prod.splits)

lemma fd_free_simps [simp]:
  "fd_free [] fd = ([], False)"
  "fd_free (None # t) fd = (case fd_free t fd of (t', b) \<Rightarrow> (None # t', b))"
  "fd_free (Some f # t) fd =
     (if of_fd f = fd then (None # t, True) else case fd_free t fd of (t', b) \<Rightarrow> (Some f # t', b))"
  by (auto simp: fd_free_def fd_find_def split: option.splits)

lemma fd_free_hit: "snd (fd_free t fd) \<longleftrightarrow> fd_lookup t fd \<noteq> None"
  by (auto simp: fd_free_def fd_find_None_iff [symmetric] split: option.splits)

lemma fd_free_set: "Some f \<in> set (fst (fd_free t fd)) \<Longrightarrow> Some f \<in> set t"
  by (auto simp: fd_free_def dest!: set_update_subset split: option.splits)

lemma fd_free_invar: "fd_invar t \<Longrightarrow> fd_invar (fst (fd_free t fd))"
proof (induction t)
  case (Cons s t)
  have "fd_lookup (fst (fd_free t fd)) k = None" if "fd_lookup t k = None" for k
    using fd_free_set [of _ t fd] that by (auto simp: fd_lookup_None_iff)
  with Cons show ?case
    by (cases s) (auto split: prod.splits)
qed simp

lemma fd_free_lookup: "fd_invar t \<Longrightarrow> fd_lookup (fst (fd_free t fd)) = (fd_lookup t)(fd := None)"
proof (induction t)
  case (Cons s t)
  then show ?case
    by (cases s) (auto simp: fun_eq_iff split: prod.splits)
qed auto

lemma fd_free_room: "snd (fd_free t fd) \<Longrightarrow> fd_room (fst (fd_free t fd))"
  by (auto simp: fd_free_def fd_room_def set_update_memI fd_find_def position_less
      split: option.splits)

interpretation fdt: fd_map fd_invar fd_lookup fd_room of_fd fd_alloc fd_free
proof unfold_locales
  show "snd (fd_alloc t e) \<noteq> None" if "fd_room t" for t e
    using fd_alloc_room [OF that, of e] by auto
qed (simp_all add: fd_alloc_full fd_alloc_lookup fd_alloc_invar fd_free_hit fd_free_lookup
    fd_free_invar fd_free_room)

section \<open>Properties\<close>

text \<open>
  C19: the slot table refines a finite map from descriptors to open files.  With a fresh
  descriptor, allocation takes the first empty slot and extends the map by exactly that
  descriptor, or reports exhaustion and leaves the table as it was when every slot is taken;
  releasing a descriptor removes exactly it, succeeds exactly when it was open, and a second
  release of the same descriptor is a reported no-op.
\<close>

theorem fd_table_refines_map:
  assumes "fd_invar t" and "fd_lookup t (of_fd e) = None"
  shows "(case fd_alloc t e of
            (t', Some i) \<Rightarrow> position (\<lambda>s. s = None) t = Some i \<and> t' = t[i := Some e] \<and>
                            fd_lookup t' = (fd_lookup t)(of_fd e \<mapsto> e) \<and> fd_invar t'
          | (t', None) \<Rightarrow> t' = t \<and> None \<notin> set t) \<and>
         (case fd_free t fd of
            (t', hit) \<Rightarrow> fd_lookup t' = (fd_lookup t)(fd := None) \<and> fd_invar t' \<and>
                         (hit \<longleftrightarrow> fd_lookup t fd \<noteq> None) \<and> fd_free t' fd = (t', False))"
proof -
  have alloc: "case fd_alloc t e of
            (t', Some i) \<Rightarrow> position (\<lambda>s. s = None) t = Some i \<and> t' = t[i := Some e] \<and>
                            fd_lookup t' = (fd_lookup t)(of_fd e \<mapsto> e) \<and> fd_invar t'
          | (t', None) \<Rightarrow> t' = t \<and> None \<notin> set t"
  proof (cases "fd_room t")
    case True
    then obtain i where "position (\<lambda>s. s = None) t = Some i" "fd_alloc t e = (t[i := Some e], Some i)"
      using fd_alloc_room by blast
    then show ?thesis
      using fdt.alloc_abs [OF assms(1) True assms(2)] fdt.alloc_invar [OF assms] by simp
  qed (simp add: fd_alloc_full, simp add: fd_room_def)
  obtain t' hit where f: "fd_free t fd = (t', hit)"
    by fastforce
  have "fd_free t' fd = (t', False)"
    using fdt.free_abs [OF assms(1), of fd] f
    by (simp add: fd_free_def [of t'] fd_find_None_iff split: option.splits)
  with alloc show ?thesis
    using fdt.free_abs [OF assms(1), of fd] fdt.free_invar [OF assms(1), of fd]
      fdt.free_hit [of t fd] f by simp
qed

theorem fd_table_refines_map_witness:
  "let f = \<lparr>of_fd = 1000, data_offset = 0, data_len = 5, of_pos = 0\<rparr>;
       g = \<lparr>of_fd = 1001, data_offset = 8, data_len = 3, of_pos = 0\<rparr>
   in fd_lookup (fst (fd_alloc [Some f, None] g)) 1001 = Some g \<and>
      fd_lookup (fst (fd_free [Some f, None] 1000)) 1000 = None"
  using fd_table_refines_map
    [of "[Some \<lparr>of_fd = 1000, data_offset = 0, data_len = 5, of_pos = 0\<rparr>, None]"
        "\<lparr>of_fd = 1001, data_offset = 8, data_len = 3, of_pos = 0\<rparr>" 1000]
  by simp

end
