(* ===== verification/Cpio.thy ===== *)
theory Cpio
  imports Prelude
begin

text \<open>
  The newc cpio reader (\<open>src/src/cpio.rs\<close>).  The lookup loop is a total function: each turn
  moves the offset forward by at least a header.  Its results are shown to lie inside the
  archive whatever the bytes are, and on archives written in the format (\<open>cpio_archive\<close>, the
  writer of the format as the unit tests of the source build it) it returns the contents of the
  first entry with the requested name.
\<close>

section \<open>The reader\<close>

definition hex_digit :: "u8 \<Rightarrow> nat" where
  "hex_digit b =
     (let v = unat b in
      if 0x30 \<le> v \<and> v \<le> 0x39 then v - 0x30
      else if 0x61 \<le> v \<and> v \<le> 0x66 then v - 0x61 + 10
      else if 0x41 \<le> v \<and> v \<le> 0x46 then v - 0x41 + 10
      else 0)"

definition parse_hex :: "bytes \<Rightarrow> nat" where
  "parse_hex bs = foldl (\<lambda>val b. wrap64 (val * 16) + hex_digit b) 0 bs"

definition subslice :: "bytes \<Rightarrow> nat \<Rightarrow> nat \<Rightarrow> bytes" where
  "subslice data a b = take (b - a) (drop a data)"

definition strip_root :: "bytes \<Rightarrow> bytes" where
  "strip_root path =
     (if starts_with path (bytes_of ''/'') then drop 1 path
      else if starts_with path (bytes_of ''./'') then drop 2 path
      else path)"

function cpio_lookup_loop :: "bytes \<Rightarrow> bytes \<Rightarrow> nat \<Rightarrow> (nat \<times> nat) option" where
  "cpio_lookup_loop data name offset =
     (if 2 ^ 64 \<le> offset + 110 \<or> length data < offset + 110 then None
      else if subslice data offset (offset + 6) \<noteq> bytes_of ''070701'' then None
      else
        let filesize = parse_hex (subslice data (offset + 54) (offset + 62));
            namesize = parse_hex (subslice data (offset + 94) (offset + 102));
            name_start = offset + 110
        in if namesize = 0 then None
           else if 2 ^ 64 \<le> name_start + namesize + 3 then None
           else
             let name_end = name_start + namesize - 1;
                 data_start = align_down (name_start + namesize + 3) 4;
                 data_end = data_start + filesize
             in if 2 ^ 64 \<le> data_end then None
                else if length data < name_end \<or> length data < data_end then None
                else if subslice data name_start name_end = bytes_of ''TRAILER!!!'' then None
                else if subslice data name_start name_end = name then Some (data_start, filesize)
                else if 2 ^ 64 \<le> data_end + 3 then None
                else cpio_lookup_loop data name (align_down (data_end + 3) 4))"
  by pat_completeness auto
termination
proof (relation "measure (\<lambda>(data, name, offset). length data - offset)")
  fix data :: bytes and name :: bytes and offset filesize namesize name_start name_end data_start data_end :: nat
  assume "\<not> (2 ^ 64 \<le> offset + 110 \<or> length data < offset + 110)"
    and d: "name_start = offset + 110" "data_start = align_down (name_start + namesize + 3) 4"
      "data_end = data_start + filesize"
  then have "offset < length data" by simp
  moreover have "offset < align_down (data_end + 3) 4"
    using align_down_gt [of 4 "data_end + 3"] align_down_gt [of 4 "name_start + namesize + 3"] d by simp
  ultimately show "((data, name, align_down (data_end + 3) 4), data, name, offset)
      \<in> measure (\<lambda>(data, name, offset). length data - offset)"
    by simp
qed simp

declare cpio_lookup_loop.simps [simp del]

definition cpio_lookup :: "bytes \<Rightarrow> bytes \<Rightarrow> (nat \<times> nat) option" where
  "cpio_lookup data path = cpio_lookup_loop data (strip_root path) 0"

section \<open>Safety on arbitrary bytes\<close>

lemma cpio_lookup_loop_bounds:
  "cpio_lookup_loop data name offset = Some (off, len) \<Longrightarrow> offset + 110 < off \<and> off + len \<le> length data"
proof (induction data name offset rule: cpio_lookup_loop.induct)
  case (1 data name offset)
  let ?fs = "parse_hex (subslice data (offset + 54) (offset + 62))"
  let ?ns = "parse_hex (subslice data (offset + 94) (offset + 102))"
  let ?ds = "align_down (offset + 110 + ?ns + 3) 4"
  note u = "1.prems" [unfolded cpio_lookup_loop.simps [of data name offset] Let_def]
  have ns: "?ns \<noteq> 0"
    using u by (simp split: if_splits)
  have ds: "offset + 110 < ?ds"
    using align_down_gt [of 4 "offset + 110 + ?ns + 3"] ns by simp
  show ?case
  proof (cases "subslice data (offset + 110) (offset + 110 + ?ns - 1) = name")
    case True
    then have "(?ds, ?fs) = (off, len)" "?ds + ?fs \<le> length data"
      using u by (simp_all split: if_splits)
    with ds show ?thesis by simp
  next
    case False
    have "offset + 110 < align_down (?ds + ?fs + 3) 4"
      using align_down_gt [of 4 "?ds + ?fs + 3"] ds by simp
    moreover have "cpio_lookup_loop data name (align_down (?ds + ?fs + 3) 4) = Some (off, len)"
      using u False by (simp split: if_splits)
    ultimately show ?thesis
      using "1.IH" [OF _ _ refl refl refl ns _ refl refl refl] u False by (simp split: if_splits)
  qed
qed

section \<open>Archives in the format\<close>

definition hex_char :: "nat \<Rightarrow> u8" where
  "hex_char d = (if d < 10 then of_nat (0x30 + d) else of_nat (0x41 + (d - 10)))"

primrec hex_field :: "nat \<Rightarrow> nat \<Rightarrow> bytes" where
  "hex_field 0 v = []"
| "hex_field (Suc n) v = hex_char (v div 16 ^ n mod 16) # hex_field n v"

abbreviation hex8 :: "nat \<Rightarrow> bytes" where
  "hex8 \<equiv> hex_field 8"

definition pad4 :: "nat \<Rightarrow> bytes" where
  "pad4 n = replicate (align_up n 4 - n) 0"

definition cpio_header :: "nat \<Rightarrow> nat \<Rightarrow> bytes" where
  "cpio_header namesize filesize = bytes_of ''070701'' @
     concat (replicate 6 (hex8 0)) @ hex8 filesize @ concat (replicate 4 (hex8 0)) @ hex8 namesize @ hex8 0"

definition cpio_entry :: "bytes \<times> bytes \<Rightarrow> bytes" where
  "cpio_entry e = (case e of (name, content) \<Rightarrow>
     cpio_header (length name + 1) (length content) @ name @ [0] @ pad4 (111 + length name) @
     content @ pad4 (length content))"

definition cpio_archive :: "(bytes \<times> bytes) list \<Rightarrow> bytes" where
  "cpio_archive es = concat (map cpio_entry es) @ cpio_entry (bytes_of ''TRAILER!!!'', [])"

lemma hex_digit_char: "d < 16 \<Longrightarrow> hex_digit (hex_char d) = d"
proof -
  assume d: "d < 16"
  have "unat (of_nat (0x30 + d) :: u8) = 0x30 + d" "unat (of_nat (0x41 + (d - 10)) :: u8) = 0x41 + (d - 10)"
    using d by (intro unat_of_nat_u8, simp)+
  then have u: "unat (hex_char d) = (if d < 10 then 0x30 + d else 0x41 + (d - 10))"
    unfolding hex_char_def by presburger
  show ?thesis
    unfolding hex_digit_def u Let_def using d by auto
qed

lemma length_hex_field [simp]: "length (hex_field n v) = n"
  by (induction n) simp_all

lemma parse_hex_field:
  "n + k \<le> 15 \<Longrightarrow> acc < 16 ^ k \<Longrightarrow>
   foldl (\<lambda>val b. wrap64 (val * 16) + hex_digit b) acc (hex_field n v) = acc * 16 ^ n + v mod 16 ^ n"
proof (induction n arbitrary: acc k)
  case 0
  then show ?case by simp
next
  case (Suc n)
  let ?d = "v div 16 ^ n mod 16"
  have "Suc acc * 16 \<le> 16 ^ k * 16"
    using Suc.prems(2) by (intro mult_le_mono1) simp
  then have b: "acc * 16 + 16 \<le> 16 ^ Suc k"
    by simp
  have "(16::nat) ^ Suc k \<le> 16 ^ 15"
    using Suc.prems(1) by (intro power_increasing) simp_all
  moreover have "(16::nat) ^ 15 < 2 ^ 64"
    by simp
  ultimately have "acc * 16 < 2 ^ 64"
    using b by linarith
  then have w: "wrap64 (acc * 16) = acc * 16"
    by (rule wrap64_id)
  have d: "?d < 16"
    by simp
  then have lt: "acc * 16 + ?d < 16 ^ Suc k"
    using b by linarith
  let ?f = "\<lambda>val b. wrap64 (val * 16) + hex_digit b"
  have "foldl ?f acc (hex_field (Suc n) v) = foldl ?f (acc * 16 + ?d) (hex_field n v)"
    by (simp only: hex_field.simps foldl_Cons w hex_digit_char [OF d])
  also have "\<dots> = (acc * 16 + ?d) * 16 ^ n + v mod 16 ^ n"
    using Suc.prems(1) by (intro Suc.IH [OF _ lt]) linarith
  also have "\<dots> = acc * 16 ^ Suc n + (?d * 16 ^ n + v mod 16 ^ n)"
    by (simp only: add_mult_distrib power_Suc mult.assoc add.assoc)
  also have "?d * 16 ^ n + v mod 16 ^ n = v mod 16 ^ Suc n"
    unfolding power_Suc2 mod_mult2_eq by (simp only: mult.commute)
  finally show ?case .
qed

lemma parse_hex8: "v < 2 ^ 32 \<Longrightarrow> parse_hex (hex8 v) = v"
proof -
  assume v: "v < 2 ^ 32"
  have "parse_hex (hex8 v) = 0 * 16 ^ 8 + v mod 16 ^ 8"
    unfolding parse_hex_def by (rule parse_hex_field [where k = 0]) simp_all
  with v show ?thesis by simp
qed

lemma length_pad4: "length (pad4 n) = align_up n 4 - n"
  by (simp add: pad4_def)

lemma length_cpio_header [simp]: "length (cpio_header a b) = 110"
  by (simp add: cpio_header_def length_concat sum_list_replicate map_replicate del: bytes_of_simps)

lemma length_cpio_entry:
  "length (cpio_entry (name, content)) = align_up (111 + length name) 4 + align_up (length content) 4"
  using align_up_ge [of 4 "111 + length name"] align_up_ge [of 4 "length content"]
  by (simp add: cpio_entry_def length_pad4)

lemma cpio_entry_aligned: "4 dvd length (cpio_entry e)"
  by (cases e) (simp add: length_cpio_entry)

lemma slice_mid: "data = xs @ ys @ zs \<Longrightarrow> a = length xs \<Longrightarrow> b = a + length ys \<Longrightarrow> subslice data a b = ys"
  by (simp add: subslice_def)

lemma align_down_3: "align_down (x + 3) 4 = align_up x 4"
  by (simp add: align_down_def align_up_def)

lemma align_up_add: "4 dvd p \<Longrightarrow> align_up (p + x) 4 = p + align_up x 4"
proof -
  assume "4 dvd p"
  then obtain q where q: "p = 4 * q"
    by (auto elim: dvdE)
  have "(4 * q + x + 3) div 4 = q + (x + 3) div 4"
    by simp
  then show ?thesis
    by (simp add: align_up_def q)
qed

lemma length_magic: "length (bytes_of ''070701'') = 6"
  by (simp del: bytes_of_simps)

text \<open>One turn of the loop at the start of a well-formed entry.\<close>

lemma cpio_lookup_entry:
  assumes pre: "4 dvd length pre" and data: "data = pre @ cpio_entry (n, d) @ rest"
    and small: "length n + 1 < 2 ^ 32" "length d < 2 ^ 32" "length data < 2 ^ 63"
  shows "cpio_lookup_loop data name (length pre) =
    (if n = bytes_of ''TRAILER!!!'' then None
     else if n = name then Some (length pre + align_up (111 + length n) 4, length d)
     else cpio_lookup_loop data name (length pre + length (cpio_entry (n, d))))"
proof -
  let ?o = "length pre" and ?ns = "length n + 1" and ?fs = "length d"
  let ?magic = "bytes_of ''070701''" and ?z6 = "concat (replicate 6 (hex8 0))" and ?z4 = "concat (replicate 4 (hex8 0))"
  let ?tl = "pad4 (111 + length n) @ d @ pad4 (length d) @ rest"
  have z: "length ?z6 = 48" "length ?z4 = 32"
    by (simp_all add: length_concat map_replicate sum_list_replicate)
  have e: "data = pre @ ?magic @ ?z6 @ hex8 ?fs @ ?z4 @ hex8 ?ns @ hex8 0 @ n @ [0] @ ?tl"
    by (simp add: data cpio_entry_def cpio_header_def del: bytes_of_simps)
  have s0: "subslice data ?o (?o + 6) = ?magic"
    by (rule slice_mid [where xs = pre]) (simp_all add: e length_magic del: bytes_of_simps)
  have s1: "subslice data (?o + 54) (?o + 62) = hex8 ?fs"
    by (rule slice_mid [where xs = "pre @ ?magic @ ?z6"]) (simp_all add: e z length_magic del: bytes_of_simps)
  have s2: "subslice data (?o + 94) (?o + 102) = hex8 ?ns"
    by (rule slice_mid [where xs = "pre @ ?magic @ ?z6 @ hex8 ?fs @ ?z4"])
      (simp_all add: e z length_magic del: bytes_of_simps)
  have s3: "subslice data (?o + 110) (?o + 110 + ?ns - 1) = n"
    by (rule slice_mid [where xs = "pre @ ?magic @ ?z6 @ hex8 ?fs @ ?z4 @ hex8 ?ns @ hex8 0"])
      (simp_all add: e z length_magic del: bytes_of_simps)
  have a1: "align_down (?o + 110 + ?ns + 3) 4 = ?o + align_up (111 + length n) 4"
  proof -
    have "?o + 110 + ?ns = ?o + (111 + length n)"
      by simp
    then show ?thesis
      unfolding align_down_3 using align_up_add [OF pre, of "111 + length n"] by (simp only:)
  qed
  have a2: "align_down (?o + align_up (111 + length n) 4 + ?fs + 3) 4 = ?o + length (cpio_entry (n, d))"
    using align_up_add [of "?o + align_up (111 + length n) 4" ?fs] pre
    by (simp add: align_down_3 length_cpio_entry)
  have len: "length data = ?o + length (cpio_entry (n, d)) + length rest"
    by (simp add: data)
  have ge: "111 + length n \<le> align_up (111 + length n) 4" "?fs \<le> align_up ?fs 4"
    by (rule align_up_ge; simp)+
  have u: "cpio_lookup_loop data name ?o = (if 2 ^ 64 \<le> ?o + 110 \<or> length data < ?o + 110 then None
      else if 2 ^ 64 \<le> ?o + 110 + ?ns + 3 then None
      else if 2 ^ 64 \<le> ?o + align_up (111 + length n) 4 + ?fs then None
      else if length data < ?o + 110 + ?ns - 1 \<or> length data < ?o + align_up (111 + length n) 4 + ?fs then None
      else if n = bytes_of ''TRAILER!!!'' then None
      else if n = name then Some (?o + align_up (111 + length n) 4, ?fs)
      else if 2 ^ 64 \<le> ?o + align_up (111 + length n) 4 + ?fs + 3 then None
      else cpio_lookup_loop data name (?o + length (cpio_entry (n, d))))"
    unfolding cpio_lookup_loop.simps [of data name ?o] s0 s1 s2 parse_hex8 [OF small(1)] parse_hex8 [OF small(2)]
      Let_def s3 a1 a2 by (simp del: bytes_of_simps)
  have "\<not> 2 ^ 64 \<le> ?o + 110" "\<not> length data < ?o + 110" "\<not> 2 ^ 64 \<le> ?o + 110 + ?ns + 3"
    "\<not> 2 ^ 64 \<le> ?o + align_up (111 + length n) 4 + ?fs" "\<not> length data < ?o + 110 + ?ns - 1"
    "\<not> length data < ?o + align_up (111 + length n) 4 + ?fs" "\<not> 2 ^ 64 \<le> ?o + align_up (111 + length n) 4 + ?fs + 3"
    using ge small(3) len length_cpio_entry [of n d] by simp_all
  then show ?thesis
    unfolding u by (simp del: bytes_of_simps)
qed

definition cpio_entry_ok :: "bytes \<times> bytes \<Rightarrow> bool" where
  "cpio_entry_ok e \<longleftrightarrow> fst e \<noteq> bytes_of ''TRAILER!!!'' \<and> length (fst e) + 1 < 2 ^ 32 \<and> length (snd e) < 2 ^ 32"

lemma cpio_lookup_entries:
  assumes "4 dvd length pre" "data = pre @ concat (map cpio_entry es) @ cpio_entry (bytes_of ''TRAILER!!!'', [])"
    "\<forall>e\<in>set es. cpio_entry_ok e" "length data < 2 ^ 63"
  shows "case map_of es name of
      None \<Rightarrow> cpio_lookup_loop data name (length pre) = None
    | Some d \<Rightarrow> \<exists>off. cpio_lookup_loop data name (length pre) = Some (off, length d) \<and>
                      subslice data off (off + length d) = d"
  using assms
proof (induction es arbitrary: pre)
  case Nil
  show ?case
    using cpio_lookup_entry [OF Nil.prems(1), of data "bytes_of ''TRAILER!!!''" "[]" "[]" name] Nil.prems(2,4)
    by (simp del: bytes_of_simps)
next
  case (Cons e es)
  obtain n d where e: "e = (n, d)"
    by fastforce
  let ?rest = "concat (map cpio_entry es) @ cpio_entry (bytes_of ''TRAILER!!!'', [])"
  have data: "data = pre @ cpio_entry (n, d) @ ?rest"
    using Cons.prems(2) e by simp
  have ok: "n \<noteq> bytes_of ''TRAILER!!!''" "length n + 1 < 2 ^ 32" "length d < 2 ^ 32"
    using Cons.prems(3) e by (simp_all add: cpio_entry_ok_def)
  note step = cpio_lookup_entry [OF Cons.prems(1) data ok(2,3) Cons.prems(4), of name]
  show ?case
  proof (cases "n = name")
    case True
    let ?h = "cpio_header (length n + 1) (length d) @ n @ [0] @ pad4 (111 + length n)"
    have "subslice data (length pre + align_up (111 + length n) 4)
        (length pre + align_up (111 + length n) 4 + length d) = d"
    proof (rule slice_mid [where xs = "pre @ ?h" and zs = "pad4 (length d) @ ?rest"])
      show "data = (pre @ ?h) @ d @ pad4 (length d) @ ?rest"
        by (simp add: data cpio_entry_def del: bytes_of_simps)
      show "length pre + align_up (111 + length n) 4 = length (pre @ ?h)"
        using align_up_ge [of 4 "111 + length n"] by (simp add: length_pad4)
    qed simp
    then show ?thesis
      using step True ok(1) by (simp add: e del: bytes_of_simps)
  next
    case False
    let ?pre = "pre @ cpio_entry (n, d)"
    have "4 dvd length ?pre"
      using Cons.prems(1) cpio_entry_aligned [of "(n, d)"] by simp
    moreover have "data = ?pre @ ?rest"
      by (simp add: data)
    ultimately have "case map_of es name of
        None \<Rightarrow> cpio_lookup_loop data name (length ?pre) = None
      | Some d \<Rightarrow> \<exists>off. cpio_lookup_loop data name (length ?pre) = Some (off, length d) \<and>
                        subslice data off (off + length d) = d"
      using Cons.prems(3,4) by (intro Cons.IH) simp_all
    then show ?thesis
      using step False ok(1) by (simp add: e split: option.splits del: bytes_of_simps)
  qed
qed

section \<open>Properties\<close>

text \<open>
  C25: lookup in an archive whose bytes are arbitrary never points outside it: a hit's content
  range lies behind a header and ends within the data.
\<close>

theorem cpio_lookup_in_bounds:
  assumes "cpio_lookup data path = Some (off, len)"
  shows "110 < off \<and> off + len \<le> length data"
  using cpio_lookup_loop_bounds [of data "strip_root path" 0 off len] assms by (simp add: cpio_lookup_def)

text \<open>
  C15: on a well-formed archive, lookup finds a path exactly when an entry has that name (with a
  leading slash or dot-slash removed), and the range it returns holds the content of the first
  such entry.
\<close>

theorem cpio_round_trip:
  assumes "\<forall>e\<in>set es. cpio_entry_ok e" and "length (cpio_archive es) < 2 ^ 63"
  shows "case map_of es (strip_root path) of
      None \<Rightarrow> cpio_lookup (cpio_archive es) path = None
    | Some content \<Rightarrow> \<exists>off. cpio_lookup (cpio_archive es) path = Some (off, length content) \<and>
        subslice (cpio_archive es) off (off + length content) = content"
proof -
  have a: "cpio_archive es = [] @ concat (map cpio_entry es) @ cpio_entry (bytes_of ''TRAILER!!!'', [])"
    by (simp add: cpio_archive_def del: bytes_of_simps)
  show ?thesis
    unfolding cpio_lookup_def
    using cpio_lookup_entries [OF _ a assms, of "strip_root path", unfolded list.size] by simp
qed

theorem cpio_round_trip_witness:
  "let es = [(bytes_of ''a'', [1, 2]), (bytes_of ''b'', [3])]
   in (\<exists>off. cpio_lookup (cpio_archive es) (bytes_of ''/b'') = Some (off, 1) \<and>
             subslice (cpio_archive es) off (off + 1) = [3]) \<and>
      cpio_lookup (cpio_archive es) (bytes_of ''c'') = None"
proof -
  let ?es = "[(bytes_of ''a'', [1, 2]), (bytes_of ''b'', [3])] :: (bytes \<times> bytes) list"
  have ok: "\<forall>e\<in>set ?es. cpio_entry_ok e"
    by (simp add: cpio_entry_ok_def)
  have len: "length (cpio_archive ?es) < 2 ^ 63"
    by (simp add: cpio_archive_def length_cpio_entry align_up_def)
  have s: "strip_root (bytes_of ''/b'') = bytes_of ''b''" "strip_root (bytes_of ''c'') = bytes_of ''c''"
    by (simp_all add: strip_root_def starts_with_def)
  show ?thesis
    using cpio_round_trip [OF ok len, of "bytes_of ''/b''"] cpio_round_trip [OF ok len, of "bytes_of ''c''"]
    unfolding s by simp
qed

theorem cpio_lookup_in_bounds_witness:
  "\<exists>off len. cpio_lookup (cpio_archive [(bytes_of ''a'', [7])]) (bytes_of ''a'') = Some (off, len) \<and>
     off + len \<le> length (cpio_archive [(bytes_of ''a'', [7])])"
proof -
  let ?es = "[(bytes_of ''a'', [7])] :: (bytes \<times> bytes) list"
  have ok: "\<forall>e\<in>set ?es. cpio_entry_ok e"
    by (simp add: cpio_entry_ok_def)
  have "length (cpio_archive ?es) < 2 ^ 63"
    by (simp add: cpio_archive_def length_cpio_entry align_up_def)
  moreover have "strip_root (bytes_of ''a'') = bytes_of ''a''"
    by (simp add: strip_root_def starts_with_def)
  ultimately obtain off where "cpio_lookup (cpio_archive ?es) (bytes_of ''a'') = Some (off, 1)"
    using cpio_lookup_entries [of "[]" "cpio_archive ?es" ?es "bytes_of ''a''"] ok
    by (auto simp: cpio_lookup_def cpio_archive_def)
  then show ?thesis
    using cpio_lookup_in_bounds by blast
qed

end
