(* ===== verification/Vfs.thy ===== *)
theory Vfs
  imports Fd_Table Cpio Uaccess
begin

text \<open>
  The read-only file system over the embedded archive (\<open>src/src/vfs.rs\<close>): open files are slots
  of the descriptor table of \<open>Fd_Table\<close> that point into the archive read by \<open>Cpio\<close>, and
  directory handles are eight fixed slots.  Where the code would panic on a malformed archive the
  model returns \<open>None\<close>.
\<close>

section \<open>State\<close>

definition MAX_OPEN :: nat where "MAX_OPEN = 256"
definition MAX_DIRS :: nat where "MAX_DIRS = 8"
definition DIR_FD_BASE :: int where "DIR_FD_BASE = 900"

record dir_slot =
  ds_fd :: int
  ds_prefix :: bytes
  ds_done :: bool

record vfs =
  cpio_data :: bytes
  NEXT_VFS_FD :: nat
  OPEN_FILES :: fd_table
  DIR_SLOTS :: "dir_slot list"

definition vfs_init_state :: "bytes \<Rightarrow> vfs" where
  "vfs_init_state data = \<lparr>cpio_data = data, NEXT_VFS_FD = 1000, OPEN_FILES = replicate MAX_OPEN None,
     DIR_SLOTS = replicate MAX_DIRS \<lparr>ds_fd = -1, ds_prefix = [], ds_done = False\<rparr>\<rparr>"

section \<open>Files\<close>

definition vfs_exists :: "vfs \<Rightarrow> bytes \<Rightarrow> bool" where
  "vfs_exists s path \<longleftrightarrow> cpio_lookup (cpio_data s) path \<noteq> None"

definition vfs_open :: "vfs \<Rightarrow> bytes \<Rightarrow> vfs \<times> int" where
  "vfs_open s path =
     (case cpio_lookup (cpio_data s) path of
        None \<Rightarrow> (s, -2)
      | Some (off, len) \<Rightarrow>
          (let fd = i32_of (int (NEXT_VFS_FD s));
               s1 = s\<lparr>NEXT_VFS_FD := NEXT_VFS_FD s + 1\<rparr>
           in case fd_alloc (OPEN_FILES s1) \<lparr>of_fd = fd, data_offset = off, data_len = len, of_pos = 0\<rparr> of
                (t, Some _) \<Rightarrow> (s1\<lparr>OPEN_FILES := t\<rparr>, fd)
              | (t, None) \<Rightarrow> (s1\<lparr>OPEN_FILES := t\<rparr>, -24)))"

definition vfs_dup :: "vfs \<Rightarrow> int \<Rightarrow> vfs \<times> int" where
  "vfs_dup s oldfd =
     (case fd_lookup (OPEN_FILES s) oldfd of
        None \<Rightarrow> (s, -9)
      | Some f \<Rightarrow>
          (let fd = i32_of (int (NEXT_VFS_FD s));
               s1 = s\<lparr>NEXT_VFS_FD := NEXT_VFS_FD s + 1\<rparr>
           in case fd_alloc (OPEN_FILES s1) (f\<lparr>of_fd := fd\<rparr>) of
                (t, Some _) \<Rightarrow> (s1\<lparr>OPEN_FILES := t\<rparr>, fd)
              | (t, None) \<Rightarrow> (s1\<lparr>OPEN_FILES := t\<rparr>, -24)))"

text \<open>The bytes of an open file from a position on.\<close>

definition file_bytes :: "vfs \<Rightarrow> open_file \<Rightarrow> nat \<Rightarrow> nat \<Rightarrow> bytes" where
  "file_bytes s f at n = take n (drop (data_offset f + at) (cpio_data s))"

definition vfs_read :: "machine \<Rightarrow> vfs \<Rightarrow> int \<Rightarrow> nat \<Rightarrow> nat \<Rightarrow> machine \<times> vfs \<times> int" where
  "vfs_read m s fd dst count =
     (case fd_find (OPEN_FILES s) fd of
        None \<Rightarrow> (m, s, -9)
      | Some i \<Rightarrow>
          (let f = the (OPEN_FILES s ! i);
               remaining = data_len f - of_pos f
           in if remaining = 0 then (m, s, 0)
              else
                (let to_read = min count remaining in
                 case copy_to_user m dst (file_bytes s f (of_pos f) to_read) of
                   Inl _ \<Rightarrow> (m, s, EFAULT)
                 | Inr m' \<Rightarrow>
                     (m', s\<lparr>OPEN_FILES := (OPEN_FILES s)[i := Some (f\<lparr>of_pos := of_pos f + to_read\<rparr>)]\<rparr>,
                      int to_read))))"

text \<open>\<open>pread\<close> stores through the plain pointer; \<open>None\<close> is a page fault of the kernel, which stops the machine.\<close>

definition vfs_pread :: "machine \<Rightarrow> vfs \<Rightarrow> int \<Rightarrow> nat \<Rightarrow> nat \<Rightarrow> nat \<Rightarrow> (machine \<times> int) option" where
  "vfs_pread m s fd dst count offset =
     (case fd_find (OPEN_FILES s) fd of
        None \<Rightarrow> Some (m, -9)
      | Some i \<Rightarrow>
          (let f = the (OPEN_FILES s ! i) in
           if data_len f \<le> offset then Some (m, 0)
           else
             (let to_read = min count (data_len f - offset) in
              map_option (\<lambda>m'. (m', int to_read)) (kernel_store m dst (file_bytes s f offset to_read)))))"

definition vfs_fstat_size :: "vfs \<Rightarrow> int \<Rightarrow> nat option" where
  "vfs_fstat_size s fd = map_option (\<lambda>i. data_len (the (OPEN_FILES s ! i))) (fd_find (OPEN_FILES s) fd)"

definition i64_saturating_add :: "int \<Rightarrow> int \<Rightarrow> int" where
  "i64_saturating_add a b = max (- (2 ^ 63)) (min (2 ^ 63 - 1) (a + b))"

definition vfs_lseek :: "vfs \<Rightarrow> int \<Rightarrow> int \<Rightarrow> int \<Rightarrow> vfs \<times> int" where
  "vfs_lseek s fd offset whence =
     (case fd_find (OPEN_FILES s) fd of
        None \<Rightarrow> (s, -9)
      | Some i \<Rightarrow>
          (let f = the (OPEN_FILES s ! i);
               new_pos = (if whence = 0 then Some (nat (max offset 0))
                          else if whence = 1 then Some (nat (max (i64_saturating_add (int (of_pos f)) offset) 0))
                          else if whence = 2 then Some (nat (max (i64_saturating_add (int (data_len f)) offset) 0))
                          else None)
           in case new_pos of
                None \<Rightarrow> (s, -22)
              | Some np \<Rightarrow>
                  (let p = min np (data_len f)
                   in (s\<lparr>OPEN_FILES := (OPEN_FILES s)[i := Some (f\<lparr>of_pos := p\<rparr>)]\<rparr>, int p))))"

definition vfs_close :: "vfs \<Rightarrow> int \<Rightarrow> vfs \<times> int" where
  "vfs_close s fd = (s\<lparr>OPEN_FILES := fst (fd_free (OPEN_FILES s) fd)\<rparr>, 0)"

definition is_vfs_fd :: "vfs \<Rightarrow> int \<Rightarrow> bool" where
  "is_vfs_fd s fd \<longleftrightarrow> fd_find (OPEN_FILES s) fd \<noteq> None"

section \<open>Scanning the archive\<close>

text \<open>
  The entry header at an offset, as the three scans of \<open>vfs.rs\<close> read it.  \<open>name_end\<close> is
  \<open>name_start + namesize - 1\<close>, which is below \<open>name_start\<close> when the field is zero; taking the
  name slice then panics.
\<close>

definition scan_magic :: "bytes \<Rightarrow> nat \<Rightarrow> bool" where
  "scan_magic data off \<longleftrightarrow> subslice data off (off + 6) = bytes_of ''070701''"

definition scan_namesize :: "bytes \<Rightarrow> nat \<Rightarrow> nat" where
  "scan_namesize data off = parse_hex (subslice data (off + 94) (off + 102))"

definition scan_filesize :: "bytes \<Rightarrow> nat \<Rightarrow> nat" where
  "scan_filesize data off = parse_hex (subslice data (off + 54) (off + 62))"

definition scan_next :: "bytes \<Rightarrow> nat \<Rightarrow> nat" where
  "scan_next data off =
     align_down (align_down (off + 110 + scan_namesize data off + 3) 4 + scan_filesize data off + 3) 4"

lemma scan_next_gt: "off < scan_next data off"
  using align_down_gt [of 4 "off + 110 + scan_namesize data off + 3"]
    align_down_gt [of 4 "align_down (off + 110 + scan_namesize data off + 3) 4 + scan_filesize data off + 3"]
  by (simp add: scan_next_def)

text \<open>The count \<open>init\<close> logs.\<close>

function vfs_init_count :: "bytes \<Rightarrow> nat \<Rightarrow> nat option" where
  "vfs_init_count data off =
     (if off + 110 \<le> length data then
        if \<not> scan_magic data off then Some 0
        else
          let namesize = scan_namesize data off; name_start = off + 110 in
          if length data < name_start + namesize - 1 then Some 0
          else if namesize = 0 then None
          else if subslice data name_start (name_start + namesize - 1) = bytes_of ''TRAILER!!!'' then Some 0
          else map_option Suc (vfs_init_count data (scan_next data off))
      else Some 0)"
  by pat_completeness auto
termination
  by (relation "measure (\<lambda>(data, off). length data - off)") (use scan_next_gt in \<open>auto intro!: diff_less_mono2\<close>)

declare vfs_init_count.simps [simp del]

function dir_prefix_scan :: "bytes \<Rightarrow> bytes \<Rightarrow> nat \<Rightarrow> bool option" where
  "dir_prefix_scan data prefix off =
     (if off + 110 < length data then
        if \<not> scan_magic data off then Some False
        else
          let namesize = scan_namesize data off; name_start = off + 110 in
          if length data < name_start + namesize - 1 then Some False
          else if namesize = 0 then None
          else
            let name = subslice data name_start (name_start + namesize - 1) in
            if name = bytes_of ''TRAILER!!!'' then Some False
            else if length prefix \<le> length name \<and> take (length prefix) name = prefix then Some True
            else dir_prefix_scan data prefix (scan_next data off)
      else Some False)"
  by pat_completeness auto
termination
  by (relation "measure (\<lambda>(data, prefix, off). length data - off)")
    (use scan_next_gt in \<open>auto intro!: diff_less_mono2\<close>)

declare dir_prefix_scan.simps [simp del]

definition is_dir_prefix :: "vfs \<Rightarrow> bytes \<Rightarrow> bool option" where
  "is_dir_prefix s path =
     (let p = (if starts_with path (bytes_of ''/'') then drop 1 path else path) in
      if 127 \<le> length p then Some False
      else
        (let prefix = (if ends_with p (bytes_of ''/'') then p else p @ bytes_of ''/'')
         in dir_prefix_scan (cpio_data s) prefix 0))"

section \<open>Directory handles\<close>

definition open_dir :: "vfs \<Rightarrow> bytes \<Rightarrow> vfs \<times> int" where
  "open_dir s path =
     (case position (\<lambda>d. ds_fd d = -1) (DIR_SLOTS s) of
        None \<Rightarrow> (s, -24)
      | Some i \<Rightarrow>
          (let fd = DIR_FD_BASE + int i;
               p = (if starts_with path (bytes_of ''/'') then drop 1 path else path)
           in (s\<lparr>DIR_SLOTS := (DIR_SLOTS s)[i := \<lparr>ds_fd = fd, ds_prefix = take 127 p, ds_done = False\<rparr>]\<rparr>, fd)))"

definition close_dir :: "vfs \<Rightarrow> int \<Rightarrow> vfs \<times> bool" where
  "close_dir s fd =
     (case position (\<lambda>d. ds_fd d = fd) (DIR_SLOTS s) of
        None \<Rightarrow> (s, False)
      | Some i \<Rightarrow> (s\<lparr>DIR_SLOTS := (DIR_SLOTS s)[i := \<lparr>ds_fd = -1, ds_prefix = [], ds_done = False\<rparr>]\<rparr>, True))"

definition is_dir_fd :: "vfs \<Rightarrow> int \<Rightarrow> bool" where
  "is_dir_fd s fd \<longleftrightarrow> list_ex (\<lambda>d. ds_fd d = fd) (DIR_SLOTS s)"

text \<open>A \<open>linux_dirent64\<close> record of \<open>reclen\<close> bytes.\<close>

definition dirent_reclen :: "bytes \<Rightarrow> nat" where
  "dirent_reclen child = align_down (19 + (length child + 1) + 7) 8"

definition dirent64 :: "nat \<Rightarrow> nat \<Rightarrow> u8 \<Rightarrow> bytes \<Rightarrow> bytes" where
  "dirent64 ino off ty child =
     (let reclen = dirent_reclen child
      in take reclen (resize (le_bytes 8 ino @ le_bytes 8 off @ le_bytes 2 reclen @ [ty] @ child) 96 0))"

definition dir_seen :: "bytes list \<Rightarrow> bytes \<Rightarrow> bool" where
  "dir_seen seen child \<longleftrightarrow>
     list_ex (\<lambda>s. take (length child) s = child \<and> s ! length child = 0) seen"

text \<open>
  The loop of \<open>fill_dir_entries\<close> with its mutable locals as arguments: the machine, the archive
  offset, the bytes written and the table of names seen.
\<close>

function fill_dir_entries ::
  "machine \<Rightarrow> bytes \<Rightarrow> nat \<Rightarrow> nat \<Rightarrow> bytes \<Rightarrow> nat \<Rightarrow> nat \<Rightarrow> bytes list \<Rightarrow> (machine \<times> int) option" where
  "fill_dir_entries m data dst count prefix off written seen =
     (if off + 110 < length data then
        if \<not> scan_magic data off then Some (m, int written)
        else
          let namesize = scan_namesize data off; name_start = off + 110 in
          if length data < name_start + namesize - 1 then Some (m, int written)
          else if namesize = 0 then None
          else
            let name = subslice data name_start (name_start + namesize - 1) in
            if name = bytes_of ''TRAILER!!!'' then Some (m, int written)
            else
              let rest = drop (length prefix) name;
                  child_end = (case position (\<lambda>b. b = 0x2F) rest of Some i \<Rightarrow> i | None \<Rightarrow> length rest);
                  child = take child_end rest
              in if length prefix < length name \<and> take (length prefix) name = prefix \<and>
                    0 < length child \<and> length child < 64 \<and> \<not> dir_seen seen child \<and> length seen < 32
                 then
                   let seen' = seen @ [resize child 64 0]; reclen = dirent_reclen child in
                   if count < written + reclen then Some (m, int written)
                   else
                     case copy_to_user m (dst + written)
                            (dirent64 (length seen') (written + reclen)
                               (if child_end < length rest then 4 else 8) child) of
                       Inl _ \<Rightarrow> Some (m, EFAULT)
                     | Inr m' \<Rightarrow> fill_dir_entries m' data dst count prefix (scan_next data off) (written + reclen) seen'
                 else fill_dir_entries m data dst count prefix (scan_next data off) written seen
      else Some (m, int written))"
  by pat_completeness auto
termination
  by (relation "measure (\<lambda>(m, data, dst, count, prefix, off, written, seen). length data - off)")
    (use scan_next_gt in \<open>auto intro!: diff_less_mono2\<close>)

declare fill_dir_entries.simps [simp del]

definition vfs_getdents64 :: "machine \<Rightarrow> vfs \<Rightarrow> int \<Rightarrow> nat \<Rightarrow> nat \<Rightarrow> (machine \<times> vfs \<times> int) option" where
  "vfs_getdents64 m s fd dst count =
     (case position (\<lambda>d. ds_fd d = fd) (DIR_SLOTS s) of
        None \<Rightarrow> Some (m, s, 0)
      | Some i \<Rightarrow>
          (let d = DIR_SLOTS s ! i in
           if ds_done d then Some (m, s, 0)
           else
             (let s1 = s\<lparr>DIR_SLOTS := (DIR_SLOTS s)[i := d\<lparr>ds_done := True\<rparr>]\<rparr>;
                  prefix = (if ds_prefix d \<noteq> [] \<and> last (ds_prefix d) \<noteq> 0x2F
                            then ds_prefix d @ [0x2F] else ds_prefix d)
              in map_option (\<lambda>(m', r). (m', s1, r))
                   (fill_dir_entries m (cpio_data s) dst count prefix 0 0 []))))"

section \<open>Invariant\<close>

definition file_ok :: "vfs \<Rightarrow> open_file \<Rightarrow> bool" where
  "file_ok s f \<longleftrightarrow> data_offset f + data_len f \<le> length (cpio_data s) \<and> of_pos f \<le> data_len f \<and>
     1000 \<le> of_fd f \<and> of_fd f < int (NEXT_VFS_FD s)"

text \<open>Slot \<open>i\<close> of the directory table is free or holds descriptor \<open>900 + i\<close> with a prefix that fits its array.\<close>

definition dir_ok :: "nat \<Rightarrow> dir_slot \<Rightarrow> bool" where
  "dir_ok i d \<longleftrightarrow> (ds_fd d = -1 \<or> ds_fd d = DIR_FD_BASE + int i) \<and> length (ds_prefix d) \<le> 127"

definition dirs_ok :: "dir_slot list \<Rightarrow> bool" where
  "dirs_ok ds \<longleftrightarrow> length ds = MAX_DIRS \<and> (\<forall>i<length ds. dir_ok i (ds ! i))"

definition vfs_ok :: "vfs \<Rightarrow> bool" where
  "vfs_ok s \<longleftrightarrow> length (OPEN_FILES s) = MAX_OPEN \<and> fd_invar (OPEN_FILES s) \<and> 1000 \<le> NEXT_VFS_FD s \<and>
     (\<forall>f. Some f \<in> set (OPEN_FILES s) \<longrightarrow> file_ok s f) \<and> dirs_ok (DIR_SLOTS s)"

lemma dirs_ok_upd: "dirs_ok ds \<Longrightarrow> dir_ok i d \<Longrightarrow> dirs_ok (ds[i := d])"
  by (cases "i < length ds") (auto simp: dirs_ok_def nth_list_update)

lemma fd_find_upd:
  "fd_find t fd = Some i \<Longrightarrow> of_fd f' = fd \<Longrightarrow>
   fd_lookup (t[i := Some f']) = (fd_lookup t)(fd \<mapsto> f') \<and> (fd_invar t \<longrightarrow> fd_invar (t[i := Some f']))"
proof (induction t arbitrary: i)
  case Nil
  then show ?case by (simp add: fd_find_def)
next
  case (Cons x t)
  show ?case
  proof (cases "case x of Some f \<Rightarrow> of_fd f = fd | None \<Rightarrow> False")
    case True
    then obtain f where x: "x = Some f" "of_fd f = fd" "i = 0"
      using Cons.prems by (cases x) (auto simp: fd_find_def)
    then show ?thesis
      using Cons.prems(2) by auto
  next
    case False
    then obtain k where k: "fd_find t fd = Some k" "i = Suc k"
      using Cons.prems(1) by (cases x) (auto simp: fd_find_def split: if_splits)
    note ih = Cons.IH [OF k(1) Cons.prems(2)]
    show ?thesis
    proof (cases x)
      case None
      then show ?thesis
        using ih k(2) by simp
    next
      case (Some g)
      then show ?thesis
        using ih k(2) False by auto
    qed
  qed
qed

lemma fd_find_cases:
  obtains "fd_find t fd = None" "fd_lookup t fd = None"
  | i f where "fd_find t fd = Some i" "t ! i = Some f" "fd_lookup t fd = Some f" "of_fd f = fd" "Some f \<in> set t"
proof (cases "fd_find t fd")
  case None
  then show ?thesis
    using that(1) fd_find_None_iff [of t fd] by simp
next
  case (Some i)
  then obtain f where "t ! i = Some f" "fd_lookup t fd = Some f"
    using fd_lookup_find [OF Some] by force
  then show ?thesis
    using that(2) Some fd_lookup_SomeD [of t fd f] by blast
qed

lemma vfs_okD:
  assumes "vfs_ok s"
  shows "length (OPEN_FILES s) = MAX_OPEN" "fd_invar (OPEN_FILES s)" "1000 \<le> NEXT_VFS_FD s"
    "Some f \<in> set (OPEN_FILES s) \<Longrightarrow> file_ok s f"
  using assms by (simp_all add: vfs_ok_def)

text \<open>Replacing the slot of an open file by one with the same descriptor.\<close>

lemma vfs_ok_upd:
  assumes ok: "vfs_ok s" and i: "fd_find (OPEN_FILES s) fd = Some i" and f: "of_fd f = fd" "file_ok s f"
  shows "vfs_ok (s\<lparr>OPEN_FILES := (OPEN_FILES s)[i := Some f]\<rparr>)"
proof -
  have "fd_invar ((OPEN_FILES s)[i := Some f])"
    using fd_find_upd [OF i f(1)] vfs_okD(2) [OF ok] by simp
  moreover have "file_ok s g" if "Some g \<in> set ((OPEN_FILES s)[i := Some f])" for g
    using set_update_subset [OF that] f(2) vfs_okD(4) [OF ok] by auto
  ultimately show ?thesis
    using ok by (simp add: vfs_ok_def file_ok_def)
qed

lemma vfs_ok_alloc:
  assumes ok: "vfs_ok s" and small: "NEXT_VFS_FD s < 2 ^ 31"
    and f: "of_fd f = i32_of (int (NEXT_VFS_FD s))" "data_offset f + data_len f \<le> length (cpio_data s)"
      "of_pos f \<le> data_len f"
  shows "vfs_ok (s\<lparr>NEXT_VFS_FD := NEXT_VFS_FD s + 1, OPEN_FILES := fst (fd_alloc (OPEN_FILES s) f)\<rparr>)"
    and "fd_lookup (OPEN_FILES s) (of_fd f) = None" "of_fd f = int (NEXT_VFS_FD s)"
proof -
  show fd: "of_fd f = int (NEXT_VFS_FD s)"
    using f(1) small by simp
  show fresh: "fd_lookup (OPEN_FILES s) (of_fd f) = None"
  proof (rule ccontr)
    assume "fd_lookup (OPEN_FILES s) (of_fd f) \<noteq> None"
    then obtain g where "fd_lookup (OPEN_FILES s) (of_fd f) = Some g"
      by blast
    then have "file_ok s g" "of_fd g = of_fd f"
      using fd_lookup_SomeD vfs_okD(4) [OF ok] by blast+
    then show False
      by (simp add: file_ok_def fd)
  qed
  have "file_ok (s\<lparr>NEXT_VFS_FD := NEXT_VFS_FD s + 1, OPEN_FILES := t\<rparr>) g"
    if "Some g \<in> set (fst (fd_alloc (OPEN_FILES s) f))" for g t
    using fd_alloc_set [OF that] vfs_okD(3,4) [OF ok] f fd by (force simp: file_ok_def)
  then show "vfs_ok (s\<lparr>NEXT_VFS_FD := NEXT_VFS_FD s + 1, OPEN_FILES := fst (fd_alloc (OPEN_FILES s) f)\<rparr>)"
    using ok fdt.alloc_invar [OF vfs_okD(2) [OF ok] fresh] by (simp add: vfs_ok_def)
qed

lemma vfs_ok_open: "vfs_ok s \<Longrightarrow> NEXT_VFS_FD s < 2 ^ 31 \<Longrightarrow> vfs_ok (fst (vfs_open s path))"
proof (cases "cpio_lookup (cpio_data s) path")
  case (Some p)
  assume ok: "vfs_ok s" "NEXT_VFS_FD s < 2 ^ 31"
  obtain off len where p: "p = (off, len)"
    by fastforce
  let ?f = "\<lparr>of_fd = i32_of (int (NEXT_VFS_FD s)), data_offset = off, data_len = len, of_pos = 0\<rparr>"
  have "off + len \<le> length (cpio_data s)"
    using cpio_lookup_loop_bounds Some p by (auto simp: cpio_lookup_def)
  then have "vfs_ok (s\<lparr>NEXT_VFS_FD := NEXT_VFS_FD s + 1, OPEN_FILES := fst (fd_alloc (OPEN_FILES s) ?f)\<rparr>)"
    using ok by (intro vfs_ok_alloc(1)) simp_all
  then show ?thesis
    using Some p by (auto simp: vfs_open_def Let_def split: prod.splits option.splits)
qed (simp add: vfs_open_def)

lemma vfs_ok_dup: "vfs_ok s \<Longrightarrow> NEXT_VFS_FD s < 2 ^ 31 \<Longrightarrow> vfs_ok (fst (vfs_dup s fd))"
proof (cases "fd_lookup (OPEN_FILES s) fd")
  case (Some f)
  assume ok: "vfs_ok s" "NEXT_VFS_FD s < 2 ^ 31"
  have "file_ok s f"
    using fd_lookup_SomeD [OF Some] vfs_okD(4) [OF ok(1)] by blast
  then have "vfs_ok (s\<lparr>NEXT_VFS_FD := NEXT_VFS_FD s + 1,
      OPEN_FILES := fst (fd_alloc (OPEN_FILES s) (f\<lparr>of_fd := i32_of (int (NEXT_VFS_FD s))\<rparr>))\<rparr>)"
    using ok by (intro vfs_ok_alloc(1)) (simp_all add: file_ok_def)
  then show ?thesis
    using Some by (auto simp: vfs_dup_def Let_def split: prod.splits option.splits)
qed (simp add: vfs_dup_def)

lemma vfs_ok_close: "vfs_ok s \<Longrightarrow> vfs_ok (fst (vfs_close s fd))"
  using fd_free_set [of _ "OPEN_FILES s" fd] fdt.free_invar [of "OPEN_FILES s" fd]
  by (auto simp: vfs_ok_def vfs_close_def file_ok_def fd_free_def split: option.splits)

text \<open>The three operations on a descriptor, by what the table holds for it.\<close>

lemma vfs_read_eq:
  fixes count :: nat
  assumes "fd_find (OPEN_FILES s) fd = Some i" "OPEN_FILES s ! i = Some f"
  defines "n \<equiv> min count (data_len f - of_pos f)"
  shows "vfs_read m s fd dst count =
    (if data_len f - of_pos f = 0 then (m, s, 0)
     else case copy_to_user m dst (file_bytes s f (of_pos f) n) of
       Inl _ \<Rightarrow> (m, s, EFAULT)
     | Inr m' \<Rightarrow> (m', s\<lparr>OPEN_FILES := (OPEN_FILES s)[i := Some (f\<lparr>of_pos := of_pos f + n\<rparr>)]\<rparr>, int n))"
  unfolding n_def using assms(1,2) by (simp add: vfs_read_def Let_def)

lemma vfs_ok_read: "vfs_ok s \<Longrightarrow> vfs_ok (fst (snd (vfs_read m s fd dst count)))"
proof -
  assume ok: "vfs_ok s"
  show ?thesis
  proof (rule fd_find_cases [of "OPEN_FILES s" fd])
    assume "fd_find (OPEN_FILES s) fd = None"
    then show ?thesis
      using ok by (simp add: vfs_read_def)
  next
    fix i f
    assume f: "fd_find (OPEN_FILES s) fd = Some i" "OPEN_FILES s ! i = Some f" "of_fd f = fd" "Some f \<in> set (OPEN_FILES s)"
    have "file_ok s f"
      using vfs_okD(4) [OF ok f(4)] .
    then have "vfs_ok (s\<lparr>OPEN_FILES := (OPEN_FILES s)[i := Some (f\<lparr>of_pos := of_pos f + min count (data_len f - of_pos f)\<rparr>)]\<rparr>)"
      using f(3) by (intro vfs_ok_upd [OF ok f(1)]) (auto simp: file_ok_def)
    then show ?thesis
      using ok by (simp add: vfs_read_eq [OF f(1,2)] split: sum.splits)
  qed
qed

lemma vfs_ok_lseek: "vfs_ok s \<Longrightarrow> vfs_ok (fst (vfs_lseek s fd offset whence))"
proof -
  assume ok: "vfs_ok s"
  show ?thesis
  proof (rule fd_find_cases [of "OPEN_FILES s" fd])
    assume "fd_find (OPEN_FILES s) fd = None"
    then show ?thesis
      using ok by (simp add: vfs_lseek_def)
  next
    fix i f
    assume f: "fd_find (OPEN_FILES s) fd = Some i" "OPEN_FILES s ! i = Some f" "of_fd f = fd" "Some f \<in> set (OPEN_FILES s)"
    have "vfs_ok (s\<lparr>OPEN_FILES := (OPEN_FILES s)[i := Some (f\<lparr>of_pos := min np (data_len f)\<rparr>)]\<rparr>)" for np
      using f(3) vfs_okD(4) [OF ok f(4)] by (intro vfs_ok_upd [OF ok f(1)]) (auto simp: file_ok_def)
    then show ?thesis
      using ok f(1,2) by (simp add: vfs_lseek_def Let_def)
  qed
qed

lemma vfs_ok_dirs: "vfs_ok s \<Longrightarrow> dirs_ok ds \<Longrightarrow> vfs_ok (s\<lparr>DIR_SLOTS := ds\<rparr>)"
  by (simp add: vfs_ok_def file_ok_def)

lemma vfs_ok_open_dir:
  assumes ok: "vfs_ok s"
  shows "vfs_ok (fst (open_dir s path))" "snd (open_dir s path) = -24 \<or> \<not> is_dir_fd s (snd (open_dir s path))"
proof -
  have ds: "dirs_ok (DIR_SLOTS s)" using ok by (simp add: vfs_ok_def)
  show "vfs_ok (fst (open_dir s path))"
    using ds vfs_ok_dirs [OF ok dirs_ok_upd [OF ds]] ok
    by (auto simp: open_dir_def Let_def dir_ok_def split: option.splits)
  show "snd (open_dir s path) = -24 \<or> \<not> is_dir_fd s (snd (open_dir s path))"
  proof (cases "position (\<lambda>d. ds_fd d = -1) (DIR_SLOTS s)")
    case None
    then show ?thesis by (simp add: open_dir_def)
  next
    case (Some i)
    have i: "i < length (DIR_SLOTS s)" "ds_fd (DIR_SLOTS s ! i) = -1" using position_SomeD [OF Some] by auto
    have "ds_fd (DIR_SLOTS s ! j) \<noteq> DIR_FD_BASE + int i" if "j < length (DIR_SLOTS s)" for j
    proof (cases "j = i")
      case True
      then show ?thesis using i(2) by (simp add: DIR_FD_BASE_def)
    next
      case False
      then show ?thesis using ds that by (auto simp: dirs_ok_def dir_ok_def DIR_FD_BASE_def)
    qed
    then have "\<not> is_dir_fd s (DIR_FD_BASE + int i)"
      by (auto simp: is_dir_fd_def list_ex_iff in_set_conv_nth)
    then show ?thesis using Some by (simp add: open_dir_def Let_def)
  qed
qed

lemma vfs_ok_close_dir: "vfs_ok s \<Longrightarrow> vfs_ok (fst (close_dir s fd))"
proof -
  assume ok: "vfs_ok s"
  then have "dirs_ok (DIR_SLOTS s)" by (simp add: vfs_ok_def)
  then have "dirs_ok ((DIR_SLOTS s)[i := \<lparr>ds_fd = -1, ds_prefix = [], ds_done = False\<rparr>])" for i
    by (rule dirs_ok_upd) (simp add: dir_ok_def)
  then show ?thesis
    using ok vfs_ok_dirs [OF ok] by (auto simp: close_dir_def split: option.splits)
qed

lemma vfs_ok_getdents64:
  assumes ok: "vfs_ok s" and run: "vfs_getdents64 m s fd dst count = Some (m', s', r)"
  shows "vfs_ok s'"
proof (cases "position (\<lambda>d. ds_fd d = fd) (DIR_SLOTS s)")
  case None
  then show ?thesis using ok run by (simp add: vfs_getdents64_def)
next
  case (Some i)
  have ds: "dirs_ok (DIR_SLOTS s)" and i: "i < length (DIR_SLOTS s)"
    using ok position_SomeD [OF Some] by (auto simp: vfs_ok_def)
  have "dir_ok i ((DIR_SLOTS s ! i)\<lparr>ds_done := True\<rparr>)" using ds i by (simp add: dirs_ok_def dir_ok_def)
  from vfs_ok_dirs [OF ok dirs_ok_upd [OF ds this]] show ?thesis
    using ok run Some by (auto simp: vfs_getdents64_def Let_def split: if_splits)
qed

section \<open>Properties\<close>

text \<open>
  C26: every operation that changes the file system's state keeps it well formed.  Descriptors of
  open files are unique and below the counter, every open file lies within the archive and its
  position within the file; each slot of the directory table is free or holds its own descriptor,
  with a prefix that fits.  A directory descriptor handed out was not in use.
\<close>

theorem vfs_ok_preserved:
  assumes "vfs_ok s" and "NEXT_VFS_FD s < 2 ^ 31"
  shows "vfs_ok (fst (vfs_open s path)) \<and> vfs_ok (fst (vfs_dup s fd)) \<and>
    vfs_ok (fst (snd (vfs_read m s fd dst n))) \<and> vfs_ok (fst (vfs_lseek s fd offset whence)) \<and>
    vfs_ok (fst (vfs_close s fd)) \<and> vfs_ok (fst (open_dir s path)) \<and> vfs_ok (fst (close_dir s fd)) \<and>
    (case vfs_getdents64 m s fd dst n of None \<Rightarrow> True | Some (m', s', r) \<Rightarrow> vfs_ok s') \<and>
    (snd (open_dir s path) = -24 \<or> \<not> is_dir_fd s (snd (open_dir s path)))"
  using assms vfs_ok_getdents64 [OF assms(1)]
  by (auto simp: vfs_ok_open vfs_ok_dup vfs_ok_read vfs_ok_lseek vfs_ok_close vfs_ok_open_dir vfs_ok_close_dir split: option.split)

lemma vfs_init_ok: "vfs_ok (vfs_init_state data)"
proof -
  have "fd_invar (replicate n None)" for n
    by (induction n) simp_all
  then show ?thesis
    by (simp add: vfs_ok_def vfs_init_state_def dirs_ok_def dir_ok_def)
qed

theorem vfs_ok_preserved_witness:
  "vfs_ok (fst (vfs_open (vfs_init_state (cpio_archive [(bytes_of ''a'', [7])])) (bytes_of ''/a''))) \<and>
   vfs_ok (fst (open_dir (vfs_init_state (cpio_archive [(bytes_of ''a'', [7])])) (bytes_of ''/a'')))"
  using vfs_ok_preserved [OF vfs_init_ok, of "cpio_archive [(bytes_of ''a'', [7])]" "bytes_of ''/a''"]
  by (simp add: vfs_init_state_def del: bytes_of_simps)

text \<open>A sequence of reads into the buffers \<open>(dst, n)\<close>, with the bytes each one left in its buffer.\<close>

primrec read_pieces :: "machine \<Rightarrow> vfs \<Rightarrow> int \<Rightarrow> (nat \<times> nat) list \<Rightarrow> machine \<times> vfs \<times> bytes" where
  "read_pieces m s fd [] = (m, s, [])"
| "read_pieces m s fd (b # bs) =
     (case vfs_read m s fd (fst b) (snd b) of (m1, s1, r) \<Rightarrow>
        (case read_pieces m1 s1 fd bs of (m2, s2, got) \<Rightarrow> (m2, s2, mem_read (ram m1) (fst b) (nat r) @ got)))"

lemma user_accessible_less: "user_accessible p a n \<Longrightarrow> k \<le> n \<Longrightarrow> user_accessible p a k"
  by (auto simp: user_accessible_iff)

lemma vfs_read_step:
  assumes f: "fd_lookup (OPEN_FILES s) fd = Some f" and pos: "of_pos f \<le> data_len f"
    and bounds: "data_offset f + data_len f \<le> length (cpio_data s)" and acc: "user_accessible (pg m) dst n"
  defines "k \<equiv> min n (data_len f - of_pos f)"
  obtains m1 s1 where "vfs_read m s fd dst n = (m1, s1, int k)" "mem_read (ram m1) dst k = file_bytes s f (of_pos f) k"
    "user_only m m1" "cpio_data s1 = cpio_data s" "fd_lookup (OPEN_FILES s1) fd = Some (f\<lparr>of_pos := of_pos f + k\<rparr>)"
proof -
  obtain i where i: "fd_find (OPEN_FILES s) fd = Some i" "OPEN_FILES s ! i = Some f" "of_fd f = fd"
    using f by (rule_tac fd_find_cases [of "OPEN_FILES s" fd]) auto
  have len: "length (file_bytes s f (of_pos f) k) = k"
    using bounds pos by (simp add: file_bytes_def k_def)
  have ua: "user_accessible (pg m) dst (length (file_bytes s f (of_pos f) k))"
    unfolding len by (rule user_accessible_less [OF acc]) (simp add: k_def)
  show ?thesis
  proof (cases "data_len f - of_pos f = 0")
    case True
    then have k: "k = 0" and "f\<lparr>of_pos := of_pos f + k\<rparr> = f" by (simp_all add: k_def)
    then show ?thesis
      using that [of m s] True f by (simp add: vfs_read_eq [OF i(1,2)] mem_read_def file_bytes_def)
  next
    case False
    let ?m = "m\<lparr>ram := mem_write (ram m) dst (file_bytes s f (of_pos f) k)\<rparr>"
    let ?s = "s\<lparr>OPEN_FILES := (OPEN_FILES s)[i := Some (f\<lparr>of_pos := of_pos f + k\<rparr>)]\<rparr>"
    have "vfs_read m s fd dst n = (?m, ?s, int k)"
      using False ua by (simp add: vfs_read_eq [OF i(1,2)] copy_to_user_def k_def [symmetric])
    moreover have "mem_read (ram ?m) dst k = file_bytes s f (of_pos f) k"
      using mem_read_write [of "ram m" dst "file_bytes s f (of_pos f) k"] by (simp add: len)
    moreover have "fd_lookup (OPEN_FILES ?s) fd = Some (f\<lparr>of_pos := of_pos f + k\<rparr>)"
      using fd_find_upd [OF i(1), of "f\<lparr>of_pos := of_pos f + k\<rparr>"] i(3) by simp
    ultimately show ?thesis using that [of ?m ?s] user_only_write [OF ua] by simp
  qed
qed

lemma read_pieces_content:
  assumes "fd_lookup (OPEN_FILES s) fd = Some f" "of_pos f \<le> data_len f" "data_offset f + data_len f \<le> length (cpio_data s)"
    and "\<And>dst n. (dst, n) \<in> set bs \<Longrightarrow> user_accessible (pg m) dst n" and "read_pieces m s fd bs = (m', s', got)"
  shows "got = file_bytes s f (of_pos f) (min (sum_list (map snd bs)) (data_len f - of_pos f)) \<and> user_only m m'"
  using assms
proof (induction bs arbitrary: m s f s' m' got)
  case Nil
  then show ?case by (simp add: file_bytes_def)
next
  case (Cons b bs)
  obtain dst n where b: "b = (dst, n)" by fastforce
  define k where "k = min n (data_len f - of_pos f)"
  have acc: "user_accessible (pg m) dst n" using Cons.prems(4) b by simp
  obtain m1 s1 where r: "vfs_read m s fd dst n = (m1, s1, int k)" "mem_read (ram m1) dst k = file_bytes s f (of_pos f) k"
    "user_only m m1" "cpio_data s1 = cpio_data s" "fd_lookup (OPEN_FILES s1) fd = Some (f\<lparr>of_pos := of_pos f + k\<rparr>)"
    using vfs_read_step [OF Cons.prems(1-3) acc] unfolding k_def by blast
  obtain m2 s2 got' where rest: "read_pieces m1 s1 fd bs = (m2, s2, got')"
    using prod_cases3 by blast
  have eq: "m' = m2" "got = file_bytes s f (of_pos f) k @ got'"
    using Cons.prems(5) r(1,2) rest b by auto
  let ?g = "f\<lparr>of_pos := of_pos f + k\<rparr>"
  have kle: "k \<le> data_len f - of_pos f" by (simp add: k_def)
  have pg: "pg m1 = pg m" using r(3) by (simp add: user_only_def)
  have ih: "got' = file_bytes s1 ?g (of_pos ?g) (min (sum_list (map snd bs)) (data_len ?g - of_pos ?g)) \<and> user_only m1 m2"
  proof (rule Cons.IH [OF r(5) _ _ _ rest])
    show "of_pos ?g \<le> data_len ?g" using kle Cons.prems(2) by simp
    show "data_offset ?g + data_len ?g \<le> length (cpio_data s1)" using Cons.prems(3) r(4) by simp
    show "user_accessible (pg m1) d c" if "(d, c) \<in> set bs" for d c using Cons.prems(4) that pg by simp
  qed
  have tot: "min (n + sum_list (map snd bs)) (data_len f - of_pos f) =
      k + min (sum_list (map snd bs)) (data_len f - (of_pos f + k))"
    by (auto simp: k_def min_def)
  have "got = file_bytes s f (of_pos f) (k + min (sum_list (map snd bs)) (data_len f - (of_pos f + k)))"
    using ih r(4) by (simp add: eq file_bytes_def take_add ac_simps)
  then show ?case
    using ih eq(1) user_only_trans [OF r(3)] by (simp add: b tot)
qed

text \<open>
  C27: opening a file of the embedded archive and reading it in pieces delivers its content.  With a
  free slot, opening a path that names an entry returns a fresh descriptor; any sequence of reads
  from it, of any sizes and into any buffers in user memory, delivers consecutive parts of the
  entry's content from its beginning, without loss or repetition, until the end of the file, and
  changes no memory outside user memory.
\<close>

theorem vfs_open_read:
  assumes es: "\<forall>e\<in>set es. cpio_entry_ok e" "length (cpio_archive es) < 2 ^ 63"
    and s: "vfs_ok s" "cpio_data s = cpio_archive es" "NEXT_VFS_FD s < 2 ^ 31" "fd_room (OPEN_FILES s)"
    and content: "map_of es (strip_root path) = Some content"
    and acc: "\<forall>(dst, n)\<in>set bufs. user_accessible (pg m) dst n"
    and ops: "vfs_open s path = (s1, fd)" "read_pieces m s1 fd bufs = (m', s2, got)"
  shows "fd = int (NEXT_VFS_FD s) \<and> got = take (sum_list (map snd bufs)) content \<and> user_only m m'"
proof -
  obtain off where l: "cpio_lookup (cpio_archive es) path = Some (off, length content)"
    and c: "subslice (cpio_archive es) off (off + length content) = content"
    using cpio_lookup_entries [of "[]" "cpio_archive es" es "strip_root path"] es content
    by (auto simp: cpio_lookup_def cpio_archive_def simp del: bytes_of_simps)
  let ?f = "\<lparr>of_fd = i32_of (int (NEXT_VFS_FD s)), data_offset = off, data_len = length content, of_pos = 0\<rparr>"
  have bounds: "off + length content \<le> length (cpio_data s)"
    using cpio_lookup_loop_bounds l s(2) by (auto simp: cpio_lookup_def)
  have a: "vfs_ok (s\<lparr>NEXT_VFS_FD := NEXT_VFS_FD s + 1, OPEN_FILES := fst (fd_alloc (OPEN_FILES s) ?f)\<rparr>)"
    "fd_lookup (OPEN_FILES s) (of_fd ?f) = None" "of_fd ?f = int (NEXT_VFS_FD s)"
    using bounds s(1,3) by (intro vfs_ok_alloc; simp)+
  obtain i where al: "fd_alloc (OPEN_FILES s) ?f = ((OPEN_FILES s)[i := Some ?f], Some i)"
    using fd_alloc_room [OF s(4), of ?f] by blast
  have s1: "s1 = s\<lparr>NEXT_VFS_FD := NEXT_VFS_FD s + 1, OPEN_FILES := fst (fd_alloc (OPEN_FILES s) ?f)\<rparr>"
    and fd: "fd = int (NEXT_VFS_FD s)"
    using ops(1) s(2,3) l al by (auto simp: vfs_open_def Let_def)
  have look: "fd_lookup (OPEN_FILES s1) fd = Some ?f"
    using fdt.alloc_abs [OF vfs_okD(2) [OF s(1)] s(4) a(2)] fd a(3) by (simp add: s1)
  have "got = file_bytes s1 ?f 0 (min (sum_list (map snd bufs)) (length content))" and uo: "user_only m m'"
    using read_pieces_content [OF look _ _ _ ops(2)] bounds acc by (auto simp: s1)
  moreover have "file_bytes s1 ?f 0 k = take k content" if "k \<le> length content" for k
    using arg_cong [OF c, of "take k"] that by (simp add: file_bytes_def s1 s(2) subslice_def min_absorb1)
  ultimately have "got = take (min (sum_list (map snd bufs)) (length content)) content" by simp
  also have "\<dots> = take (sum_list (map snd bufs)) content" by (simp add: min_def)
  finally show ?thesis using fd uo by simp
qed

theorem vfs_open_read_witness:
  "let es = [(bytes_of ''a'', [7, 8, 9])]; s = vfs_init_state (cpio_archive es);
       m = \<lparr>pg = example_paging, ram = (\<lambda>_. 0)\<rparr>;
       (s1, fd) = vfs_open s (bytes_of ''/a''); (m', s2, got) = read_pieces m s1 fd [(0x1B000000, 2), (0x1B000100, 50)]
   in fd = 1000 \<and> got = [7, 8, 9]"
proof -
  let ?es = "[(bytes_of ''a'', [7, 8, 9])] :: (bytes \<times> bytes) list"
  let ?s = "vfs_init_state (cpio_archive ?es)" and ?m = "\<lparr>pg = example_paging, ram = (\<lambda>_. 0)\<rparr> :: machine"
  let ?b = "[(0x1B000000, 2), (0x1B000100, 50)] :: (nat \<times> nat) list"
  obtain s1 fd where o: "vfs_open ?s (bytes_of ''/a'') = (s1, fd)"
    by fastforce
  obtain m' s2 got where rd: "read_pieces ?m s1 fd ?b = (m', s2, got)"
    using prod_cases3 by blast
  have es: "\<forall>e\<in>set ?es. cpio_entry_ok e" "length (cpio_archive ?es) < 2 ^ 63"
    by (simp_all add: cpio_entry_ok_def cpio_archive_def length_cpio_entry align_up_def)
  have path: "map_of ?es (strip_root (bytes_of ''/a'')) = Some [7, 8, 9]"
    by (simp add: strip_root_def starts_with_def)
  have s: "cpio_data ?s = cpio_archive ?es" "NEXT_VFS_FD ?s < 2 ^ 31" "NEXT_VFS_FD ?s = 1000" "fd_room (OPEN_FILES ?s)"
    by (simp_all add: vfs_init_state_def fd_room_def MAX_OPEN_def del: bytes_of_simps)
  have acc: "\<forall>(dst, n)\<in>set ?b. user_accessible (pg ?m) dst n"
    using example_user_accessible [of "0x1B000000" 2] example_user_accessible [of "0x1B000100" 50] by simp
  show ?thesis
    using vfs_open_read [OF es vfs_init_ok s(1,2,4) path acc o rd] o rd unfolding s(3)
    by (simp add: Let_def del: bytes_of_simps read_pieces.simps)
qed

text \<open>
  C28: \<open>pread\<close> bypasses the guarded path.  For an open file, an offset inside it and a non-empty
  buffer, a pointer to memory the program can access makes the kernel fault, which stops the
  machine, while a pointer to memory mapped for the kernel only is accepted and the kernel
  overwrites that memory with the file's bytes; \<open>read\<close> with the same pointer is refused.
\<close>

theorem vfs_pread_unguarded:
  fixes n :: nat
  assumes "fd_lookup (OPEN_FILES s) fd = Some f" and "offset < data_len f"
    and "data_offset f + data_len f \<le> length (cpio_data s)" and "0 < n"
  defines "k \<equiv> min n (data_len f - offset)"
  shows "(user_accessible (pg m) dst k \<longrightarrow> vfs_pread m s fd dst n offset = None) \<and>
    ((\<forall>i<k. supervisor_page (pg m) (dst + i)) \<longrightarrow>
      vfs_pread m s fd dst n offset = Some (m\<lparr>ram := mem_write (ram m) dst (file_bytes s f offset k)\<rparr>, int k) \<and>
      0 < k \<and> length (file_bytes s f offset k) = k \<and>
      (of_pos f < data_len f \<longrightarrow> vfs_read m s fd dst n = (m, s, EFAULT)))"
proof -
  obtain i where i: "fd_find (OPEN_FILES s) fd = Some i" "OPEN_FILES s ! i = Some f"
    using assms(1) by (rule_tac fd_find_cases [of "OPEN_FILES s" fd]) auto
  have pr: "vfs_pread m s fd dst n offset = map_option (\<lambda>m'. (m', int k)) (kernel_store m dst (file_bytes s f offset k))"
    using i assms(2) by (simp add: vfs_pread_def Let_def k_def)
  have k: "length (file_bytes s f offset k) = k" "0 < k"
    using assms(2-4) by (simp_all add: file_bytes_def k_def)
  then have ne: "file_bytes s f offset k \<noteq> []" by auto
  have "vfs_read m s fd dst n = (m, s, EFAULT)" if pos: "of_pos f < data_len f" and sup: "\<forall>i<k. supervisor_page (pg m) (dst + i)"
  proof -
    let ?b = "file_bytes s f (of_pos f) (min n (data_len f - of_pos f))"
    have "length ?b = min n (data_len f - of_pos f)"
      using assms(3) pos by (simp add: file_bytes_def)
    then have "0 < length ?b"
      using pos assms(4) by simp
    moreover have "\<not> hw_user (pg m) dst"
      using sup k(2) supervisor_not_user [of "pg m" "dst + 0"] by auto
    ultimately have "\<not> user_accessible (pg m) dst (length ?b)"
      by (auto simp: user_accessible_iff)
    then show ?thesis
      using pos by (simp add: vfs_read_eq [OF i] copy_to_user_def)
  qed
  moreover have "vfs_pread m s fd dst n offset = None" if "user_accessible (pg m) dst k"
    unfolding pr using kernel_store_user [of m dst, OF _ ne] that k(1) by simp
  moreover have "vfs_pread m s fd dst n offset = Some (m\<lparr>ram := mem_write (ram m) dst (file_bytes s f offset k)\<rparr>, int k)"
    if "\<forall>i<k. supervisor_page (pg m) (dst + i)"
    unfolding pr using that k(1) by (simp add: kernel_store_def list_all_iff)
  ultimately show ?thesis using k by blast
qed

lemma example_supervisor: "supervisor_page example_paging 0x0F400000"
proof -
  have "kernel_paging example_layout example_paging" by (simp add: kernel_paging.boot)
  from reachable_walk [OF example_layout_ok this, of "0x0F400000"]
  show ?thesis
    by (auto simp: supervisor_page_def beam_range_def KSTACK_ARENA_BASE_def KSTACK_ARENA_SIZE_def TWO_MIB_def GIB_def)
qed

theorem vfs_pread_unguarded_witness:
  "let f = \<lparr>of_fd = 1000, data_offset = 0, data_len = 2, of_pos = 0\<rparr>;
       s = \<lparr>cpio_data = [7, 8], NEXT_VFS_FD = 1001, OPEN_FILES = [Some f], DIR_SLOTS = []\<rparr>;
       m = \<lparr>pg = example_paging, ram = (\<lambda>_. 0)\<rparr>
   in vfs_pread m s 1000 0x1B000000 1 0 = None \<and>
      vfs_pread m s 1000 0x0F400000 1 0 = Some (m\<lparr>ram := mem_write (\<lambda>_. 0) 0x0F400000 [7]\<rparr>, 1) \<and>
      vfs_read m s 1000 0x0F400000 1 = (m, s, EFAULT)"
proof -
  let ?f = "\<lparr>of_fd = 1000, data_offset = 0, data_len = 2, of_pos = 0\<rparr> :: open_file"
  let ?s = "\<lparr>cpio_data = [7, 8], NEXT_VFS_FD = 1001, OPEN_FILES = [Some ?f], DIR_SLOTS = []\<rparr> :: vfs"
  let ?m = "\<lparr>pg = example_paging, ram = (\<lambda>_. 0)\<rparr> :: machine"
  have u: "user_accessible (pg ?m) 0x1B000000 1"
    using example_user_accessible [of "0x1B000000" 1] by simp
  have k: "min 1 (data_len ?f - 0) = 1" and b: "file_bytes ?s ?f 0 1 = [7]"
    by (simp_all add: file_bytes_def)
  have v: "\<forall>i<1. supervisor_page (pg ?m) (0x0F400000 + i)"
    using example_supervisor by simp
  show ?thesis
    using vfs_pread_unguarded [of ?s 1000 ?f 0 1 ?m "0x1B000000"] vfs_pread_unguarded [of ?s 1000 ?f 0 1 ?m "0x0F400000"] u v
    unfolding k b by (simp add: Let_def)
qed

text \<open>
  the archive scans of \<open>vfs.rs\<close> are less careful than \<open>cpio::lookup\<close>.  On a header whose name
  size field is zero, the lookup answers that there is no such file, while counting the entries at
  start-up, testing for a directory prefix and listing a directory all panic.
\<close>

theorem vfs_scan_panics:
  assumes "scan_magic data 0" and "scan_namesize data 0 = 0" and "110 < length data"
  shows "vfs_init_count data 0 = None \<and> dir_prefix_scan data prefix 0 = None \<and>
    fill_dir_entries m data dst n prefix 0 0 [] = None \<and> cpio_lookup data path = None"
proof -
  have "cpio_lookup data path = None"
    unfolding cpio_lookup_def
    using assms by (subst cpio_lookup_loop.simps) (simp add: scan_magic_def scan_namesize_def del: bytes_of_simps)
  moreover have "vfs_init_count data 0 = None"
    using assms by (subst vfs_init_count.simps) simp
  moreover have "dir_prefix_scan data prefix 0 = None"
    using assms by (subst dir_prefix_scan.simps) simp
  moreover have "fill_dir_entries m data dst n prefix 0 0 [] = None"
    using assms by (subst fill_dir_entries.simps) simp
  ultimately show ?thesis by simp
qed

theorem vfs_scan_panics_witness:
  "vfs_init_count (cpio_header 0 0 @ [0]) 0 = None \<and> cpio_lookup (cpio_header 0 0 @ [0]) (bytes_of ''a'') = None"
proof -
  let ?d = "cpio_header 0 0 @ [0]"
  let ?magic = "bytes_of ''070701''" and ?z6 = "concat (replicate 6 (hex8 0))" and ?z4 = "concat (replicate 4 (hex8 0))"
  have z: "length ?z6 = 48" "length ?z4 = 32"
    by (simp_all add: length_concat map_replicate sum_list_replicate)
  have magic: "scan_magic ?d 0"
    unfolding scan_magic_def
    by (rule slice_mid [where xs = "[]" and zs = "drop 6 ?d"]) (simp_all add: cpio_header_def length_magic del: bytes_of_simps)
  have "subslice ?d (0 + 94) (0 + 102) = hex8 0"
    by (rule slice_mid [where xs = "?magic @ ?z6 @ hex8 0 @ ?z4" and zs = "hex8 0 @ [0]"])
      (simp_all add: cpio_header_def z length_magic del: bytes_of_simps)
  then have "scan_namesize ?d 0 = 0"
    using parse_hex8 [of 0] by (simp add: scan_namesize_def)
  then show ?thesis
    using vfs_scan_panics [OF magic, of "[]" undefined 0 0 "bytes_of ''a''"] by (simp del: bytes_of_simps)
qed

text \<open>
  a directory can be listed only once, whether or not the first call could deliver it all:
  after a call that returned, including one that stopped because the buffer was full or faulty,
  the next call on the handle reports the end of the directory.
\<close>

theorem getdents64_once:
  assumes "vfs_getdents64 m s fd dst n = Some (m1, s1, r)" and "is_dir_fd s fd"
  shows "vfs_getdents64 m1 s1 fd dst' n' = Some (m1, s1, 0)"
proof -
  obtain i where i: "position (\<lambda>d. ds_fd d = fd) (DIR_SLOTS s) = Some i"
    using assms(2) by (cases "position (\<lambda>d. ds_fd d = fd) (DIR_SLOTS s)")
      (auto simp: is_dir_fd_def list_ex_iff position_None_iff)
  show ?thesis
  proof (cases "ds_done (DIR_SLOTS s ! i)")
    case True
    then show ?thesis
      using assms(1) i by (auto simp: vfs_getdents64_def Let_def)
  next
    case False
    have len: "i < length (DIR_SLOTS s)" and hit: "ds_fd (DIR_SLOTS s ! i) = fd"
      using position_SomeD [OF i] by simp_all
    have s1: "s1 = s\<lparr>DIR_SLOTS := (DIR_SLOTS s)[i := (DIR_SLOTS s ! i)\<lparr>ds_done := True\<rparr>]\<rparr>"
      using assms(1) i False by (auto simp: vfs_getdents64_def Let_def)
    have "position (\<lambda>d. ds_fd d = fd) (DIR_SLOTS s1) = Some i"
      using position_SomeD [OF i] by (intro position_SomeI) (simp_all add: s1 nth_list_update)
    then show ?thesis
      using len by (simp add: vfs_getdents64_def s1)
  qed
qed

theorem getdents64_once_witness:
  "let s = \<lparr>cpio_data = [], NEXT_VFS_FD = 1000, OPEN_FILES = [],
            DIR_SLOTS = [\<lparr>ds_fd = 900, ds_prefix = [], ds_done = False\<rparr>]\<rparr>;
       m = \<lparr>pg = paging_static example_layout, ram = (\<lambda>_. 0)\<rparr>
   in \<exists>s1. vfs_getdents64 m s 900 0 0 = Some (m, s1, 0) \<and> vfs_getdents64 m s1 900 0x1B000000 4096 = Some (m, s1, 0)"
proof -
  let ?s = "\<lparr>cpio_data = [], NEXT_VFS_FD = 1000, OPEN_FILES = [],
            DIR_SLOTS = [\<lparr>ds_fd = 900, ds_prefix = [], ds_done = False\<rparr>]\<rparr> :: vfs"
  let ?m = "\<lparr>pg = paging_static example_layout, ram = (\<lambda>_. 0)\<rparr> :: machine"
  let ?s1 = "?s\<lparr>DIR_SLOTS := [\<lparr>ds_fd = 900, ds_prefix = [], ds_done = True\<rparr>]\<rparr>"
  have first: "vfs_getdents64 ?m ?s 900 0 0 = Some (?m, ?s1, 0)"
    by (simp add: vfs_getdents64_def fill_dir_entries.simps)
  show ?thesis
    using getdents64_once [OF first] first by (auto simp: is_dir_fd_def Let_def)
qed

end
