(* ===== verification/Tmpfs_Tree.thy ===== *)
theory Tmpfs_Tree
  imports Prelude
begin

text \<open>
  The pure path and byte-cap logic of \<open>src/src/tmpfs_tree.rs\<close>: normalisation, the parent walk,
  the mount and descendant predicates, and the number of bytes a write may place.
\<close>

section \<open>Definitions\<close>

abbreviation slash :: u8 where "slash \<equiv> 0x2F"

definition norm_absolute :: "bytes \<Rightarrow> bytes" where
  "norm_absolute path =
     (let p = (if starts_with path (bytes_of ''./'') then drop 1 path else path)
      in if starts_with p (bytes_of ''/'') then p else slash # p)"

text \<open>The loop that pops trailing slashes while more than one byte is left.\<close>

function pop_slashes :: "bytes \<Rightarrow> bytes" where
  "pop_slashes v = (if 1 < length v \<and> last v = slash then pop_slashes (butlast v) else v)"
  by pat_completeness auto
termination
  by (relation "measure length") auto

declare pop_slashes.simps [simp del]

definition norm :: "bytes \<Rightarrow> bytes" where
  "norm path = pop_slashes (norm_absolute path)"

definition parent :: "bytes \<Rightarrow> bytes" where
  "parent path =
     (case rposition (\<lambda>c. c = slash) path of
        Some i \<Rightarrow> if i = 0 then bytes_of ''/'' else take i path
      | None \<Rightarrow> bytes_of ''/'')"

definition is_mount_path :: "bytes \<Rightarrow> bool" where
  "is_mount_path n \<longleftrightarrow> n = bytes_of ''/tmp'' \<or> starts_with n (bytes_of ''/tmp/'') \<or>
     n = bytes_of ''/dev/shm'' \<or> starts_with n (bytes_of ''/dev/shm/'')"

definition is_under :: "bytes \<Rightarrow> bytes \<Rightarrow> bool" where
  "is_under key dir \<longleftrightarrow> length dir < length key \<and> starts_with key dir \<and> key ! length dir = slash"

definition grant_write :: "nat \<Rightarrow> nat \<Rightarrow> nat \<Rightarrow> nat \<Rightarrow> nat \<Rightarrow> nat" where
  "grant_write tot cap at len count =
     (let allowed_grow = cap - tot;
          max_n = (if len \<le> at then allowed_grow - (at - len) else (len - at) + allowed_grow)
      in min count max_n)"

section \<open>Paths\<close>

text \<open>A canonical path begins with a slash and, unless it is the root, does not end in one.\<close>

definition canonical :: "bytes \<Rightarrow> bool" where
  "canonical n \<longleftrightarrow> n \<noteq> [] \<and> hd n = slash \<and> (1 < length n \<longrightarrow> last n \<noteq> slash)"

lemma starts_slash: "starts_with p (bytes_of ''/'') \<longleftrightarrow> p \<noteq> [] \<and> hd p = slash"
  by (cases p) (auto simp: starts_with_def)

lemma starts_dot_slash: "starts_with p (bytes_of ''./'') \<longleftrightarrow> (\<exists>q. p = 0x2E # slash # q)"
  by (auto simp: starts_with_iff)

lemma norm_absolute_hd: "norm_absolute path \<noteq> [] \<and> hd (norm_absolute path) = slash"
  by (auto simp: norm_absolute_def Let_def starts_slash simp del: bytes_of_simps)

lemma pop_slashes_canonical: "v \<noteq> [] \<Longrightarrow> hd v = slash \<Longrightarrow> canonical (pop_slashes v)"
proof (induction v rule: pop_slashes.induct)
  case (1 v)
  show ?case
  proof (cases "1 < length v \<and> last v = slash")
    case True
    then have "butlast v \<noteq> []" "hd (butlast v) = slash"
      using 1(3) by (cases v; auto)+
    with 1(1) [OF True] True show ?thesis
      by (subst pop_slashes.simps) simp
  next
    case False
    then show ?thesis
      using 1(2,3) by (subst pop_slashes.simps) (auto simp: canonical_def)
  qed
qed

lemma canonical_norm: "canonical (norm path)"
  using norm_absolute_hd [of path] by (simp add: norm_def pop_slashes_canonical)

lemma norm_canonical: "canonical n \<Longrightarrow> norm n = n"
proof -
  assume c: "canonical n"
  then have "norm_absolute n = n"
    by (auto simp: norm_absolute_def Let_def starts_slash starts_dot_slash canonical_def simp del: bytes_of_simps)
  with c show ?thesis
    by (subst norm_def) (auto simp: canonical_def pop_slashes.simps [of n])
qed

lemma norm_idem [simp]: "norm (norm path) = norm path"
  by (rule norm_canonical [OF canonical_norm])

text \<open>A canonical path is its parent, a slash and a last component without slashes.\<close>

lemma parent_split:
  assumes "canonical n" "1 < length n"
  obtains name where "name \<noteq> []" "slash \<notin> set name"
    "n = parent n @ slash # name \<or> parent n = bytes_of ''/'' \<and> n = slash # name"
proof -
  obtain i where i: "rposition (\<lambda>c. c = slash) n = Some i"
    using assms(1) by (cases "rposition (\<lambda>c. c = slash) n")
      (auto simp: rposition_None_iff canonical_def dest: hd_in_set)
  have r: "i < length n" "n ! i = slash" "\<And>j. i < j \<Longrightarrow> j < length n \<Longrightarrow> n ! j \<noteq> slash"
    using i unfolding rposition_Some_iff by blast+
  let ?name = "drop (Suc i) n"
  have n: "n = take i n @ slash # ?name"
    using id_take_nth_drop [OF r(1)] r(2) by simp
  have "last n \<noteq> slash"
    using assms by (simp add: canonical_def)
  then have ne: "?name \<noteq> []"
    using n by (metis last_snoc)
  have ns: "slash \<notin> set ?name"
    using r(3) by (auto simp: in_set_conv_nth)
  have p: "parent n = (if i = 0 then bytes_of ''/'' else take i n)"
    using i by (simp add: parent_def)
  show thesis
    using that [OF ne ns] n p by (cases "i = 0") auto
qed

lemma length_parent: "canonical n \<Longrightarrow> 1 < length n \<Longrightarrow> length (parent n) < length n"
  by (rule parent_split [of n]) (auto dest: arg_cong [of _ _ length])

lemma is_under_iff: "is_under key dir \<longleftrightarrow> (\<exists>rest. key = dir @ slash # rest)"
proof
  assume u: "is_under key dir"
  then have "key = take (length dir) key @ key ! length dir # drop (Suc (length dir)) key"
    by (intro id_take_nth_drop) (simp add: is_under_def)
  then show "\<exists>rest. key = dir @ slash # rest"
    using u unfolding is_under_def starts_with_def by metis
next
  assume "\<exists>rest. key = dir @ slash # rest"
  then show "is_under key dir"
    by (auto simp: is_under_def)
qed

lemma is_under_trans: "is_under a b \<Longrightarrow> is_under b c \<Longrightarrow> is_under a c"
  by (auto simp: is_under_iff)

lemma is_under_irrefl: "\<not> is_under a a"
  by (simp add: is_under_def)

lemma is_under_parent:
  assumes "canonical n" "1 < length n" "parent n \<noteq> bytes_of ''/''"
  shows "is_under n (parent n)"
  using assms(3) by (rule_tac parent_split [OF assms(1,2)]) (auto simp: is_under_iff)

lemma mount_path_iff:
  "is_mount_path n \<longleftrightarrow> (\<exists>m\<in>{bytes_of ''/tmp'', bytes_of ''/dev/shm''}. n = m \<or> is_under n m)"
  by (auto simp: is_mount_path_def is_under_iff starts_with_iff)

section \<open>The byte cap\<close>

text \<open>The growth that placing \<open>n\<close> bytes at \<open>at\<close> needs in a file of length \<open>len\<close>.\<close>

definition growth :: "nat \<Rightarrow> nat \<Rightarrow> nat \<Rightarrow> nat" where
  "growth at len n = (at + n) - len"

lemma grant_write_le: "grant_write tot cap at len count \<le> count"
  by (simp add: grant_write_def Let_def)

lemma grant_write_fits:
  "tot \<le> cap \<Longrightarrow> 0 < grant_write tot cap at len count \<Longrightarrow>
   tot + growth at len (grant_write tot cap at len count) \<le> cap"
  by (auto simp: grant_write_def Let_def growth_def min_def split: if_splits)

section \<open>Properties\<close>

text \<open>
  the byte cap.  The number of bytes granted to a write is the largest number not above the
  count for which the growth of the file, including the zero-filled gap of a write past the end,
  stays within the cap; overwriting existing bytes is always granted.
\<close>

theorem grant_write_maximal:
  assumes "tot \<le> cap" and "n = grant_write tot cap at len count"
  shows "n \<le> count \<and> (0 < n \<longrightarrow> tot + growth at len n \<le> cap) \<and>
    (\<forall>k. n < k \<and> k \<le> count \<longrightarrow> cap < tot + growth at len k) \<and>
    (at + count \<le> len \<longrightarrow> n = count)"
  using assms by (auto simp: grant_write_def Let_def growth_def min_def split: if_splits)

theorem grant_write_maximal_witness:
  "grant_write 10 12 5 3 4 = 0 \<and> grant_write 10 14 5 3 4 = 2 \<and> grant_write 14 14 1 3 2 = 2 \<and>
   14 < 10 + growth 5 3 3"
  using grant_write_maximal [of 10 14 2 5 3 4] grant_write_maximal [of 10 12 0 5 3 4]
    grant_write_maximal [of 14 14 2 1 3 2]
  by (simp add: grant_write_def)

text \<open>
  path normalisation and the parent walk.  Normalisation is idempotent and yields an absolute
  path without a trailing slash; below the root, a normalised path is its parent followed by a
  slash and a non-empty last component that contains no slash, so that walking to the parent always
  shortens the path and the path lies under its parent.
\<close>

theorem norm_parent_canonical:
  "let n = norm path in norm n = n \<and> hd n = slash \<and> (n = bytes_of ''/'' \<or> last n \<noteq> slash) \<and>
     (n \<noteq> bytes_of ''/'' \<longrightarrow>
        (\<exists>name. name \<noteq> [] \<and> slash \<notin> set name \<and>
           (n = parent n @ slash # name \<or> parent n = bytes_of ''/'' \<and> n = slash # name)) \<and>
        length (parent n) < length n)"
proof -
  define n where "n = norm path"
  have c: "canonical n"
    by (simp add: n_def canonical_norm)
  have root: "n = bytes_of ''/'' \<longleftrightarrow> \<not> 1 < length n"
    using c by (cases n) (auto simp: canonical_def)
  show ?thesis
    unfolding Let_def n_def [symmetric] root
    using c length_parent [OF c] parent_split [OF c] norm_canonical [OF c] unfolding canonical_def by metis
qed

theorem norm_parent_canonical_witness:
  "norm (bytes_of ''./tmp/a//'') = bytes_of ''/tmp/a'' \<and> parent (bytes_of ''/tmp/a'') = bytes_of ''/tmp'' \<and>
   norm (bytes_of ''/tmp/a'') = bytes_of ''/tmp/a''"
proof -
  have n: "norm (bytes_of ''./tmp/a//'') = bytes_of ''/tmp/a''"
    by (simp add: norm_def norm_absolute_def starts_with_def pop_slashes.simps)
  have p: "parent (bytes_of ''/tmp/a'') = bytes_of ''/tmp''"
    by (simp add: parent_def rposition_def)
  show ?thesis
    using norm_parent_canonical [of "bytes_of ''./tmp/a//''"] n p by (simp add: Let_def del: bytes_of_simps)
qed

end
