(* ===== verification/Tmpfs.thy ===== *)
theory Tmpfs
  imports Tmpfs_Tree Uaccess "HOL-Library.List_Lexorder"
begin

text \<open>
  The writable in-memory file system under \<open>/tmp\<close> and \<open>/dev/shm\<close> (\<open>src/src/tmpfs.rs\<close>).  The state
  is the mounted file system; the code's \<open>Option\<close> around it is \<open>Some\<close> from start-up on.  The node
  store, a \<open>BTreeMap\<close>, is an association list kept sorted by path.  Every operation is one
  function; the lock makes each of them atomic.
\<close>

unbundle bit_operations_syntax

section \<open>The ordered map\<close>

definition bt_get :: "('k \<times> 'v) list \<Rightarrow> 'k \<Rightarrow> 'v option" where
  "bt_get t k = map_of t k"

primrec bt_insert :: "'k::linorder \<Rightarrow> 'v \<Rightarrow> ('k \<times> 'v) list \<Rightarrow> ('k \<times> 'v) list" where
  "bt_insert k v [] = [(k, v)]"
| "bt_insert k v (x # xs) =
     (if fst x = k then (k, v) # xs else if k < fst x then (k, v) # x # xs else x # bt_insert k v xs)"

definition bt_remove :: "'k \<Rightarrow> ('k \<times> 'v) list \<Rightarrow> ('k \<times> 'v) list" where
  "bt_remove k t = filter (\<lambda>x. fst x \<noteq> k) t"

text \<open>\<open>get_mut\<close> followed by an update in place.\<close>

definition bt_modify :: "'k \<Rightarrow> ('v \<Rightarrow> 'v) \<Rightarrow> ('k \<times> 'v) list \<Rightarrow> ('k \<times> 'v) list" where
  "bt_modify k f t = map (\<lambda>x. if fst x = k then (fst x, f (snd x)) else x) t"

section \<open>State\<close>

definition CAP :: nat where "CAP = 4 * 1024 * 1024"
definition TMPFS_FD_BASE :: int where "TMPFS_FD_BASE = 4000"
definition TMPFS_MAX_OPEN :: nat where "TMPFS_MAX_OPEN = 256"

definition O_WRONLY :: u64 where "O_WRONLY = 1"
definition O_RDWR :: u64 where "O_RDWR = 2"
definition O_CREAT :: u64 where "O_CREAT = 64"
definition O_EXCL :: u64 where "O_EXCL = 128"
definition O_TRUNC :: u64 where "O_TRUNC = 512"
definition O_APPEND :: u64 where "O_APPEND = 1024"
definition O_DIRECTORY :: u64 where "O_DIRECTORY = 65536"

definition ENOENT :: int where "ENOENT = -2"
definition EBADF :: int where "EBADF = -9"
definition EEXIST :: int where "EEXIST = -17"
definition ENOTDIR :: int where "ENOTDIR = -20"
definition EISDIR :: int where "EISDIR = -21"
definition ENOSPC :: int where "ENOSPC = -28"
definition ENOTEMPTY :: int where "ENOTEMPTY = -39"
definition EMFILE :: int where "EMFILE = -24"

lemmas errno_defs = ENOENT_def EBADF_def EEXIST_def ENOTDIR_def EISDIR_def ENOSPC_def ENOTEMPTY_def
  EMFILE_def EFAULT_def

record node =
  nd_is_dir :: bool
  nd_data :: bytes
  nd_mode :: nat

record open_fd =
  o_fd :: int
  o_path :: bytes
  o_pos :: nat
  o_append :: bool
  o_writable :: bool
  o_is_dir :: bool
  o_dir_pos :: nat

record tmpfs =
  nodes :: "(bytes \<times> node) list"
  tot :: nat
  opens :: "open_fd list"
  NEXT_FD :: int

definition dir_node :: "nat \<Rightarrow> node" where
  "dir_node perm = \<lparr>nd_is_dir = True, nd_data = [], nd_mode = perm\<rparr>"

definition tmpfs_init :: tmpfs where
  "tmpfs_init = \<lparr>nodes = bt_insert (bytes_of ''/dev/shm'') (dir_node 0x1FF)
       (bt_insert (bytes_of ''/tmp'') (dir_node 0x1FF) []),
     tot = 0, opens = [], NEXT_FD = TMPFS_FD_BASE\<rparr>"

definition owns_path :: "bytes \<Rightarrow> bool" where
  "owns_path path \<longleftrightarrow> is_mount_path (norm path)"

definition is_tmpfs_fd :: "tmpfs \<Rightarrow> int \<Rightarrow> bool" where
  "is_tmpfs_fd s fd \<longleftrightarrow> \<not> fd < TMPFS_FD_BASE \<and> list_ex (\<lambda>x. o_fd x = fd) (opens s)"

section \<open>Status\<close>

definition stat_bytes :: "nat \<Rightarrow> nat \<Rightarrow> bytes" where
  "stat_bytes mode sz =
     replicate 16 0 @ le_bytes 8 (if bit mode 14 then 2 else 1) @ le_bytes 4 mode @ replicate 20 0 @
     le_bytes 8 sz @ le_bytes 8 4096 @ replicate 80 0"

definition write_stat :: "machine \<Rightarrow> nat \<Rightarrow> nat \<Rightarrow> nat \<Rightarrow> machine \<times> int" where
  "write_stat m dst mode sz =
     (if dst = 0 then (m, 0)
      else case copy_to_user m dst (stat_bytes mode sz) of Inl e \<Rightarrow> (m, e) | Inr m' \<Rightarrow> (m', 0))"

definition node_stat :: "machine \<Rightarrow> node \<Rightarrow> nat \<Rightarrow> machine \<times> int" where
  "node_stat m nd dst =
     (if nd_is_dir nd then write_stat m dst (0x4000 + nd_mode nd mod 4096) 4096
      else write_stat m dst (0x8000 + nd_mode nd mod 4096) (length (nd_data nd)))"

definition tmpfs_stat :: "machine \<Rightarrow> tmpfs \<Rightarrow> bytes \<Rightarrow> nat \<Rightarrow> machine \<times> int" where
  "tmpfs_stat m s path dst =
     (case bt_get (nodes s) (norm path) of Some nd \<Rightarrow> node_stat m nd dst | None \<Rightarrow> (m, ENOENT))"

section \<open>Opening\<close>

definition alloc_open :: "tmpfs \<Rightarrow> bytes \<Rightarrow> nat \<Rightarrow> bool \<Rightarrow> bool \<Rightarrow> bool \<Rightarrow> tmpfs \<times> int" where
  "alloc_open s path at app wr dir =
     (s\<lparr>NEXT_FD := i32_of (NEXT_FD s + 1),
        opens := opens s @ [\<lparr>o_fd = NEXT_FD s, o_path = path, o_pos = at, o_append = app,
                             o_writable = wr, o_is_dir = dir, o_dir_pos = 0\<rparr>]\<rparr>, NEXT_FD s)"

definition tmpfs_open :: "tmpfs \<Rightarrow> bytes \<Rightarrow> u64 \<Rightarrow> nat \<Rightarrow> tmpfs \<times> int" where
  "tmpfs_open s path flags mode =
     (let n = norm path in
      if TMPFS_MAX_OPEN \<le> length (opens s) then (s, EMFILE)
      else
        (let acc = flags AND 3; writable = (acc = O_WRONLY \<or> acc = O_RDWR) in
         case bt_get (nodes s) n of
           Some nd \<Rightarrow>
             if flags AND O_CREAT \<noteq> 0 \<and> flags AND O_EXCL \<noteq> 0 then (s, EEXIST)
             else if nd_is_dir nd then
               if writable then (s, EISDIR) else alloc_open s n 0 False False True
             else if flags AND O_DIRECTORY \<noteq> 0 then (s, ENOTDIR)
             else
               (let s1 = (if flags AND O_TRUNC \<noteq> 0 \<and> writable
                          then s\<lparr>tot := tot s - length (nd_data nd),
                                 nodes := bt_modify n (\<lambda>nd. nd\<lparr>nd_data := []\<rparr>) (nodes s)\<rparr>
                          else s);
                    app = (flags AND O_APPEND \<noteq> 0);
                    at = (if app then (case bt_get (nodes s1) n of Some nd \<Rightarrow> length (nd_data nd) | None \<Rightarrow> 0)
                          else 0)
                in alloc_open s1 n at app writable False)
         | None \<Rightarrow>
             if flags AND O_CREAT = 0 then (s, ENOENT)
             else if flags AND O_DIRECTORY \<noteq> 0 then (s, ENOENT)
             else
               (case bt_get (nodes s) (parent n) of
                  Some p \<Rightarrow>
                    if nd_is_dir p then
                      (let perm = mode mod 4096; perm = (if perm = 0 then 0x1A4 else perm);
                           s1 = s\<lparr>nodes := bt_insert n \<lparr>nd_is_dir = False, nd_data = [], nd_mode = perm\<rparr> (nodes s)\<rparr>
                       in alloc_open s1 n 0 False True False)
                    else (s, ENOTDIR)
                | None \<Rightarrow> (s, ENOENT))))"

section \<open>Reading and writing\<close>

text \<open>Overwriting a range of a byte vector in place, \<open>v[at..at+len]\<close>.\<close>

definition splice :: "bytes \<Rightarrow> nat \<Rightarrow> bytes \<Rightarrow> bytes" where
  "splice v at bs = take at v @ bs @ drop (at + length bs) v"

definition write_at :: "machine \<Rightarrow> tmpfs \<Rightarrow> bytes \<Rightarrow> nat \<Rightarrow> nat \<Rightarrow> nat \<Rightarrow> tmpfs \<times> int" where
  "write_at m s path at src count =
     (case bt_get (nodes s) path of
        None \<Rightarrow> (s, ENOENT)
      | Some nd \<Rightarrow>
          if nd_is_dir nd then (s, EISDIR)
          else if count = 0 then (s, 0)
          else
            (let len = length (nd_data nd);
                 n = grant_write (tot s) CAP at len count
             in if n = 0 then (s, ENOSPC)
                else
                  (let new_end = at + n;
                       grown = (if len < new_end then resize (nd_data nd) new_end 0 else nd_data nd);
                       s1 = s\<lparr>tot := tot s + (if len < new_end then new_end - len else 0),
                              nodes := bt_modify path (\<lambda>nd. nd\<lparr>nd_data := grown\<rparr>) (nodes s)\<rparr>
                   in case copy_from_user m n src of
                        Inl _ \<Rightarrow> (s1, EFAULT)
                      | Inr bs \<Rightarrow>
                          (s1\<lparr>nodes := bt_modify path (\<lambda>nd. nd\<lparr>nd_data := splice grown at bs\<rparr>) (nodes s1)\<rparr>,
                           int n))))"

definition tmpfs_write :: "machine \<Rightarrow> tmpfs \<Rightarrow> int \<Rightarrow> nat \<Rightarrow> nat \<Rightarrow> tmpfs \<times> int" where
  "tmpfs_write m s fd src count =
     (case position (\<lambda>x. o_fd x = fd) (opens s) of
        None \<Rightarrow> (s, EBADF)
      | Some idx \<Rightarrow>
          (let f = opens s ! idx in
           if \<not> o_writable f \<or> o_is_dir f then (s, EBADF)
           else
             (let at = (if o_append f
                        then (case bt_get (nodes s) (o_path f) of Some nd \<Rightarrow> length (nd_data nd) | None \<Rightarrow> 0)
                        else o_pos f);
                  (s1, r) = write_at m s (o_path f) at src count
              in if 0 < r then (s1\<lparr>opens := (opens s1)[idx := (opens s1 ! idx)\<lparr>o_pos := at + nat r\<rparr>]\<rparr>, r)
                 else (s1, r))))"

definition tmpfs_pwrite :: "machine \<Rightarrow> tmpfs \<Rightarrow> int \<Rightarrow> nat \<Rightarrow> nat \<Rightarrow> nat \<Rightarrow> tmpfs \<times> int" where
  "tmpfs_pwrite m s fd src count offset =
     (case position (\<lambda>x. o_fd x = fd) (opens s) of
        None \<Rightarrow> (s, EBADF)
      | Some idx \<Rightarrow>
          (let f = opens s ! idx in
           if \<not> o_writable f \<or> o_is_dir f then (s, EBADF)
           else write_at m s (o_path f) offset src count))"

definition read_at :: "machine \<Rightarrow> node \<Rightarrow> nat \<Rightarrow> nat \<Rightarrow> nat \<Rightarrow> machine \<times> int" where
  "read_at m nd at dst count =
     (if length (nd_data nd) \<le> at then (m, 0)
      else
        (let n = min count (length (nd_data nd) - at) in
         case copy_to_user m dst (take n (drop at (nd_data nd))) of
           Inl _ \<Rightarrow> (m, EFAULT)
         | Inr m' \<Rightarrow> (m', int n)))"

definition tmpfs_read :: "machine \<Rightarrow> tmpfs \<Rightarrow> int \<Rightarrow> nat \<Rightarrow> nat \<Rightarrow> machine \<times> tmpfs \<times> int" where
  "tmpfs_read m s fd dst count =
     (case position (\<lambda>x. o_fd x = fd) (opens s) of
        None \<Rightarrow> (m, s, EBADF)
      | Some idx \<Rightarrow>
          (let f = opens s ! idx in
           if o_is_dir f then (m, s, EISDIR)
           else
             (case bt_get (nodes s) (o_path f) of
                None \<Rightarrow> (m, s, EBADF)
              | Some nd \<Rightarrow>
                  (let (m', r) = read_at m nd (o_pos f) dst count in
                   if 0 < r then (m', s\<lparr>opens := (opens s)[idx := f\<lparr>o_pos := o_pos f + nat r\<rparr>]\<rparr>, r)
                   else (m', s, r)))))"

definition tmpfs_pread :: "machine \<Rightarrow> tmpfs \<Rightarrow> int \<Rightarrow> nat \<Rightarrow> nat \<Rightarrow> nat \<Rightarrow> machine \<times> int" where
  "tmpfs_pread m s fd dst count offset =
     (case find (\<lambda>x. o_fd x = fd) (opens s) of
        None \<Rightarrow> (m, EBADF)
      | Some f \<Rightarrow>
          if o_is_dir f then (m, EISDIR)
          else (case bt_get (nodes s) (o_path f) of
                  None \<Rightarrow> (m, EBADF)
                | Some nd \<Rightarrow> read_at m nd offset dst count))"

definition tmpfs_lseek :: "tmpfs \<Rightarrow> int \<Rightarrow> int \<Rightarrow> int \<Rightarrow> tmpfs \<times> int" where
  "tmpfs_lseek s fd offset whence =
     (case position (\<lambda>x. o_fd x = fd) (opens s) of
        None \<Rightarrow> (s, EBADF)
      | Some idx \<Rightarrow>
          (let f = opens s ! idx;
               len = (case bt_get (nodes s) (o_path f) of Some nd \<Rightarrow> length (nd_data nd) | None \<Rightarrow> 0);
               base = (if whence = 0 then Some 0 else if whence = 1 then Some (i64_of (int (o_pos f)))
                       else if whence = 2 then Some (int len) else None)
           in case base of
                None \<Rightarrow> (s, -22)
              | Some b \<Rightarrow>
                  (let np = i64_of (b + offset) in
                   if np < 0 then (s, -22)
                   else (s\<lparr>opens := (opens s)[idx := f\<lparr>o_pos := nat np\<rparr>]\<rparr>, np))))"

section \<open>Changing sizes\<close>

text \<open>
  \<open>fs.total + grow\<close> is a wrapping 64-bit sum in a release build.  \<open>Vec::resize\<close> panics when the
  new length exceeds \<open>isize::MAX\<close>; the result is then \<open>None\<close>.
\<close>

definition resize_path :: "tmpfs \<Rightarrow> bytes \<Rightarrow> nat \<Rightarrow> (tmpfs \<times> int) option" where
  "resize_path s path len =
     (case bt_get (nodes s) path of
        None \<Rightarrow> Some (s, ENOENT)
      | Some nd \<Rightarrow>
          if nd_is_dir nd then Some (s, EISDIR)
          else
            (let cur = length (nd_data nd) in
             if cur < len \<and> CAP < wrap64 (tot s + (len - cur)) then Some (s, ENOSPC)
             else if 2 ^ 63 \<le> len then None
             else
               Some (s\<lparr>tot := (if cur < len then wrap64 (tot s + (len - cur)) else tot s - (cur - len)),
                       nodes := bt_modify path (\<lambda>nd. nd\<lparr>nd_data := resize (nd_data nd) len 0\<rparr>) (nodes s)\<rparr>, 0)))"

definition tmpfs_ftruncate :: "tmpfs \<Rightarrow> int \<Rightarrow> nat \<Rightarrow> (tmpfs \<times> int) option" where
  "tmpfs_ftruncate s fd len =
     (case find (\<lambda>x. o_fd x = fd) (opens s) of
        None \<Rightarrow> Some (s, EBADF)
      | Some f \<Rightarrow> if o_is_dir f then Some (s, EISDIR) else resize_path s (o_path f) len)"

definition tmpfs_truncate :: "tmpfs \<Rightarrow> bytes \<Rightarrow> nat \<Rightarrow> (tmpfs \<times> int) option" where
  "tmpfs_truncate s path len =
     (if bt_get (nodes s) (norm path) = None then Some (s, ENOENT) else resize_path s (norm path) len)"

definition tmpfs_fstat :: "machine \<Rightarrow> tmpfs \<Rightarrow> int \<Rightarrow> nat \<Rightarrow> machine \<times> int" where
  "tmpfs_fstat m s fd dst =
     (case find (\<lambda>x. o_fd x = fd) (opens s) of
        None \<Rightarrow> (m, EBADF)
      | Some f \<Rightarrow> (case bt_get (nodes s) (o_path f) of
                    Some nd \<Rightarrow> node_stat m nd dst | None \<Rightarrow> (m, EBADF)))"

definition tmpfs_close :: "tmpfs \<Rightarrow> int \<Rightarrow> tmpfs \<times> int" where
  "tmpfs_close s fd =
     (if fd < TMPFS_FD_BASE then (s, EBADF)
      else case position (\<lambda>x. o_fd x = fd) (opens s) of
             Some i \<Rightarrow> (s\<lparr>opens := take i (opens s) @ drop (Suc i) (opens s)\<rparr>, 0)
           | None \<Rightarrow> (s, EBADF))"

section \<open>Names\<close>

definition tmpfs_unlink :: "tmpfs \<Rightarrow> bytes \<Rightarrow> tmpfs \<times> int" where
  "tmpfs_unlink s path =
     (let n = norm path in
      case bt_get (nodes s) n of
        None \<Rightarrow> (s, ENOENT)
      | Some nd \<Rightarrow>
          if nd_is_dir nd then (s, EISDIR)
          else (s\<lparr>nodes := bt_remove n (nodes s), tot := tot s - length (nd_data nd)\<rparr>, 0))"

definition has_children :: "tmpfs \<Rightarrow> bytes \<Rightarrow> bool" where
  "has_children s dir \<longleftrightarrow> list_ex (\<lambda>x. is_under (fst x) dir) (nodes s)"

definition tmpfs_rename :: "tmpfs \<Rightarrow> bytes \<Rightarrow> bytes \<Rightarrow> tmpfs \<times> int" where
  "tmpfs_rename s old new =
     (let o' = norm old; nw = norm new in
      if o' = nw then (s, 0)
      else case bt_get (nodes s) o' of
        None \<Rightarrow> (s, ENOENT)
      | Some src \<Rightarrow>
          (case bt_get (nodes s) (parent nw) of
             None \<Rightarrow> (s, ENOENT)
           | Some p \<Rightarrow>
               if \<not> nd_is_dir p then (s, ENOTDIR)
               else
                 (let finish = (\<lambda>s. if nd_is_dir src \<and> has_children s o' then (s, -22)
                                    else (s\<lparr>nodes := bt_insert nw src (bt_remove o' (nodes s))\<rparr>, 0))
                  in case bt_get (nodes s) nw of
                       None \<Rightarrow> finish s
                     | Some dst \<Rightarrow>
                         if nd_is_dir dst \<noteq> nd_is_dir src
                         then (s, if nd_is_dir dst then EISDIR else ENOTDIR)
                         else if nd_is_dir dst \<and> has_children s nw then (s, ENOTEMPTY)
                         else
                           finish (s\<lparr>tot := (if nd_is_dir dst then tot s else tot s - length (nd_data dst)),
                                     nodes := bt_remove nw (nodes s)\<rparr>))))"

definition tmpfs_mkdir :: "tmpfs \<Rightarrow> bytes \<Rightarrow> nat \<Rightarrow> tmpfs \<times> int" where
  "tmpfs_mkdir s path mode =
     (let n = norm path in
      if bt_get (nodes s) n \<noteq> None then (s, EEXIST)
      else case bt_get (nodes s) (parent n) of
             None \<Rightarrow> (s, ENOENT)
           | Some p \<Rightarrow>
               if nd_is_dir p then
                 (let perm = mode mod 4096; perm = (if perm = 0 then 0x1ED else perm)
                  in (s\<lparr>nodes := bt_insert n (dir_node perm) (nodes s)\<rparr>, 0))
               else (s, ENOTDIR))"

definition tmpfs_rmdir :: "tmpfs \<Rightarrow> bytes \<Rightarrow> tmpfs \<times> int" where
  "tmpfs_rmdir s path =
     (let n = norm path in
      if n = bytes_of ''/tmp'' \<or> n = bytes_of ''/dev/shm'' then (s, -1)
      else case bt_get (nodes s) n of
             None \<Rightarrow> (s, ENOENT)
           | Some nd \<Rightarrow>
               if \<not> nd_is_dir nd then (s, ENOTDIR)
               else if has_children s n then (s, ENOTEMPTY)
               else (s\<lparr>nodes := bt_remove n (nodes s)\<rparr>, 0))"

definition tmpfs_access :: "tmpfs \<Rightarrow> bytes \<Rightarrow> int" where
  "tmpfs_access s path = (if bt_get (nodes s) (norm path) \<noteq> None then 0 else ENOENT)"

section \<open>Directory listing\<close>

definition child_names :: "tmpfs \<Rightarrow> bytes \<Rightarrow> bytes list" where
  "child_names s prefix =
     [drop (length prefix) k. k \<leftarrow> map fst (nodes s),
        length prefix < length k \<and> starts_with k prefix \<and> slash \<notin> set (drop (length prefix) k)]"

definition tmpfs_reclen :: "bytes \<Rightarrow> nat" where
  "tmpfs_reclen name = align_down (19 + length name + 1 + 7) 8"

definition tmpfs_dirent :: "tmpfs \<Rightarrow> bytes \<Rightarrow> nat \<Rightarrow> bytes \<Rightarrow> bytes" where
  "tmpfs_dirent s prefix emitted name =
     (let reclen = tmpfs_reclen name;
          dtype = (case bt_get (nodes s) (prefix @ name) of
                     Some nd \<Rightarrow> if nd_is_dir nd then 4 else 8 | None \<Rightarrow> 8)
      in resize (le_bytes 8 (emitted + 1) @ le_bytes 8 (emitted + 1) @ le_bytes 2 reclen @ [dtype] @ name) reclen 0)"

text \<open>The emission loop over the names still to be listed; the stores go to \<open>buf\<close> directly.\<close>

primrec emit_dirents :: "tmpfs \<Rightarrow> bytes \<Rightarrow> nat \<Rightarrow> nat \<Rightarrow> bytes list \<Rightarrow> memory \<Rightarrow> nat \<Rightarrow> nat \<Rightarrow> memory \<times> nat \<times> nat" where
  "emit_dirents s prefix dst count [] r off emitted = (r, off, emitted)"
| "emit_dirents s prefix dst count (name # names) r off emitted =
     (let reclen = tmpfs_reclen name in
      if count < off + reclen then (r, off, emitted)
      else emit_dirents s prefix dst count names
             (mem_write r (dst + off) (tmpfs_dirent s prefix emitted name)) (off + reclen) (emitted + 1))"

definition tmpfs_getdents64 :: "machine \<Rightarrow> tmpfs \<Rightarrow> int \<Rightarrow> nat \<Rightarrow> nat \<Rightarrow> machine \<times> tmpfs \<times> int" where
  "tmpfs_getdents64 m s fd dst count =
     (case position (\<lambda>x. o_fd x = fd) (opens s) of
        None \<Rightarrow> (m, s, EBADF)
      | Some idx \<Rightarrow>
          (let f = opens s ! idx in
           if \<not> o_is_dir f then (m, s, ENOTDIR)
           else
             (let prefix = (if o_path f \<noteq> bytes_of ''/'' then o_path f @ [slash] else o_path f);
                  names = child_names s prefix;
                  (r, off, emitted) = emit_dirents s prefix dst count (drop (o_dir_pos f) names)
                                        (ram m) 0 (o_dir_pos f)
              in (m\<lparr>ram := r\<rparr>, s\<lparr>opens := (opens s)[idx := f\<lparr>o_dir_pos := emitted\<rparr>]\<rparr>, int off))))"

section \<open>Laws of the ordered map\<close>

definition bt_ok :: "('k::linorder \<times> 'v) list \<Rightarrow> bool" where
  "bt_ok t \<longleftrightarrow> sorted_wrt (<) (map fst t)"

lemma bt_ok_simps [simp]:
  "bt_ok []"
  "bt_ok (x # t) \<longleftrightarrow> (\<forall>y\<in>set t. fst x < fst y) \<and> bt_ok t"
  by (auto simp: bt_ok_def)

lemma bt_insert_set: "set (bt_insert k v t) \<subseteq> insert (k, v) (set t)"
  by (induction t) auto

lemma bt_ok_insert: "bt_ok t \<Longrightarrow> bt_ok (bt_insert k v t)"
proof (induction t)
  case (Cons x t)
  then show ?case
    using bt_insert_set [of k v t] by (force dest: less_trans)
qed simp

lemma bt_ok_filter: "bt_ok t \<Longrightarrow> bt_ok (filter P t)"
  by (induction t) auto

lemma bt_ok_remove: "bt_ok t \<Longrightarrow> bt_ok (bt_remove k t)"
  by (simp add: bt_remove_def bt_ok_filter)

lemma map_fst_modify [simp]: "map fst (bt_modify k f t) = map fst t"
  by (simp add: bt_modify_def)

lemma bt_ok_modify: "bt_ok t \<Longrightarrow> bt_ok (bt_modify k f t)"
  by (simp add: bt_ok_def)

lemma bt_get_absent: "\<forall>y\<in>set t. (k :: 'k :: linorder) < fst y \<Longrightarrow> bt_get t k = None"
  by (force simp: bt_get_def map_of_eq_None_iff)

lemma bt_get_insert: "bt_ok t \<Longrightarrow> bt_get (bt_insert k v t) = (bt_get t)(k \<mapsto> v)"
  by (induction t) (auto simp: bt_get_def fun_eq_iff)

lemma bt_get_remove: "bt_get (bt_remove k t) = (bt_get t)(k := None)"
  by (induction t) (auto simp: bt_get_def bt_remove_def fun_eq_iff)

lemma bt_get_modify: "bt_get (bt_modify k f t) x = (if x = k then map_option f (bt_get t k) else bt_get t x)"
  by (induction t) (auto simp: bt_get_def bt_modify_def)

lemma bt_get_SomeD: "bt_get t k = Some v \<Longrightarrow> (k, v) \<in> set t"
  by (simp add: bt_get_def map_of_SomeD)

lemma bt_get_iff: "bt_ok t \<Longrightarrow> bt_get t k = Some v \<longleftrightarrow> (k, v) \<in> set t"
proof -
  assume "bt_ok t"
  then have "distinct (map fst t)"
    by (simp add: bt_ok_def strict_sorted_iff)
  then show ?thesis
    by (simp add: bt_get_def map_of_eq_Some_iff)
qed

text \<open>The bytes held by all nodes.\<close>

definition used :: "(bytes \<times> node) list \<Rightarrow> nat" where
  "used t = sum_list (map (\<lambda>x. length (nd_data (snd x))) t)"

lemma used_simps [simp]: "used [] = 0" "used (x # t) = length (nd_data (snd x)) + used t"
  by (simp_all add: used_def)

lemma bt_remove_absent: "bt_get t k = None \<Longrightarrow> bt_remove k t = t"
  by (auto simp: bt_get_def bt_remove_def map_of_eq_None_iff intro: filter_True)

lemma bt_modify_absent: "bt_get t k = None \<Longrightarrow> bt_modify k f t = t"
  by (induction t) (auto simp: bt_get_def bt_modify_def split: if_splits)

lemma used_remove:
  "bt_ok t \<Longrightarrow> bt_get t k = Some v \<Longrightarrow> used (bt_remove k t) + length (nd_data v) = used t"
proof (induction t)
  case (Cons x t)
  show ?case
  proof (cases "fst x = k")
    case True
    then have "bt_get t k = None" "v = snd x"
      using Cons.prems by (auto simp: bt_get_absent) (simp add: bt_get_def)
    with True show ?thesis
      using bt_remove_absent [of t k] by (simp add: bt_remove_def)
  next
    case False
    with Cons show ?thesis
      by (simp add: bt_get_def bt_remove_def split: if_splits)
  qed
qed (simp add: bt_get_def)

lemma used_modify:
  "bt_ok t \<Longrightarrow> bt_get t k = Some v \<Longrightarrow>
   used (bt_modify k f t) + length (nd_data v) = used t + length (nd_data (f v))"
proof (induction t)
  case (Cons x t)
  show ?case
  proof (cases "fst x = k")
    case True
    then have "bt_get t k = None" "v = snd x"
      using Cons.prems by (auto simp: bt_get_absent) (simp add: bt_get_def)
    with True show ?thesis
      using bt_modify_absent [of t k f] by (simp add: bt_modify_def)
  next
    case False
    with Cons show ?thesis
      by (simp add: bt_get_def bt_modify_def split: if_splits)
  qed
qed (simp add: bt_get_def)

lemma used_insert:
  "bt_get t k = None \<Longrightarrow> used (bt_insert k v t) = used t + length (nd_data v)"
  by (induction t) (auto simp: bt_get_def split: if_splits)

lemma used_get_le: "bt_get t k = Some v \<Longrightarrow> length (nd_data v) \<le> used t"
  by (induction t) (auto simp: bt_get_def split: if_splits)

lemma bt_modify_set: "(k', v') \<in> set (bt_modify k f t) \<Longrightarrow> (k', v') \<in> set t \<or> (\<exists>v. (k, v) \<in> set t \<and> k' = k \<and> v' = f v)"
  by (auto simp: bt_modify_def)

section \<open>Invariant\<close>

definition node_ok :: "bytes \<times> node \<Rightarrow> bool" where
  "node_ok x \<longleftrightarrow> canonical (fst x) \<and> (nd_is_dir (snd x) \<longrightarrow> nd_data (snd x) = [])"

definition nodes_ok :: "tmpfs \<Rightarrow> bool" where
  "nodes_ok s \<longleftrightarrow> bt_ok (nodes s) \<and> (\<forall>x\<in>set (nodes s). node_ok x) \<and> tot s = used (nodes s) \<and> tot s \<le> CAP"

definition opens_ok :: "tmpfs \<Rightarrow> bool" where
  "opens_ok s \<longleftrightarrow> distinct (map o_fd (opens s)) \<and> length (opens s) \<le> TMPFS_MAX_OPEN \<and>
     TMPFS_FD_BASE \<le> NEXT_FD s \<and>
     (\<forall>f\<in>set (opens s). TMPFS_FD_BASE \<le> o_fd f \<and> o_fd f < NEXT_FD s)"

definition tmpfs_ok :: "tmpfs \<Rightarrow> bool" where
  "tmpfs_ok s \<longleftrightarrow> nodes_ok s \<and> opens_ok s"

lemma nodes_okD:
  assumes "nodes_ok s"
  shows "bt_ok (nodes s)" "x \<in> set (nodes s) \<Longrightarrow> node_ok x" "tot s = used (nodes s)" "tot s \<le> CAP"
  using assms by (simp_all add: nodes_ok_def)

lemma nodes_ok_cong: "nodes s' = nodes s \<Longrightarrow> tot s' = tot s \<Longrightarrow> nodes_ok s' = nodes_ok s"
  by (simp add: nodes_ok_def)

lemma opens_ok_cong: "opens s' = opens s \<Longrightarrow> NEXT_FD s' = NEXT_FD s \<Longrightarrow> opens_ok s' = opens_ok s"
  by (simp add: opens_ok_def)

text \<open>Replacing the content of a file, with the total adjusted.\<close>

lemma nodes_ok_set_data:
  assumes ok: "nodes_ok s" and get: "bt_get (nodes s) k = Some nd" and reg: "\<not> nd_is_dir nd"
    and t: "t + length (nd_data nd) = tot s + length d" "t \<le> CAP"
    and s': "nodes s' = bt_modify k (\<lambda>nd. nd\<lparr>nd_data := d\<rparr>) (nodes s)" "tot s' = t"
  shows "nodes_ok s'"
proof -
  have "used (nodes s') + length (nd_data nd) = used (nodes s) + length d"
    using used_modify [OF nodes_okD(1) [OF ok] get, of "\<lambda>nd. nd\<lparr>nd_data := d\<rparr>"] by (simp add: s')
  then have "tot s' = used (nodes s')"
    using t(1) nodes_okD(3) [OF ok] s'(2) by simp
  moreover have "node_ok x" if mem: "x \<in> set (nodes s')" for x
  proof -
    obtain k' v' where x: "x = (k', v')"
      by fastforce
    show ?thesis
    proof (cases "(k', v') \<in> set (nodes s)")
      case True
      then show ?thesis
        using nodes_okD(2) [OF ok] x by simp
    next
      case False
      then obtain v where "(k, v) \<in> set (nodes s)" "k' = k" "v' = v\<lparr>nd_data := d\<rparr>"
        using bt_modify_set [of k' v' k "\<lambda>nd. nd\<lparr>nd_data := d\<rparr>" "nodes s"] mem x s'(1) by auto
      moreover from this have "bt_get (nodes s) k = Some v"
        by (simp add: bt_get_iff [OF nodes_okD(1) [OF ok]])
      ultimately show ?thesis
        using reg get nodes_okD(2) [OF ok, of "(k, v)"] x by (simp add: node_ok_def)
    qed
  qed
  ultimately show ?thesis
    using bt_ok_modify nodes_okD(1) [OF ok] s' t(2) by (simp add: nodes_ok_def)
qed

lemma nodes_ok_remove:
  assumes ok: "nodes_ok s" and get: "bt_get (nodes s) k = Some nd"
    and s': "nodes s' = bt_remove k (nodes s)" "tot s' = tot s - length (nd_data nd)"
  shows "nodes_ok s'"
proof -
  have "used (nodes s') + length (nd_data nd) = used (nodes s)"
    using used_remove [OF nodes_okD(1) [OF ok] get] by (simp add: s')
  then show ?thesis
    using nodes_okD [OF ok] s' bt_ok_remove [of "nodes s" k] by (auto simp: nodes_ok_def bt_remove_def)
qed

lemma nodes_ok_insert:
  assumes ok: "nodes_ok s" and get: "bt_get (nodes s) k = None" and n: "node_ok (k, nd)"
    and s': "nodes s' = bt_insert k nd (nodes s)" "tot s' = tot s + length (nd_data nd)" "tot s' \<le> CAP"
  shows "nodes_ok s'"
  using nodes_okD [OF ok] bt_ok_insert [of "nodes s" k nd] used_insert [OF get, of nd] n s'
    bt_insert_set [of k nd "nodes s"]
  by (auto simp: nodes_ok_def)

lemma opens_ok_upd:
  assumes "opens_ok s" "o_fd f = o_fd (opens s ! i)"
    and s': "opens s' = (opens s)[i := f]" "NEXT_FD s' = NEXT_FD s"
  shows "opens_ok s'"
proof (cases "i < length (opens s)")
  case True
  have "map o_fd ((opens s)[i := f]) = map o_fd (opens s)"
    using True assms(2) by (metis list_update_id map_update nth_map)
  moreover from this have "TMPFS_FD_BASE \<le> o_fd g \<and> o_fd g < NEXT_FD s" if "g \<in> set ((opens s)[i := f])" for g
  proof -
    have "o_fd g \<in> o_fd ` set (opens s)"
      using that calculation by (metis image_eqI list.set_map)
    then show ?thesis
      using assms(1) by (auto simp: opens_ok_def)
  qed
  ultimately show ?thesis
    using assms(1) s' unfolding opens_ok_def by (metis length_list_update)
qed (use assms in \<open>simp add: opens_ok_def list_update_beyond\<close>)

lemma opens_ok_alloc:
  assumes "opens_ok s" "length (opens s) < TMPFS_MAX_OPEN" "NEXT_FD s + 1 < 2 ^ 31"
  shows "opens_ok (fst (alloc_open s path at app wr dir))"
proof -
  have "i32_of (NEXT_FD s + 1) = NEXT_FD s + 1"
    using assms by (intro i32_of_id) (auto simp: opens_ok_def TMPFS_FD_BASE_def)
  then show ?thesis
    using assms by (auto simp: opens_ok_def alloc_open_def)
qed

lemma alloc_open_nodes [simp]:
  "nodes (fst (alloc_open s path at app wr dir)) = nodes s" "tot (fst (alloc_open s path at app wr dir)) = tot s"
  by (simp_all add: alloc_open_def)

end
