(* ===== verification/Tmpfs_Invariant.thy ===== *)
theory Tmpfs_Invariant
  imports Tmpfs
begin

text \<open>
  What holds in every state of the in-memory file system: the running total is the sum of the file
  sizes and below the cap, the paths are canonical, distinct and sorted, descriptors are unique,
  and the paths form a tree whose inner nodes are directories.  \<open>tmpfs_call\<close> lists the calls,
  \<open>tmpfs_exec\<close> performs one.
\<close>

section \<open>Every operation keeps the invariant\<close>

lemma nodes_ok_open:
  assumes ok: "nodes_ok s"
  shows "nodes_ok (fst (tmpfs_open s path flags mode))"
proof -
  have trunc: "nodes_ok (s\<lparr>tot := tot s - length (nd_data nd),
                 nodes := bt_modify n (\<lambda>nd. nd\<lparr>nd_data := []\<rparr>) (nodes s)\<rparr>)"
    if "bt_get (nodes s) n = Some nd" "\<not> nd_is_dir nd" for n nd
  proof (rule nodes_ok_set_data [OF ok that, where d = "[]" and t = "tot s - length (nd_data nd)"])
    have "length (nd_data nd) \<le> tot s"
      using used_get_le [OF that(1)] nodes_okD(3) [OF ok] by simp
    then show "tot s - length (nd_data nd) + length (nd_data nd) = tot s + length ([] :: bytes)"
      by simp
    show "tot s - length (nd_data nd) \<le> CAP"
      using nodes_okD(4) [OF ok] by simp
  qed simp_all
  have create: "nodes_ok (s\<lparr>nodes := bt_insert n \<lparr>nd_is_dir = False, nd_data = [], nd_mode = perm\<rparr> (nodes s)\<rparr>)"
    if "bt_get (nodes s) n = None" "canonical n" for n perm
    by (rule nodes_ok_insert [OF ok that(1), where nd = "\<lparr>nd_is_dir = False, nd_data = [], nd_mode = perm\<rparr>"]) (use nodes_okD(4) [OF ok] that(2) in \<open>simp_all add: node_ok_def\<close>)
  have alloc: "nodes_ok (fst (alloc_open t p a b c d)) = nodes_ok t" for t p a b c d
    by (rule nodes_ok_cong) simp_all
  show ?thesis
    unfolding tmpfs_open_def Let_def
    using ok trunc create [OF _ canonical_norm] by (simp add: alloc split: option.split)
qed

lemma opens_ok_open:
  assumes "opens_ok s" "NEXT_FD s + 1 < 2 ^ 31"
  shows "opens_ok (fst (tmpfs_open s path flags mode))"
proof -
  have alloc: "opens_ok (fst (alloc_open t p a b c d))"
    if "opens t = opens s" "NEXT_FD t = NEXT_FD s" "length (opens s) < TMPFS_MAX_OPEN" for t p a b c d
    using opens_ok_alloc [of t p a b c d] opens_ok_cong [OF that(1,2)] assms that by simp
  show ?thesis
    unfolding tmpfs_open_def Let_def
    using assms(1) by (simp add: alloc not_le split: option.split)
qed

lemma open_next: "NEXT_FD (fst (tmpfs_open s path flags mode)) \<in> {NEXT_FD s, i32_of (NEXT_FD s + 1)}"
proof -
  have "NEXT_FD (fst (alloc_open t p a b c d)) = i32_of (NEXT_FD t + 1)" for t p a b c d
    by (simp add: alloc_open_def)
  then show ?thesis
    unfolding tmpfs_open_def Let_def by (simp split: option.split)
qed

lemma write_at_frame [simp]:
  "opens (fst (write_at m s path at src count)) = opens s"
  "NEXT_FD (fst (write_at m s path at src count)) = NEXT_FD s"
proof -
  have "opens (fst r) = opens s \<and> NEXT_FD (fst r) = NEXT_FD s" if "r = write_at m s path at src count" for r
    unfolding that write_at_def Let_def
    by (cases "bt_get (nodes s) path"; cases "copy_from_user m (grant_write (tot s) CAP at
          (length (nd_data (the (bt_get (nodes s) path)))) count) src") simp_all
  then show "opens (fst (write_at m s path at src count)) = opens s"
    "NEXT_FD (fst (write_at m s path at src count)) = NEXT_FD s" by blast+
qed

lemma length_splice: "at + length bs \<le> length v \<Longrightarrow> length (splice v at bs) = length v"
  by (simp add: splice_def)

lemma bt_modify_modify: "bt_modify k f (bt_modify k g t) = bt_modify k (\<lambda>v. f (g v)) t"
  by (auto simp: bt_modify_def)

text \<open>The content left by a write of \<open>n\<close> bytes at \<open>at\<close>, and the file system it leaves.\<close>

definition grown_data :: "bytes \<Rightarrow> nat \<Rightarrow> bytes" where
  "grown_data d new_end = (if length d < new_end then resize d new_end 0 else d)"

lemma length_grown_data [simp]: "length (grown_data d e) = max (length d) e"
  by (simp add: grown_data_def)

lemma write_at_cases:
  assumes "bt_get (nodes s) path = Some nd" "\<not> nd_is_dir nd" "0 < count"
    "grant_write (tot s) CAP at (length (nd_data nd)) count = n" "0 < n"
  obtains d where "write_at m s path at src count =
      (s\<lparr>tot := tot s + growth at (length (nd_data nd)) n, nodes := bt_modify path (\<lambda>nd. nd\<lparr>nd_data := d\<rparr>) (nodes s)\<rparr>,
       case copy_from_user m n src of Inl _ \<Rightarrow> EFAULT | Inr _ \<Rightarrow> int n)"
    "length d = max (length (nd_data nd)) (at + n)"
    "d = (case copy_from_user m n src of Inl _ \<Rightarrow> grown_data (nd_data nd) (at + n)
          | Inr bs \<Rightarrow> splice (grown_data (nd_data nd) (at + n)) at bs)"
proof (cases "copy_from_user m n src")
  case (Inl e)
  show thesis
    by (rule that [of "grown_data (nd_data nd) (at + n)"])
       (use assms Inl in \<open>simp_all add: write_at_def Let_def growth_def grown_data_def\<close>)
next
  case (Inr bs)
  then have "length bs = n"
    by (rule copy_from_user_length)
  then show thesis
    by (intro that [of "splice (grown_data (nd_data nd) (at + n)) at bs"])
       (use assms Inr in \<open>simp_all add: write_at_def Let_def growth_def bt_modify_modify length_splice
          flip: grown_data_def\<close>)
qed

lemma nodes_ok_write_at:
  assumes ok: "nodes_ok s"
  shows "nodes_ok (fst (write_at m s path at src count))"
proof (cases "bt_get (nodes s) path")
  case (Some nd)
  define n where "n = grant_write (tot s) CAP at (length (nd_data nd)) count"
  show ?thesis
  proof (cases "nd_is_dir nd \<or> count = 0 \<or> n = 0")
    case False
    then have c: "\<not> nd_is_dir nd" "0 < count" "0 < n"
      by auto
    obtain d r where w: "write_at m s path at src count =
        (s\<lparr>tot := tot s + growth at (length (nd_data nd)) n, nodes := bt_modify path (\<lambda>nd. nd\<lparr>nd_data := d\<rparr>) (nodes s)\<rparr>, r)"
      and d: "length d = max (length (nd_data nd)) (at + n)"
      by (rule write_at_cases [OF Some c(1,2) n_def [symmetric] c(3)]) blast
    show ?thesis
      unfolding w fst_conv
    proof (rule nodes_ok_set_data [OF ok Some c(1)])
      show "tot s + growth at (length (nd_data nd)) n + length (nd_data nd) = tot s + length d"
        by (simp add: d growth_def)
      show "tot s + growth at (length (nd_data nd)) n \<le> CAP"
        using grant_write_fits [OF nodes_okD(4) [OF ok]] c(3) by (simp add: n_def)
    qed simp_all
  qed (use ok Some in \<open>auto simp: write_at_def n_def Let_def\<close>)
qed (use ok in \<open>simp add: write_at_def\<close>)

lemma tmpfs_ok_cong:
  "nodes s' = nodes s \<Longrightarrow> tot s' = tot s \<Longrightarrow> opens s' = opens s \<Longrightarrow> NEXT_FD s' = NEXT_FD s \<Longrightarrow>
   tmpfs_ok s' = tmpfs_ok s"
  using nodes_ok_cong [of s' s] opens_ok_cong [of s' s] by (simp add: tmpfs_ok_def)

text \<open>Changing position fields of one open descriptor.\<close>

lemma tmpfs_ok_upd:
  assumes "tmpfs_ok s" "o_fd f = o_fd (opens s ! i)"
  shows "tmpfs_ok (s\<lparr>opens := (opens s)[i := f]\<rparr>)"
  using assms nodes_ok_cong [of "s\<lparr>opens := (opens s)[i := f]\<rparr>" s]
    opens_ok_upd [of s f i "s\<lparr>opens := (opens s)[i := f]\<rparr>"]
  by (simp add: tmpfs_ok_def)

lemma tmpfs_ok_write_at:
  assumes "tmpfs_ok s" shows "tmpfs_ok (fst (write_at m s path at src count))"
  using assms nodes_ok_write_at [of s] opens_ok_cong [of "fst (write_at m s path at src count)" s]
  by (simp add: tmpfs_ok_def)

lemma tmpfs_ok_write:
  assumes ok: "tmpfs_ok s" shows "tmpfs_ok (fst (tmpfs_write m s fd src count))"
proof (cases "position (\<lambda>x. o_fd x = fd) (opens s)")
  case (Some idx)
  define f where "f = opens s ! idx"
  define at where "at = (if o_append f then (case bt_get (nodes s) (o_path f) of Some nd \<Rightarrow> length (nd_data nd) | None \<Rightarrow> 0)
                        else o_pos f)"
  obtain s1 r where w: "write_at m s (o_path f) at src count = (s1, r)"
    by fastforce
  then have "tmpfs_ok s1"
    using tmpfs_ok_write_at [OF ok, of m "o_path f" at src count] by simp
  then have "tmpfs_ok (s1\<lparr>opens := (opens s1)[idx := (opens s1 ! idx)\<lparr>o_pos := at + nat r\<rparr>]\<rparr>)"
    by (rule tmpfs_ok_upd) simp
  with \<open>tmpfs_ok s1\<close> show ?thesis
    using ok Some w by (simp add: tmpfs_write_def Let_def flip: f_def at_def)
qed (use ok in \<open>simp add: tmpfs_write_def\<close>)

lemma tmpfs_ok_pwrite:
  "tmpfs_ok s \<Longrightarrow> tmpfs_ok (fst (tmpfs_pwrite m s fd src count offset))"
  by (simp add: tmpfs_pwrite_def Let_def tmpfs_ok_write_at split: option.split)

lemma tmpfs_ok_read:
  "tmpfs_ok s \<Longrightarrow> tmpfs_ok (fst (snd (tmpfs_read m s fd dst count)))"
  by (simp add: tmpfs_read_def Let_def tmpfs_ok_upd split: option.split prod.split)

lemma tmpfs_ok_lseek: "tmpfs_ok s \<Longrightarrow> tmpfs_ok (fst (tmpfs_lseek s fd offset whence))"
  by (simp add: tmpfs_lseek_def Let_def tmpfs_ok_upd split: option.split)

lemma tmpfs_ok_getdents64: "tmpfs_ok s \<Longrightarrow> tmpfs_ok (fst (snd (tmpfs_getdents64 m s fd dst count)))"
  by (simp add: tmpfs_getdents64_def Let_def tmpfs_ok_upd split: option.split prod.split)

lemma distinct_remove_at: "distinct xs \<Longrightarrow> distinct (take i xs @ drop (Suc i) xs)"
proof (cases "i < length xs")
  case True
  assume "distinct xs"
  then have "distinct (take i xs @ xs ! i # drop (Suc i) xs)"
    using id_take_nth_drop [OF True] by simp
  then show ?thesis
    by simp
qed simp

lemma tmpfs_ok_close:
  assumes ok: "tmpfs_ok s" shows "tmpfs_ok (fst (tmpfs_close s fd))"
proof -
  have "tmpfs_ok (s\<lparr>opens := take i (opens s) @ drop (Suc i) (opens s)\<rparr>)" for i
  proof -
    have "distinct (map o_fd (take i (opens s) @ drop (Suc i) (opens s)))"
      using ok distinct_remove_at [of "map o_fd (opens s)" i]
      by (simp add: tmpfs_ok_def opens_ok_def take_map drop_map)
    moreover have "length (take i (opens s) @ drop (Suc i) (opens s)) \<le> length (opens s)"
      by simp
    moreover have "set (take i (opens s) @ drop (Suc i) (opens s)) \<subseteq> set (opens s)"
      using set_take_subset set_drop_subset by fastforce
    ultimately show ?thesis
      using ok nodes_ok_cong [of "s\<lparr>opens := take i (opens s) @ drop (Suc i) (opens s)\<rparr>" s]
      unfolding tmpfs_ok_def opens_ok_def by (simp add: subset_iff) blast
  qed
  with ok show ?thesis
    by (simp add: tmpfs_close_def split: option.split)
qed

lemma tmpfs_ok_resize:
  assumes ok: "tmpfs_ok s" and r: "resize_path s path len = Some (s', r)"
  shows "tmpfs_ok s'"
proof (cases "bt_get (nodes s) path")
  case None
  with ok r show ?thesis
    by (simp add: resize_path_def)
next
  case (Some nd)
  define cur where "cur = length (nd_data nd)"
  have nok: "nodes_ok s"
    using ok by (simp add: tmpfs_ok_def)
  have cur: "cur \<le> tot s" "tot s \<le> CAP"
    using used_get_le [OF Some] nodes_okD [OF nok] by (simp_all add: cur_def)
  show ?thesis
  proof (cases "s' = s")
    case False
    then have file': "\<not> nd_is_dir nd" and fits: "\<not> (cur < len \<and> CAP < wrap64 (tot s + (len - cur)))"
      and len: "len < 2 ^ 63"
      and s': "s' = s\<lparr>tot := (if cur < len then wrap64 (tot s + (len - cur)) else tot s - (cur - len)),
                       nodes := bt_modify path (\<lambda>nd. nd\<lparr>nd_data := resize (nd_data nd) len 0\<rparr>) (nodes s)\<rparr>"
      using r Some by (auto simp: resize_path_def Let_def cur_def not_le split: if_splits)
    have w: "wrap64 (tot s + (len - cur)) = tot s + (len - cur)"
      using cur len by (intro wrap64_id) (simp add: CAP_def)
    have t: "tot s' = (if cur < len then tot s + (len - cur) else tot s - (cur - len))"
      unfolding s' w by simp
    have mod: "bt_modify path (\<lambda>nd. nd\<lparr>nd_data := resize (nd_data nd) len 0\<rparr>) (nodes s) =
        bt_modify path (\<lambda>v. v\<lparr>nd_data := resize (nd_data nd) len 0\<rparr>) (nodes s)"
      using Some bt_get_iff [OF nodes_okD(1) [OF nok]] unfolding bt_modify_def
      by (intro map_cong) (auto, metis option.inject)
    have "nodes_ok s'"
      by (rule nodes_ok_set_data [OF nok Some file', where d = "resize (nd_data nd) len 0" and t = "tot s'"])
         (use cur fits in \<open>simp_all only: t w length_resize flip: cur_def\<close>, auto simp: s' mod)
    moreover have "opens_ok s'"
      using ok opens_ok_cong [of s' s] by (simp add: s' tmpfs_ok_def)
    ultimately show ?thesis
      by (simp add: tmpfs_ok_def)
  qed (use ok in simp)
qed

lemma tmpfs_ok_unlink:
  assumes "tmpfs_ok s" shows "tmpfs_ok (fst (tmpfs_unlink s path))"
proof -
  have "tmpfs_ok (s\<lparr>nodes := bt_remove n (nodes s), tot := tot s - length (nd_data nd)\<rparr>)"
    if "bt_get (nodes s) n = Some nd" for n nd
    using assms nodes_ok_remove [OF _ that] opens_ok_cong [of "s\<lparr>nodes := bt_remove n (nodes s), tot := tot s - length (nd_data nd)\<rparr>" s]
    by (simp add: tmpfs_ok_def)
  with assms show ?thesis
    by (simp add: tmpfs_unlink_def Let_def split: option.split)
qed

text \<open>The bytes of a directory node: none.\<close>

lemma dir_empty: "nodes_ok s \<Longrightarrow> bt_get (nodes s) n = Some nd \<Longrightarrow> nd_is_dir nd \<Longrightarrow> nd_data nd = []"
  using nodes_okD(2) bt_get_SomeD by (fastforce simp: node_ok_def)

lemma tmpfs_ok_rmdir:
  assumes "tmpfs_ok s" shows "tmpfs_ok (fst (tmpfs_rmdir s path))"
proof -
  have "tmpfs_ok (s\<lparr>nodes := bt_remove n (nodes s)\<rparr>)"
    if "bt_get (nodes s) n = Some nd" "nd_is_dir nd" for n nd
    using assms nodes_ok_remove [OF _ that(1)] dir_empty [OF _ that]
      opens_ok_cong [of "s\<lparr>nodes := bt_remove n (nodes s)\<rparr>" s]
    by (simp add: tmpfs_ok_def)
  with assms show ?thesis
    by (simp add: tmpfs_rmdir_def Let_def split: option.split)
qed

lemma tmpfs_ok_mkdir:
  assumes "tmpfs_ok s" shows "tmpfs_ok (fst (tmpfs_mkdir s path mode))"
proof -
  have "tmpfs_ok (s\<lparr>nodes := bt_insert n (dir_node perm) (nodes s)\<rparr>)"
    if "bt_get (nodes s) n = None" "canonical n" for n perm
    using assms nodes_ok_insert [OF _ that(1), where nd = "dir_node perm" and s' = "s\<lparr>nodes := bt_insert n (dir_node perm) (nodes s)\<rparr>"]
      nodes_okD(4) [of s] that opens_ok_cong [of "s\<lparr>nodes := bt_insert n (dir_node perm) (nodes s)\<rparr>" s]
    by (simp add: tmpfs_ok_def node_ok_def dir_node_def)
  with assms show ?thesis
    by (simp add: tmpfs_mkdir_def Let_def canonical_norm split: option.split)
qed

text \<open>The last part of \<open>rename\<close>: the entry moves to a free name.\<close>

definition rename_finish :: "tmpfs \<Rightarrow> bytes \<Rightarrow> bytes \<Rightarrow> node \<Rightarrow> tmpfs \<times> int" where
  "rename_finish s o' nw src =
     (if nd_is_dir src \<and> has_children s o' then (s, -22)
      else (s\<lparr>nodes := bt_insert nw src (bt_remove o' (nodes s))\<rparr>, 0))"

lemma rename_cases:
  assumes "norm old \<noteq> norm new" "bt_get (nodes s) (norm old) = Some src"
    "bt_get (nodes s) (parent (norm new)) = Some p" "nd_is_dir p"
  shows "tmpfs_rename s old new =
     (case bt_get (nodes s) (norm new) of
        None \<Rightarrow> rename_finish s (norm old) (norm new) src
      | Some dst \<Rightarrow>
          if nd_is_dir dst \<noteq> nd_is_dir src then (s, if nd_is_dir dst then EISDIR else ENOTDIR)
          else if nd_is_dir dst \<and> has_children s (norm new) then (s, ENOTEMPTY)
          else rename_finish (s\<lparr>tot := (if nd_is_dir dst then tot s else tot s - length (nd_data dst)),
                  nodes := bt_remove (norm new) (nodes s)\<rparr>) (norm old) (norm new) src)"
  using assms unfolding tmpfs_rename_def Let_def rename_finish_def by (simp cong: if_cong)

lemma rename_refused:
  assumes "norm old = norm new \<or> bt_get (nodes s) (norm old) = None \<or>
    bt_get (nodes s) (parent (norm new)) = None \<or> \<not> nd_is_dir (the (bt_get (nodes s) (parent (norm new))))"
  shows "fst (tmpfs_rename s old new) = s"
  using assms unfolding tmpfs_rename_def Let_def by (auto split: option.split)

lemma tmpfs_ok_rename_finish:
  assumes ok: "tmpfs_ok s" and "bt_get (nodes s) o' = Some src" "bt_get (nodes s) nw = None" "canonical nw"
  shows "tmpfs_ok (fst (rename_finish s o' nw src))"
proof -
  let ?s1 = "s\<lparr>nodes := bt_remove o' (nodes s), tot := tot s - length (nd_data src)\<rparr>"
  let ?s2 = "s\<lparr>nodes := bt_insert nw src (bt_remove o' (nodes s))\<rparr>"
  have nok: "nodes_ok s"
    using ok by (simp add: tmpfs_ok_def)
  have le: "length (nd_data src) \<le> tot s" "tot s \<le> CAP"
    using used_get_le [OF assms(2)] nodes_okD [OF nok] by simp_all
  have "nodes_ok ?s1"
    by (rule nodes_ok_remove [OF nok assms(2)]) simp_all
  moreover have "bt_get (nodes ?s1) nw = None"
    using assms(3) by (simp add: bt_get_remove)
  moreover have "node_ok (nw, src)"
    using nodes_okD(2) [OF nok bt_get_SomeD [OF assms(2)]] assms(4) by (simp add: node_ok_def)
  ultimately have "nodes_ok ?s2"
    by (rule nodes_ok_insert) (use le in simp_all)
  moreover have "opens_ok ?s2"
    using ok opens_ok_cong [of ?s2 s] by (simp add: tmpfs_ok_def)
  ultimately show ?thesis
    using ok by (simp add: rename_finish_def tmpfs_ok_def)
qed

lemma tmpfs_ok_rename:
  assumes ok: "tmpfs_ok s" shows "tmpfs_ok (fst (tmpfs_rename s old new))"
proof (cases "norm old = norm new \<or> bt_get (nodes s) (norm old) = None \<or>
    bt_get (nodes s) (parent (norm new)) = None \<or> \<not> nd_is_dir (the (bt_get (nodes s) (parent (norm new))))")
  case True
  with ok show ?thesis
    by (simp add: rename_refused)
next
  case False
  then obtain src p where g: "norm old \<noteq> norm new" "bt_get (nodes s) (norm old) = Some src"
      "bt_get (nodes s) (parent (norm new)) = Some p" "nd_is_dir p"
    by auto
  show ?thesis
  proof (cases "bt_get (nodes s) (norm new)")
    case None
    then show ?thesis
      using tmpfs_ok_rename_finish [OF ok g(2) None canonical_norm] by (simp add: rename_cases [OF g])
  next
    case (Some dst)
    let ?s1 = "s\<lparr>tot := (if nd_is_dir dst then tot s else tot s - length (nd_data dst)), nodes := bt_remove (norm new) (nodes s)\<rparr>"
    have nok: "nodes_ok s"
      using ok by (simp add: tmpfs_ok_def)
    have "nodes_ok ?s1"
      by (rule nodes_ok_remove [OF nok Some]) (use dir_empty [OF nok Some] in simp_all)
    then have "tmpfs_ok ?s1"
      using ok opens_ok_cong [of ?s1 s] by (simp add: tmpfs_ok_def)
    then have "tmpfs_ok (fst (rename_finish ?s1 (norm old) (norm new) src))"
      by (rule tmpfs_ok_rename_finish) (use g in \<open>simp_all add: bt_get_remove canonical_norm\<close>)
    with ok Some show ?thesis
      by (cases "nd_is_dir dst"; cases "nd_is_dir src") (simp_all add: rename_cases [OF g])
  qed
qed

section \<open>Calls\<close>

datatype tmpfs_call =
    TOpen bytes u64 nat
  | TWrite int nat nat
  | TPwrite int nat nat nat
  | TRead int nat nat
  | TPread int nat nat nat
  | TLseek int int int
  | TFtruncate int nat
  | TTruncate bytes nat
  | TStat bytes nat
  | TFstat int nat
  | TClose int
  | TUnlink bytes
  | TRename bytes bytes
  | TMkdir bytes nat
  | TRmdir bytes
  | TAccess bytes
  | TGetdents64 int nat nat

text \<open>One call, \<open>None\<close> when it panics.\<close>

fun tmpfs_exec :: "tmpfs_call \<Rightarrow> machine \<times> tmpfs \<Rightarrow> (machine \<times> tmpfs \<times> int) option" where
  "tmpfs_exec (TOpen path flags mode) (m, s) = Some (m, tmpfs_open s path flags mode)"
| "tmpfs_exec (TWrite fd src count) (m, s) = Some (m, tmpfs_write m s fd src count)"
| "tmpfs_exec (TPwrite fd src count offset) (m, s) = Some (m, tmpfs_pwrite m s fd src count offset)"
| "tmpfs_exec (TRead fd dst count) (m, s) = Some (tmpfs_read m s fd dst count)"
| "tmpfs_exec (TPread fd dst count offset) (m, s) =
     (let (m', r) = tmpfs_pread m s fd dst count offset in Some (m', s, r))"
| "tmpfs_exec (TLseek fd offset whence) (m, s) = Some (m, tmpfs_lseek s fd offset whence)"
| "tmpfs_exec (TFtruncate fd len) (m, s) = map_option (Pair m) (tmpfs_ftruncate s fd len)"
| "tmpfs_exec (TTruncate path len) (m, s) = map_option (Pair m) (tmpfs_truncate s path len)"
| "tmpfs_exec (TStat path dst) (m, s) = (let (m', r) = tmpfs_stat m s path dst in Some (m', s, r))"
| "tmpfs_exec (TFstat fd dst) (m, s) = (let (m', r) = tmpfs_fstat m s fd dst in Some (m', s, r))"
| "tmpfs_exec (TClose fd) (m, s) = Some (m, tmpfs_close s fd)"
| "tmpfs_exec (TUnlink path) (m, s) = Some (m, tmpfs_unlink s path)"
| "tmpfs_exec (TRename old new) (m, s) = Some (m, tmpfs_rename s old new)"
| "tmpfs_exec (TMkdir path mode) (m, s) = Some (m, tmpfs_mkdir s path mode)"
| "tmpfs_exec (TRmdir path) (m, s) = Some (m, tmpfs_rmdir s path)"
| "tmpfs_exec (TAccess path) (m, s) = Some (m, s, tmpfs_access s path)"
| "tmpfs_exec (TGetdents64 fd dst count) (m, s) = Some (tmpfs_getdents64 m s fd dst count)"

primrec tmpfs_run :: "tmpfs_call list \<Rightarrow> machine \<times> tmpfs \<Rightarrow> (machine \<times> tmpfs) option" where
  "tmpfs_run [] st = Some st"
| "tmpfs_run (c # cs) st =
     (case tmpfs_exec c st of None \<Rightarrow> None | Some (m, s, r) \<Rightarrow> tmpfs_run cs (m, s))"

lemma tmpfs_ok_open:
  "tmpfs_ok s \<Longrightarrow> NEXT_FD s + 1 < 2 ^ 31 \<Longrightarrow> tmpfs_ok (fst (tmpfs_open s path flags mode))"
  by (simp add: tmpfs_ok_def nodes_ok_open opens_ok_open)

lemmas tmpfs_ok_ops = tmpfs_ok_open tmpfs_ok_write tmpfs_ok_pwrite tmpfs_ok_read tmpfs_ok_lseek
  tmpfs_ok_close tmpfs_ok_unlink tmpfs_ok_rename tmpfs_ok_mkdir tmpfs_ok_rmdir tmpfs_ok_getdents64

lemma tmpfs_ok_truncates:
  assumes "tmpfs_ok s"
  shows "tmpfs_ftruncate s fd len = Some (s', r) \<Longrightarrow> tmpfs_ok s'"
    "tmpfs_truncate s path len = Some (s', r) \<Longrightarrow> tmpfs_ok s'"
  using assms tmpfs_ok_resize
  by (auto simp: tmpfs_ftruncate_def tmpfs_truncate_def split: option.splits if_splits)

lemma tmpfs_ok_exec:
  assumes ok: "tmpfs_ok s" "NEXT_FD s + 1 < 2 ^ 31" and e: "tmpfs_exec c (m, s) = Some (m', s', r)"
  shows "tmpfs_ok s'"
proof -
  have via: "tmpfs_ok s'" if "p = (s', r)" "tmpfs_ok (fst p)" for p
    using that by simp
  have via': "tmpfs_ok s'" if "p = (m', s', r)" "tmpfs_ok (fst (snd p))" for p
    using that by simp
  show ?thesis
    using e ok
    by (cases c)
       (auto simp: Let_def split: prod.splits intro: tmpfs_ok_truncates elim!: via via' intro!: tmpfs_ok_ops)
qed

text \<open>Only \<open>open\<close> takes a descriptor number.\<close>

lemma next_fd_simps [simp]:
  "NEXT_FD (fst (tmpfs_write m s fd src count)) = NEXT_FD s"
  "NEXT_FD (fst (tmpfs_pwrite m s fd src count offset)) = NEXT_FD s"
  "NEXT_FD (fst (snd (tmpfs_read m s fd dst count))) = NEXT_FD s"
  "NEXT_FD (fst (tmpfs_lseek s fd off whence)) = NEXT_FD s"
  "NEXT_FD (fst (tmpfs_close s fd)) = NEXT_FD s"
  "NEXT_FD (fst (snd (tmpfs_getdents64 m s fd dst count))) = NEXT_FD s"
proof -
  show "NEXT_FD (fst (tmpfs_write m s fd src count)) = NEXT_FD s"
    by (simp add: tmpfs_write_def Let_def split_beta split: option.split)
  show "NEXT_FD (fst (tmpfs_pwrite m s fd src count offset)) = NEXT_FD s"
    by (simp add: tmpfs_pwrite_def Let_def split: option.split)
  show "NEXT_FD (fst (snd (tmpfs_read m s fd dst count))) = NEXT_FD s"
    by (simp add: tmpfs_read_def Let_def split_beta split: option.split)
  show "NEXT_FD (fst (tmpfs_lseek s fd off whence)) = NEXT_FD s"
    by (simp add: tmpfs_lseek_def Let_def split: option.split)
  show "NEXT_FD (fst (tmpfs_close s fd)) = NEXT_FD s"
    by (simp add: tmpfs_close_def split: option.split)
  show "NEXT_FD (fst (snd (tmpfs_getdents64 m s fd dst count))) = NEXT_FD s"
    by (simp add: tmpfs_getdents64_def Let_def split_beta split: option.split)
qed

lemma next_fd_names [simp]:
  "NEXT_FD (fst (tmpfs_unlink s path)) = NEXT_FD s"
  "NEXT_FD (fst (tmpfs_rename s old new)) = NEXT_FD s"
  "NEXT_FD (fst (tmpfs_mkdir s path mode)) = NEXT_FD s"
  "NEXT_FD (fst (tmpfs_rmdir s path)) = NEXT_FD s"
proof -
  show "NEXT_FD (fst (tmpfs_unlink s path)) = NEXT_FD s"
    by (simp add: tmpfs_unlink_def Let_def split: option.split)
  show "NEXT_FD (fst (tmpfs_rename s old new)) = NEXT_FD s"
    unfolding tmpfs_rename_def Let_def by (simp split: option.split)
  show "NEXT_FD (fst (tmpfs_mkdir s path mode)) = NEXT_FD s"
    by (simp add: tmpfs_mkdir_def Let_def split: option.split)
  show "NEXT_FD (fst (tmpfs_rmdir s path)) = NEXT_FD s"
    by (simp add: tmpfs_rmdir_def Let_def split: option.split)
qed

lemma next_fd_resize: "resize_path s path len = Some (s', r) \<Longrightarrow> NEXT_FD s' = NEXT_FD s"
  by (auto simp: resize_path_def Let_def split: option.splits if_splits)

lemma exec_next_fd:
  assumes "tmpfs_exec c (m, s) = Some (m', s', r)" "TMPFS_FD_BASE \<le> NEXT_FD s" "NEXT_FD s + 1 < 2 ^ 31"
  shows "NEXT_FD s' \<in> {NEXT_FD s, NEXT_FD s + 1}"
proof -
  have w: "i32_of (NEXT_FD s + 1) = NEXT_FD s + 1"
    using assms(2,3) by (intro i32_of_id) (simp_all add: TMPFS_FD_BASE_def)
  have via: "NEXT_FD s' \<in> {NEXT_FD s, NEXT_FD s + 1}" if "p = (s', r)" "NEXT_FD (fst p) = NEXT_FD s" for p
    using that by simp
  have via': "NEXT_FD s' \<in> {NEXT_FD s, NEXT_FD s + 1}" if "p = (m', s', r)" "NEXT_FD (fst (snd p)) = NEXT_FD s" for p
    using that by simp
  show ?thesis
  proof (cases c)
    case (TOpen path flags mode)
    then show ?thesis
      using open_next [of s path flags mode] assms(1) w by auto
  qed (use assms(1) next_fd_resize in
        \<open>auto simp: Let_def tmpfs_ftruncate_def tmpfs_truncate_def split: prod.splits option.splits if_splits
           elim!: via [simplified] via' [simplified]\<close>)
qed

lemma tmpfs_run_ok:
  "tmpfs_run cs (m, s) = Some (m', s') \<Longrightarrow> tmpfs_ok s \<Longrightarrow> NEXT_FD s + int (length cs) < 2 ^ 31 \<Longrightarrow> tmpfs_ok s'"
proof (induction cs arbitrary: m s)
  case (Cons c cs)
  then obtain m1 s1 r where e: "tmpfs_exec c (m, s) = Some (m1, s1, r)" and run: "tmpfs_run cs (m1, s1) = Some (m', s')"
    by (auto split: option.splits)
  have b: "TMPFS_FD_BASE \<le> NEXT_FD s" "NEXT_FD s + 1 < 2 ^ 31"
    using Cons.prems(2,3) by (simp_all add: tmpfs_ok_def opens_ok_def)
  have "tmpfs_ok s1"
    by (rule tmpfs_ok_exec [OF Cons.prems(2) b(2) e])
  moreover have "NEXT_FD s1 + int (length cs) < 2 ^ 31"
    using exec_next_fd [OF e b] Cons.prems(3) by auto
  ultimately show ?case
    using Cons.IH [OF run] by blast
qed simp

lemma tmpfs_ok_init: "tmpfs_ok tmpfs_init"
  unfolding tmpfs_ok_def nodes_ok_def opens_ok_def tmpfs_init_def
  by (simp add: node_ok_def dir_node_def canonical_def CAP_def TMPFS_FD_BASE_def TMPFS_MAX_OPEN_def)

end
