(* ===== verification/Tmpfs_Properties.thy ===== *)
theory Tmpfs_Properties
  imports Tmpfs_Invariant
begin

text \<open>
  The in-memory file system as a tree of names and as a store of file contents, and the properties
  of its operations.  The tree lemmas speak of the finite map from paths to nodes; the operations
  are related to it by the laws of the ordered map.
\<close>

unbundle bit_operations_syntax

section \<open>The tree of names\<close>

definition mount_root :: "bytes \<Rightarrow> bool" where
  "mount_root k \<longleftrightarrow> k = bytes_of ''/tmp'' \<or> k = bytes_of ''/dev/shm''"

definition dir_at :: "(bytes \<rightharpoonup> node) \<Rightarrow> bytes \<Rightarrow> bool" where
  "dir_at f k \<longleftrightarrow> (\<exists>p. f k = Some p \<and> nd_is_dir p)"

definition tree :: "(bytes \<rightharpoonup> node) \<Rightarrow> bool" where
  "tree f \<longleftrightarrow> f (bytes_of ''/'') = None \<and> (\<forall>k. mount_root k \<longrightarrow> dir_at f k) \<and>
     (\<forall>k. f k \<noteq> None \<longrightarrow> mount_root k \<or> dir_at f (parent k))"

lemma parent_slash [simp]: "parent (bytes_of ''/'') = bytes_of ''/''"
  by (simp add: parent_def rposition_def)

lemma mount_root_not_slash: "mount_root k \<Longrightarrow> k \<noteq> bytes_of ''/''"
  by (auto simp: mount_root_def)

lemma treeD:
  assumes "tree f"
  shows "f (bytes_of ''/'') = None" "mount_root k \<Longrightarrow> dir_at f k"
    "f k = Some nd \<Longrightarrow> \<not> mount_root k \<Longrightarrow> dir_at f (parent k)"
  using assms unfolding tree_def by blast+

lemma canonical_short: "canonical k \<Longrightarrow> \<not> 1 < length k \<Longrightarrow> k = bytes_of ''/''"
  by (cases k; cases "tl k") (auto simp: canonical_def)

text \<open>A map with the same names, each of the same kind, is a tree when the other is.\<close>

lemma tree_cong:
  assumes "\<And>k. map_option nd_is_dir (f k) = map_option nd_is_dir (g k)"
  shows "tree f = tree g"
proof -
  have "dir_at f = dir_at g"
    unfolding dir_at_def fun_eq_iff using assms by (metis map_option_eq_Some)
  moreover have "f k = None \<longleftrightarrow> g k = None" for k
    using assms [of k] by (cases "f k"; cases "g k") simp_all
  ultimately show ?thesis
    by (simp add: tree_def)
qed

lemma tree_insert:
  assumes t: "tree f" and "f n = None" "dir_at f (parent n)"
  shows "tree (f(n \<mapsto> nd))"
proof -
  have keep: "dir_at (f(n \<mapsto> nd)) k" if "dir_at f k" for k
    using that assms(2) by (auto simp: dir_at_def)
  have "n \<noteq> bytes_of ''/''"
    using assms(3) treeD(1) [OF t] by (auto simp: dir_at_def simp del: bytes_of_simps)
  then show ?thesis
    using t assms(3) keep unfolding tree_def by (auto simp del: bytes_of_simps)
qed

lemma tree_remove:
  assumes t: "tree f" and "\<not> mount_root n"
    and free: "\<And>k nd. f k = Some nd \<Longrightarrow> \<not> mount_root k \<Longrightarrow> k \<noteq> n \<Longrightarrow> parent k \<noteq> n"
  shows "tree (f(n := None))"
  using assms unfolding tree_def dir_at_def by (auto simp del: bytes_of_simps)

text \<open>A file has no children; a directory without names below it has none either.\<close>

lemma file_childless:
  assumes "tree f" "f n = Some nd" "\<not> nd_is_dir nd" "f k = Some v" "\<not> mount_root k"
  shows "parent k \<noteq> n"
  using treeD(3) [OF assms(1,4,5)] assms(2,3) by (auto simp: dir_at_def)

lemma file_not_root: "tree f \<Longrightarrow> f n = Some nd \<Longrightarrow> \<not> nd_is_dir nd \<Longrightarrow> \<not> mount_root n"
  using treeD(2) by (force simp: dir_at_def)

lemma empty_childless:
  assumes t: "tree f" and "f n = Some nd" "f k = Some v" "canonical k" "\<not> mount_root k" "k \<noteq> n"
    and empty: "\<And>k v. f k = Some v \<Longrightarrow> \<not> is_under k n"
  shows "parent k \<noteq> n"
proof
  assume p: "parent k = n"
  have "n \<noteq> bytes_of ''/''"
    using treeD(1) [OF t] assms(2) by (auto simp del: bytes_of_simps)
  moreover have "1 < length k"
  proof (rule ccontr)
    assume "\<not> 1 < length k"
    with assms(4) have "k = bytes_of ''/''"
      by (rule canonical_short)
    then show False
      using treeD(1) [OF t] assms(3) by (simp del: bytes_of_simps)
  qed
  ultimately have "is_under k n"
    using is_under_parent [OF assms(4)] p by blast
  then show False
    using empty [OF assms(3)] by blast
qed

text \<open>Every name of a tree lies at or below a mount point.\<close>

lemma tree_mount_path:
  assumes t: "tree f" and can: "\<And>k v. f k = Some v \<Longrightarrow> canonical k"
  shows "f k = Some v \<Longrightarrow> is_mount_path k"
proof (induction "length k" arbitrary: k v rule: less_induct)
  case less
  show ?case
  proof (cases "mount_root k")
    case True
    then show ?thesis
      by (auto simp: mount_path_iff mount_root_def simp del: bytes_of_simps)
  next
    case False
    then obtain p where p: "f (parent k) = Some p"
      using treeD(3) [OF t less.prems] by (auto simp: dir_at_def)
    have ck: "canonical k"
      by (rule can [OF less.prems])
    have ns: "parent k \<noteq> bytes_of ''/''"
      using p treeD(1) [OF t] by (auto simp del: bytes_of_simps)
    have len: "1 < length k"
    proof (rule ccontr)
      assume "\<not> 1 < length k"
      with ck have "k = bytes_of ''/''"
        by (rule canonical_short)
      then show False
        using ns by (simp del: bytes_of_simps)
    qed
    have "is_mount_path (parent k)"
      using less.hyps [OF length_parent [OF ck len] p] .
    then obtain r where r: "r \<in> {bytes_of ''/tmp'', bytes_of ''/dev/shm''}" "parent k = r \<or> is_under (parent k) r"
      unfolding mount_path_iff by blast
    have u: "is_under k (parent k)"
      by (rule is_under_parent [OF ck len ns])
    have "is_under k r"
      using r(2)
    proof
      assume "parent k = r" with u show ?thesis by simp
    next
      assume "is_under (parent k) r" with u show ?thesis by (rule is_under_trans)
    qed
    with r(1) show ?thesis
      unfolding mount_path_iff by blast
  qed
qed

section \<open>The operations on the tree\<close>

definition tree_ok :: "tmpfs \<Rightarrow> bool" where
  "tree_ok s \<longleftrightarrow> tree (bt_get (nodes s))"

lemma canonical_get: "nodes_ok s \<Longrightarrow> bt_get (nodes s) k = Some v \<Longrightarrow> canonical k"
  using nodes_okD(2) [OF _ bt_get_SomeD] by (force simp: node_ok_def)

lemma has_children_iff:
  "nodes_ok s \<Longrightarrow> has_children s n \<longleftrightarrow> (\<exists>k v. bt_get (nodes s) k = Some v \<and> is_under k n)"
  by (force simp: has_children_def list_ex_iff bt_get_iff nodes_okD(1))

lemma tree_ok_modify:
  assumes "tree_ok s" "\<And>nd. nd_is_dir (f nd) = nd_is_dir nd" "nodes s' = bt_modify n f (nodes s)"
  shows "tree_ok s'"
proof -
  have "map_option nd_is_dir (bt_get (nodes s') k) = map_option nd_is_dir (bt_get (nodes s) k)" for k
    using assms(2) by (simp add: assms(3) bt_get_modify option.map_comp comp_def)
  then show ?thesis
    using assms(1) tree_cong [of "bt_get (nodes s')" "bt_get (nodes s)"] by (simp add: tree_ok_def)
qed

lemma tree_ok_cong: "nodes s' = nodes s \<Longrightarrow> tree_ok s' = tree_ok s"
  by (simp add: tree_ok_def)

lemma tree_ok_insert:
  assumes "nodes_ok s" "tree_ok s" "bt_get (nodes s) n = None" "bt_get (nodes s) (parent n) = Some p" "nd_is_dir p"
    and "nodes s' = bt_insert n nd (nodes s)"
  shows "tree_ok s'"
  using assms tree_insert [of "bt_get (nodes s)" n nd]
  by (simp add: tree_ok_def bt_get_insert nodes_okD(1) dir_at_def)

lemma tree_ok_remove_file:
  assumes "tree_ok s" "bt_get (nodes s) n = Some nd" "\<not> nd_is_dir nd" "nodes s' = bt_remove n (nodes s)"
  shows "tree_ok s'"
proof -
  have t: "tree (bt_get (nodes s))"
    using assms(1) by (simp add: tree_ok_def)
  have "tree ((bt_get (nodes s))(n := None))"
    by (rule tree_remove [OF t file_not_root [OF t assms(2,3)]]) (rule file_childless [OF t assms(2,3)])
  then show ?thesis
    by (simp add: tree_ok_def assms(4) bt_get_remove)
qed

lemma tree_ok_remove_empty:
  assumes nok: "nodes_ok s" and "tree_ok s" "bt_get (nodes s) n = Some nd" "\<not> has_children s n" "\<not> mount_root n"
    and "nodes s' = bt_remove n (nodes s)"
  shows "tree_ok s'"
proof -
  have t: "tree (bt_get (nodes s))"
    using assms(2) by (simp add: tree_ok_def)
  have "tree ((bt_get (nodes s))(n := None))"
  proof (rule tree_remove [OF t assms(5)])
    fix k v assume k: "bt_get (nodes s) k = Some v" "\<not> mount_root k" "k \<noteq> n"
    show "parent k \<noteq> n"
      by (rule empty_childless [OF t assms(3) k(1) canonical_get [OF nok k(1)] k(2,3)])
         (use assms(4) has_children_iff [OF nok] in blast)
  qed
  then show ?thesis
    by (simp add: tree_ok_def assms(6) bt_get_remove)
qed

lemma tree_ok_open:
  assumes nok: "nodes_ok s" and t: "tree_ok s"
  shows "tree_ok (fst (tmpfs_open s path flags mode))"
proof -
  have alloc: "tree_ok (fst (alloc_open u p a b c d)) = tree_ok u" for u p a b c d
    by (rule tree_ok_cong) simp
  have trunc: "tree_ok (s\<lparr>tot := x, nodes := bt_modify n (\<lambda>nd. nd\<lparr>nd_data := []\<rparr>) (nodes s)\<rparr>)" for x n
    by (rule tree_ok_modify [OF t, where n = n and f = "\<lambda>nd. nd\<lparr>nd_data := []\<rparr>"]) simp_all
  have create: "tree_ok (s\<lparr>nodes := bt_insert n nd (nodes s)\<rparr>)"
    if "bt_get (nodes s) n = None" "bt_get (nodes s) (parent n) = Some p" "nd_is_dir p" for n nd p
    by (rule tree_ok_insert [OF nok t that]) simp
  show ?thesis
    unfolding tmpfs_open_def Let_def
    using t trunc create by (simp add: alloc split: option.split)
qed

lemma tree_ok_write_at:
  assumes t: "tree_ok s" shows "tree_ok (fst (write_at m s path at src count))"
proof (cases "bt_get (nodes s) path")
  case (Some nd)
  define n where "n = grant_write (tot s) CAP at (length (nd_data nd)) count"
  show ?thesis
  proof (cases "nd_is_dir nd \<or> count = 0 \<or> n = 0")
    case False
    then have c: "\<not> nd_is_dir nd" "0 < count" "0 < n"
      by auto
    obtain d r where w: "write_at m s path at src count =
        (s\<lparr>tot := tot s + growth at (length (nd_data nd)) n, nodes := bt_modify path (\<lambda>nd. nd\<lparr>nd_data := d\<rparr>) (nodes s)\<rparr>, r)"
      by (rule write_at_cases [OF Some c(1,2) n_def [symmetric] c(3)]) blast
    show ?thesis
      unfolding w fst_conv by (rule tree_ok_modify [OF t, where n = path and f = "\<lambda>nd. nd\<lparr>nd_data := d\<rparr>"]) simp_all
  qed (use t Some in \<open>auto simp: write_at_def n_def Let_def\<close>)
qed (use t in \<open>simp add: write_at_def\<close>)

lemma nodes_write: "\<exists>p at. nodes (fst (tmpfs_write m s fd src count)) = nodes (fst (write_at m s p at src count))
    \<or> fst (tmpfs_write m s fd src count) = s"
  unfolding tmpfs_write_def Let_def split_beta by (auto split: option.split)

lemma tree_ok_write: "tree_ok s \<Longrightarrow> tree_ok (fst (tmpfs_write m s fd src count))"
  using nodes_write [of m s fd src count] tree_ok_write_at tree_ok_cong by metis

lemma tree_ok_pwrite: "tree_ok s \<Longrightarrow> tree_ok (fst (tmpfs_pwrite m s fd src count offset))"
  by (simp add: tmpfs_pwrite_def Let_def tree_ok_write_at split: option.split)

lemma tree_ok_resize:
  assumes t: "tree_ok s" and r: "resize_path s path len = Some (s', r)" shows "tree_ok s'"
proof (cases "nodes s' = nodes s")
  case False
  then have "nodes s' = bt_modify path (\<lambda>nd. nd\<lparr>nd_data := resize (nd_data nd) len 0\<rparr>) (nodes s)"
    using r by (auto simp: resize_path_def Let_def split: option.splits if_splits)
  then show ?thesis
    by (rule tree_ok_modify [OF t, rotated]) simp
qed (use t tree_ok_cong in blast)

lemma tree_ok_unlink: "tree_ok s \<Longrightarrow> tree_ok (fst (tmpfs_unlink s path))"
  unfolding tmpfs_unlink_def Let_def by (auto intro: tree_ok_remove_file split: option.split)

lemma tree_ok_rmdir:
  assumes "nodes_ok s" "tree_ok s" shows "tree_ok (fst (tmpfs_rmdir s path))"
proof -
  have "tree_ok (s\<lparr>nodes := bt_remove n (nodes s)\<rparr>)"
    if "bt_get (nodes s) n = Some nd" "\<not> has_children s n" "n \<noteq> bytes_of ''/tmp''" "n \<noteq> bytes_of ''/dev/shm''" for n nd
    by (rule tree_ok_remove_empty [OF assms that(1,2)]) (use that(3,4) in \<open>simp_all add: mount_root_def del: bytes_of_simps\<close>)
  then show ?thesis
    using assms(2) unfolding tmpfs_rmdir_def Let_def by (simp split: option.split del: bytes_of_simps)
qed

lemma tree_ok_mkdir:
  assumes "nodes_ok s" "tree_ok s" shows "tree_ok (fst (tmpfs_mkdir s path mode))"
proof -
  have "tree_ok (s\<lparr>nodes := bt_insert n nd (nodes s)\<rparr>)"
    if "bt_get (nodes s) n = None" "bt_get (nodes s) (parent n) = Some p" "nd_is_dir p" for n nd p
    by (rule tree_ok_insert [OF assms that]) simp
  then show ?thesis
    using assms(2) unfolding tmpfs_mkdir_def Let_def by (simp split: option.split)
qed

lemma tree_ok_rename_finish:
  assumes nok: "nodes_ok s" and t: "tree_ok s" and src: "bt_get (nodes s) o' = Some src"
    and nw: "bt_get (nodes s) nw = None" "bt_get (nodes s) (parent nw) = Some p" "nd_is_dir p"
    and legal: "\<not> mount_root o'" "parent nw \<noteq> o'"
  shows "tree_ok (fst (rename_finish s o' nw src))"
proof (cases "nd_is_dir src \<and> has_children s o'")
  case False
  let ?s1 = "s\<lparr>nodes := bt_remove o' (nodes s), tot := tot s - length (nd_data src)\<rparr>"
  have "tree_ok ?s1"
  proof (cases "nd_is_dir src")
    case True
    with False have "\<not> has_children s o'"
      by simp
    then show ?thesis
      by (rule tree_ok_remove_empty [OF nok t src _ legal(1)]) simp
  next
    case file': False
    show ?thesis
      by (rule tree_ok_remove_file [OF t src file']) simp
  qed
  moreover have "nodes_ok ?s1"
    by (rule nodes_ok_remove [OF nok src]) simp_all
  moreover have "bt_get (nodes ?s1) nw = None" "bt_get (nodes ?s1) (parent nw) = Some p"
    using nw legal(2) by (simp_all add: bt_get_remove)
  ultimately have "tree_ok (s\<lparr>nodes := bt_insert nw src (bt_remove o' (nodes s))\<rparr>)"
    using nw(3) tree_ok_insert [of ?s1 nw p "s\<lparr>nodes := bt_insert nw src (bt_remove o' (nodes s))\<rparr>" src] by simp
  with False show ?thesis
    by (auto simp: rename_finish_def)
qed (use t in \<open>simp add: rename_finish_def\<close>)

text \<open>
  A destination that exists has a directory as parent, so it is not a mount point: the parents of
  the mount points are not names of the store.
\<close>

lemma root_parent: "tree f \<Longrightarrow> mount_root n \<Longrightarrow> (\<And>k v. f k = Some v \<Longrightarrow> canonical k) \<Longrightarrow> f (parent n) = None"
proof (rule ccontr)
  assume t: "tree f" and n: "mount_root n" and c: "\<And>k v. f k = Some v \<Longrightarrow> canonical k" and "f (parent n) \<noteq> None"
  then have "is_mount_path (parent n)"
    using tree_mount_path [OF t] by blast
  moreover have "parent n = bytes_of ''/'' \<or> parent n = bytes_of ''/dev''"
    using n by (auto simp: mount_root_def parent_def rposition_def)
  ultimately show False
    by (auto simp: is_mount_path_def starts_with_def)
qed

lemma tree_ok_rename:
  assumes nok: "nodes_ok s" and t: "tree_ok s" and legal: "\<not> mount_root (norm old)" "parent (norm new) \<noteq> norm old"
  shows "tree_ok (fst (tmpfs_rename s old new))"
proof (cases "norm old = norm new \<or> bt_get (nodes s) (norm old) = None \<or>
    bt_get (nodes s) (parent (norm new)) = None \<or> \<not> nd_is_dir (the (bt_get (nodes s) (parent (norm new))))")
  case True
  with t show ?thesis
    by (simp add: rename_refused)
next
  case False
  then obtain src p where g: "norm old \<noteq> norm new" "bt_get (nodes s) (norm old) = Some src"
      "bt_get (nodes s) (parent (norm new)) = Some p" "nd_is_dir p"
    by auto
  show ?thesis
  proof (cases "bt_get (nodes s) (norm new)")
    case None
    then show ?thesis
      using tree_ok_rename_finish [OF nok t g(2) None g(3,4) legal] by (simp add: rename_cases [OF g])
  next
    case (Some dst)
    let ?s1 = "s\<lparr>tot := (if nd_is_dir dst then tot s else tot s - length (nd_data dst)), nodes := bt_remove (norm new) (nodes s)\<rparr>"
    have nr: "\<not> mount_root (norm new)"
      using root_parent [of "bt_get (nodes s)" "norm new"] t canonical_get [OF nok] g(3) by (auto simp: tree_ok_def)
    have pn: "parent (norm new) \<noteq> norm new"
      using length_parent [OF canonical_norm, of new] canonical_short [OF canonical_norm, of new] Some t
      by (cases "1 < length (norm new)") (auto simp: tree_ok_def tree_def simp del: bytes_of_simps)
    have nok1: "nodes_ok ?s1"
      by (rule nodes_ok_remove [OF nok Some]) (use dir_empty [OF nok Some] in simp_all)
    have "tree_ok (fst (rename_finish ?s1 (norm old) (norm new) src))"
      if "nd_is_dir dst \<longrightarrow> \<not> has_children s (norm new)"
    proof (rule tree_ok_rename_finish [OF nok1])
      show "tree_ok ?s1"
      proof (cases "nd_is_dir dst")
        case True
        with that show ?thesis
          by (intro tree_ok_remove_empty [OF nok t Some _ nr]) simp_all
      next
        case file': False
        show ?thesis
          by (rule tree_ok_remove_file [OF t Some file']) simp
      qed
    qed (use g legal pn in \<open>simp_all add: bt_get_remove\<close>)
    with t Some show ?thesis
      by (cases "nd_is_dir dst"; cases "nd_is_dir src") (simp_all add: rename_cases [OF g])
  qed
qed

text \<open>
  The calls that keep the tree: all but a rename of a mount point and a rename of a name to a
  direct child of itself.
\<close>

fun keeps_tree :: "tmpfs_call \<Rightarrow> bool" where
  "keeps_tree (TRename old new) \<longleftrightarrow> \<not> mount_root (norm old) \<and> parent (norm new) \<noteq> norm old"
| "keeps_tree _ \<longleftrightarrow> True"

lemma nodes_simps [simp]:
  "nodes (fst (snd (tmpfs_read m s fd dst count))) = nodes s"
  "nodes (fst (tmpfs_lseek s fd off whence)) = nodes s"
  "nodes (fst (tmpfs_close s fd)) = nodes s"
  "nodes (fst (snd (tmpfs_getdents64 m s fd dst count))) = nodes s"
  by (simp_all add: tmpfs_read_def tmpfs_lseek_def tmpfs_close_def tmpfs_getdents64_def Let_def split_beta
      split: option.split)

lemma tree_ok_exec:
  assumes ok: "nodes_ok s" "tree_ok s" and k: "keeps_tree c" and e: "tmpfs_exec c (m, s) = Some (m', s', r)"
  shows "tree_ok s'"
proof -
  have via: "tree_ok s'" if "p = (s', r)" "tree_ok (fst p)" for p
    using that by simp
  have via': "tree_ok s'" if "p = (m', s', r)" "nodes (fst (snd p)) = nodes s" for p
    using that ok tree_ok_cong [of s' s] by simp
  have same: "tree_ok (fst p)" if "nodes (fst p) = nodes s" for p :: "tmpfs \<times> int"
    using that ok tree_ok_cong [of "fst p" s] by simp
  show ?thesis
  proof (cases c)
    case (TFtruncate fd len)
    then show ?thesis
      using e ok tree_ok_resize by (auto simp: tmpfs_ftruncate_def split: option.splits if_splits)
  next
    case (TTruncate path len)
    then show ?thesis
      using e ok tree_ok_resize by (auto simp: tmpfs_truncate_def split: if_splits)
  qed (use e ok k in \<open>auto simp: Let_def split: prod.splits elim!: via via'
         intro: tree_ok_open tree_ok_write tree_ok_pwrite tree_ok_unlink tree_ok_rmdir tree_ok_mkdir tree_ok_rename same\<close>)
qed

lemma tmpfs_run_tree:
  "tmpfs_run cs (m, s) = Some (m', s') \<Longrightarrow> tmpfs_ok s \<Longrightarrow> tree_ok s \<Longrightarrow> list_all keeps_tree cs \<Longrightarrow>
   NEXT_FD s + int (length cs) < 2 ^ 31 \<Longrightarrow> tree_ok s'"
proof (induction cs arbitrary: m s)
  case (Cons c cs)
  then obtain m1 s1 r where e: "tmpfs_exec c (m, s) = Some (m1, s1, r)" and run: "tmpfs_run cs (m1, s1) = Some (m', s')"
    by (auto split: option.splits)
  have b: "TMPFS_FD_BASE \<le> NEXT_FD s" "NEXT_FD s + 1 < 2 ^ 31"
    using Cons.prems(2,5) by (simp_all add: tmpfs_ok_def opens_ok_def)
  have "tmpfs_ok s1"
    by (rule tmpfs_ok_exec [OF Cons.prems(2) b(2) e])
  moreover have "tree_ok s1"
    using tree_ok_exec [OF _ Cons.prems(3) _ e] Cons.prems(2,4) by (simp add: tmpfs_ok_def)
  moreover have "NEXT_FD s1 + int (length cs) < 2 ^ 31"
    using exec_next_fd [OF e b] Cons.prems(5) by auto
  ultimately show ?case
    using Cons.IH [OF run] Cons.prems(4) by simp
qed simp

lemma tree_ok_init: "tree_ok tmpfs_init"
  unfolding tree_ok_def tree_def tmpfs_init_def dir_at_def mount_root_def
  by (auto simp: bt_get_def dir_node_def)

section \<open>Contents\<close>

text \<open>The content a write is meant to leave: new bytes, old bytes, zeros in a gap.\<close>

definition written :: "bytes \<Rightarrow> nat \<Rightarrow> bytes \<Rightarrow> bytes" where
  "written old at bs = map (\<lambda>i. if at \<le> i \<and> i < at + length bs then bs ! (i - at)
      else if i < length old then old ! i else 0) [0..<max (length old) (at + length bs)]"

lemma splice_grown: "splice (grown_data old (at + length bs)) at bs = written old at bs"
proof (rule nth_equalityI)
  show "length (splice (grown_data old (at + length bs)) at bs) = length (written old at bs)"
    by (simp add: length_splice written_def)
next
  fix i
  assume "i < length (splice (grown_data old (at + length bs)) at bs)"
  then have i: "i < max (length old) (at + length bs)"
    by (simp add: length_splice)
  have g: "grown_data old (at + length bs) ! i = (if i < length old then old ! i else 0)"
    using i by (auto simp: grown_data_def nth_resize max_def split: if_splits)
  have "splice (grown_data old (at + length bs)) at bs ! i =
      (if at \<le> i \<and> i < at + length bs then bs ! (i - at) else grown_data old (at + length bs) ! i)"
    using i by (auto simp: splice_def nth_append min_def)
  with g show "splice (grown_data old (at + length bs)) at bs ! i = written old at bs ! i"
    using i by (simp add: written_def)
qed

lemma read_back: "0 < length bs \<Longrightarrow> take (length bs) (drop at (written old at bs)) = bs"
  by (rule nth_equalityI) (auto simp: written_def)

section \<open>A concrete run\<close>

lemma example_norm:
  "norm (bytes_of ''/tmp/a/'') = bytes_of ''/tmp/a''" "norm (bytes_of ''/tmp/a/f'') = bytes_of ''/tmp/a/f''"
  "norm (bytes_of ''/dev/shm/g'') = bytes_of ''/dev/shm/g''" "norm (bytes_of ''/tmp/a'') = bytes_of ''/tmp/a''"
  "parent (bytes_of ''/tmp/a'') = bytes_of ''/tmp''" "parent (bytes_of ''/tmp/a/f'') = bytes_of ''/tmp/a''"
  "parent (bytes_of ''/dev/shm/g'') = bytes_of ''/dev/shm''"
  by (simp_all add: norm_def norm_absolute_def starts_with_def parent_def rposition_def pop_slashes.simps)

definition example_tree :: "(bytes \<times> node) list" where
  "example_tree = [(bytes_of ''/dev/shm'', dir_node 0x1FF), (bytes_of ''/tmp'', dir_node 0x1FF),
     (bytes_of ''/tmp/a'', dir_node 0x1ED)]"

definition example_file :: "bytes \<Rightarrow> node" where
  "example_file d = \<lparr>nd_is_dir = False, nd_data = d, nd_mode = 0x1A4\<rparr>"

definition example_fd :: open_fd where
  "example_fd = \<lparr>o_fd = 4000, o_path = bytes_of ''/tmp/a/f'', o_pos = 0, o_append = False, o_writable = True,
     o_is_dir = False, o_dir_pos = 0\<rparr>"

lemma example_mkdir: "tmpfs_mkdir tmpfs_init (bytes_of ''/tmp/a/'') 0 = (tmpfs_init\<lparr>nodes := example_tree\<rparr>, 0)"
  unfolding tmpfs_mkdir_def Let_def example_norm tmpfs_init_def
  by (simp add: bt_get_def dir_node_def example_tree_def)

lemma example_open:
  "tmpfs_open (tmpfs_init\<lparr>nodes := example_tree\<rparr>) (bytes_of ''/tmp/a/f'') (O_CREAT OR O_RDWR) 0 =
    (tmpfs_init\<lparr>nodes := example_tree @ [(bytes_of ''/tmp/a/f'', example_file [])], opens := [example_fd],
       NEXT_FD := 4001\<rparr>, 4000)"
  unfolding tmpfs_open_def Let_def example_norm tmpfs_init_def alloc_open_def
  by (simp add: bt_get_def dir_node_def example_tree_def example_file_def example_fd_def TMPFS_MAX_OPEN_def O_CREAT_def O_RDWR_def O_EXCL_def
     O_WRONLY_def O_DIRECTORY_def TMPFS_FD_BASE_def)

lemma example_ftruncate:
  "tmpfs_ftruncate (tmpfs_init\<lparr>nodes := example_tree @ [(bytes_of ''/tmp/a/f'', example_file [])], opens := [example_fd],
       NEXT_FD := 4001\<rparr>) 4000 3 =
    Some (tmpfs_init\<lparr>nodes := example_tree @ [(bytes_of ''/tmp/a/f'', example_file [0, 0, 0])], opens := [example_fd],
       NEXT_FD := 4001, tot := 3\<rparr>, 0)"
proof -
  have "resize ([] :: bytes) 3 0 = [0, 0, 0]"
    by (simp add: resize_def numeral_3_eq_3)
  then show ?thesis
    unfolding tmpfs_ftruncate_def resize_path_def Let_def tmpfs_init_def
    by (simp add: bt_get_def dir_node_def example_tree_def example_file_def example_fd_def CAP_def bt_modify_def)
qed

lemma example_rename:
  "tmpfs_rename (tmpfs_init\<lparr>nodes := example_tree @ [(bytes_of ''/tmp/a/f'', example_file d)], opens := [example_fd],
       NEXT_FD := 4001, tot := 3\<rparr>) (bytes_of ''/tmp/a/f'') (bytes_of ''/dev/shm/g'') =
    (tmpfs_init\<lparr>nodes := [(bytes_of ''/dev/shm'', dir_node 0x1FF), (bytes_of ''/dev/shm/g'', example_file d), (bytes_of ''/tmp'', dir_node 0x1FF),
     (bytes_of ''/tmp/a'', dir_node 0x1ED)], opens := [example_fd], NEXT_FD := 4001, tot := 3\<rparr>, 0)"
  unfolding tmpfs_rename_def Let_def example_norm tmpfs_init_def
  by (simp add: bt_get_def dir_node_def example_tree_def example_file_def bt_remove_def)

definition example_calls :: "tmpfs_call list" where
  "example_calls = [TMkdir (bytes_of ''/tmp/a/'') 0, TOpen (bytes_of ''/tmp/a/f'') (O_CREAT OR O_RDWR) 0,
     TFtruncate 4000 3, TRename (bytes_of ''/tmp/a/f'') (bytes_of ''/dev/shm/g'')]"

lemma example_run:
  "tmpfs_run example_calls (m, tmpfs_init) = Some (m, tmpfs_init\<lparr>nodes := [(bytes_of ''/dev/shm'', dir_node 0x1FF),
     (bytes_of ''/dev/shm/g'', example_file [0, 0, 0]), (bytes_of ''/tmp'', dir_node 0x1FF),
     (bytes_of ''/tmp/a'', dir_node 0x1ED)], opens := [example_fd], NEXT_FD := 4001, tot := 3\<rparr>)"
  by (simp add: example_calls_def example_mkdir example_open example_ftruncate example_rename del: bytes_of_simps)

section \<open>Properties\<close>

text \<open>
  C4: storage accounting and naming in every reachable state.  After any sequence of calls on the
  freshly mounted file system (short of exhausting the 31-bit descriptor numbers) in which no call
  panics, the running total is exactly the sum of the file sizes and never exceeds the cap, the
  paths are canonical, sorted and without duplicates, directories hold no bytes, and at most 256
  descriptors are open, all different and all from 4000 up.
\<close>

theorem tmpfs_reachable_ok:
  assumes "tmpfs_run cs (m, tmpfs_init) = Some (m', s')" and "length cs < 2 ^ 31 - 4000"
  shows "tot s' = (\<Sum>x\<leftarrow>nodes s'. length (nd_data (snd x))) \<and> tot s' \<le> CAP \<and>
    sorted_wrt (<) (map fst (nodes s')) \<and>
    (\<forall>k nd. bt_get (nodes s') k = Some nd \<longrightarrow> canonical k \<and> (nd_is_dir nd \<longrightarrow> nd_data nd = [])) \<and>
    distinct (map o_fd (opens s')) \<and> length (opens s') \<le> TMPFS_MAX_OPEN \<and>
    (\<forall>f\<in>set (opens s'). TMPFS_FD_BASE \<le> o_fd f \<and> o_fd f < NEXT_FD s')"
proof -
  have "NEXT_FD tmpfs_init + int (length cs) < 2 ^ 31"
    using assms(2) by (simp add: tmpfs_init_def TMPFS_FD_BASE_def)
  with assms(1) have ok: "tmpfs_ok s'"
    by (intro tmpfs_run_ok [OF _ tmpfs_ok_init])
  then have nok: "nodes_ok s'"
    by (simp add: tmpfs_ok_def)
  have "canonical k \<and> (nd_is_dir nd \<longrightarrow> nd_data nd = [])" if "bt_get (nodes s') k = Some nd" for k nd
    using canonical_get [OF nok that] dir_empty [OF nok that] by blast
  then show ?thesis
    using ok by (simp add: tmpfs_ok_def nodes_ok_def opens_ok_def used_def bt_ok_def)
qed

theorem tmpfs_reachable_ok_witness:
  "\<exists>s'. tmpfs_run example_calls (\<lparr>pg = example_paging, ram = (\<lambda>_. 0)\<rparr>, tmpfs_init) =
      Some (\<lparr>pg = example_paging, ram = (\<lambda>_. 0)\<rparr>, s') \<and> tot s' = 3 \<and>
    (\<Sum>x\<leftarrow>nodes s'. length (nd_data (snd x))) = 3 \<and> sorted_wrt (<) (map fst (nodes s'))"
proof -
  let ?m = "\<lparr>pg = example_paging, ram = (\<lambda>_. 0)\<rparr> :: machine"
  obtain s' where s': "tmpfs_run example_calls (?m, tmpfs_init) = Some (?m, s')" "tot s' = 3"
    by (simp only: example_run) simp
  moreover have "length example_calls < 2 ^ 31 - 4000"
    by (simp add: example_calls_def)
  ultimately show ?thesis
    using tmpfs_reachable_ok by metis
qed

text \<open>
  C14: the name space stays a tree.  After any sequence of calls on the freshly mounted file system
  in which no rename moves a mount point or moves a name to a direct child of itself, both mount
  points are directories, every other name lies below one of them, and its parent is a directory.
\<close>

theorem tmpfs_tree_kept:
  assumes "tmpfs_run cs (m, tmpfs_init) = Some (m', s')" "length cs < 2 ^ 31 - 4000" "list_all keeps_tree cs"
  shows "(\<forall>k. mount_root k \<longrightarrow> dir_at (bt_get (nodes s')) k) \<and>
    (\<forall>k. bt_get (nodes s') k \<noteq> None \<longrightarrow> is_mount_path k \<and> (mount_root k \<or> dir_at (bt_get (nodes s')) (parent k)))"
proof -
  have n: "NEXT_FD tmpfs_init + int (length cs) < 2 ^ 31"
    using assms(2) by (simp add: tmpfs_init_def TMPFS_FD_BASE_def)
  have t: "tree (bt_get (nodes s'))"
    using tmpfs_run_tree [OF assms(1) tmpfs_ok_init tree_ok_init assms(3) n] by (simp add: tree_ok_def)
  have nok: "nodes_ok s'"
    using tmpfs_run_ok [OF assms(1) tmpfs_ok_init n] by (simp add: tmpfs_ok_def)
  have "is_mount_path k" if "bt_get (nodes s') k = Some v" for k v
    by (rule tree_mount_path [OF t canonical_get [OF nok] that])
  then show ?thesis
    using t unfolding tree_def by auto
qed

theorem tmpfs_tree_kept_witness:
  "\<exists>m' s'. tmpfs_run example_calls (\<lparr>pg = example_paging, ram = (\<lambda>_. 0)\<rparr>, tmpfs_init) = Some (m', s') \<and>
    bt_get (nodes s') (bytes_of ''/dev/shm/g'') \<noteq> None \<and> is_mount_path (bytes_of ''/dev/shm/g'') \<and>
    dir_at (bt_get (nodes s')) (bytes_of ''/dev/shm'')"
proof -
  let ?m = "\<lparr>pg = example_paging, ram = (\<lambda>_. 0)\<rparr> :: machine"
  obtain s' where s': "tmpfs_run example_calls (?m, tmpfs_init) = Some (?m, s')"
      "bt_get (nodes s') (bytes_of ''/dev/shm/g'') \<noteq> None"
    by (simp only: example_run) (simp add: bt_get_def)
  have "length example_calls < 2 ^ 31 - 4000" "list_all keeps_tree example_calls"
    by (simp add: example_calls_def) (simp add: example_calls_def example_norm mount_root_def del: bytes_of_simps, simp)
  moreover have "mount_root (bytes_of ''/dev/shm'')"
    by (simp add: mount_root_def)
  ultimately show ?thesis
    using s' tmpfs_tree_kept [OF s'(1)] by blast
qed

lemma find_position: "find P xs = map_option (\<lambda>i. xs ! i) (position P xs)"
proof (induction xs)
  case (Cons x xs)
  then show ?case
    by (simp add: option.map_comp comp_def)
qed simp

text \<open>
  C18: writing and reading back.  A write at an offset through a writable descriptor that returns
  a positive count has stored exactly that many bytes of the caller's buffer, no more than asked
  for: the file then holds the new bytes over the old ones with zeros in any gap, every other file
  is unchanged, and reading the same range back delivers the bytes written.
\<close>

theorem tmpfs_write_read:
  assumes f: "find (\<lambda>x. o_fd x = fd) (opens s) = Some f" "o_writable f" "\<not> o_is_dir f"
    and nd: "bt_get (nodes s) (o_path f) = Some nd" "\<not> nd_is_dir nd"
    and w: "tmpfs_pwrite m s fd src count off = (s', r)" "0 < r"
    and dst: "user_accessible (pg m') dst (nat r)"
  shows "nat r \<le> count \<and>
    bt_get (nodes s') = (bt_get (nodes s))(o_path f \<mapsto>
       nd\<lparr>nd_data := written (nd_data nd) off (mem_read (ram m) src (nat r))\<rparr>) \<and>
    (\<exists>m2. tmpfs_pread m' s' fd dst (nat r) off = (m2, r) \<and>
       mem_read (ram m2) dst (nat r) = mem_read (ram m) src (nat r))"
proof -
  define n where "n = grant_write (tot s) CAP off (length (nd_data nd)) count"
  have wa: "write_at m s (o_path f) off src count = (s', r)"
    using w(1) f by (auto simp: tmpfs_pwrite_def find_position split: option.splits)
  have pos: "0 < count" "0 < n"
    using wa w(2) nd by (auto simp: write_at_def Let_def n_def errno_defs split: if_splits)
  obtain bs where bs: "copy_from_user m n src = Inr bs"
    using wa w(2) nd pos by (cases "copy_from_user m n src")
      (auto simp: write_at_def Let_def errno_defs split: if_splits simp flip: n_def)
  have rd: "bs = mem_read (ram m) src n" "length bs = n"
    using bs by (auto simp: copy_from_user_Inr)
  obtain d where d: "(s', r) = (s\<lparr>tot := tot s + growth off (length (nd_data nd)) n,
        nodes := bt_modify (o_path f) (\<lambda>nd. nd\<lparr>nd_data := d\<rparr>) (nodes s)\<rparr>, int n)"
      "d = splice (grown_data (nd_data nd) (off + n)) off bs"
    by (rule write_at_cases [OF nd pos(1) n_def [symmetric] pos(2), of m src]) (simp add: wa bs)
  have d': "d = written (nd_data nd) off bs"
    using splice_grown [of "nd_data nd" off bs] rd(2) d(2) by simp
  have r: "nat r = n" "r = int n"
    using d(1) by simp_all
  have get: "bt_get (nodes s') = (bt_get (nodes s))(o_path f \<mapsto> nd\<lparr>nd_data := written (nd_data nd) off bs\<rparr>)"
    using d(1) nd(1) by (auto simp: fun_eq_iff bt_get_modify d')
  have len: "off < length (written (nd_data nd) off bs)" "n \<le> length (written (nd_data nd) off bs) - off"
    using pos rd(2) by (simp_all add: written_def)
  have "find (\<lambda>x. o_fd x = fd) (opens s') = Some f"
    using d(1) f(1) by simp
  then have "tmpfs_pread m' s' fd dst n off = read_at m' (nd\<lparr>nd_data := written (nd_data nd) off bs\<rparr>) off dst n"
    using f get by (simp add: tmpfs_pread_def)
  also have "\<dots> = (m'\<lparr>ram := mem_write (ram m') dst bs\<rparr>, int n)"
    using len read_back [of bs off "nd_data nd"] pos rd(2) dst r
    by (simp add: read_at_def Let_def min_def copy_to_user_def)
  finally have "tmpfs_pread m' s' fd dst (nat r) off = (m'\<lparr>ram := mem_write (ram m') dst bs\<rparr>, r)"
    using r by simp
  moreover have "mem_read (mem_write (ram m') dst bs) dst n = bs"
    using mem_read_write [of "ram m'" dst bs] rd(2) by simp
  moreover have "n \<le> count"
    by (simp add: n_def grant_write_le)
  ultimately show ?thesis
    using get rd r by auto
qed

theorem tmpfs_write_read_witness:
  "let s = tmpfs_init\<lparr>nodes := example_tree @ [(bytes_of ''/tmp/a/f'', example_file [7])], opens := [example_fd],
         NEXT_FD := 4001, tot := 1\<rparr>;
       m = \<lparr>pg = example_paging, ram = (\<lambda>a. of_nat a)\<rparr>
   in \<exists>s' m2. tmpfs_pwrite m s 4000 0x1B000001 2 3 = (s', 2) \<and>
      bt_get (nodes s') (bytes_of ''/tmp/a/f'') = Some (example_file [7, 0, 0, 1, 2]) \<and>
      tmpfs_pread m s' 4000 0x1B000100 2 3 = (m2, 2) \<and> mem_read (ram m2) 0x1B000100 2 = [1, 2]"
proof -
  let ?s = "tmpfs_init\<lparr>nodes := example_tree @ [(bytes_of ''/tmp/a/f'', example_file [7])], opens := [example_fd],
         NEXT_FD := 4001, tot := 1\<rparr>"
  let ?m = "\<lparr>pg = example_paging, ram = (\<lambda>a. of_nat a)\<rparr> :: machine"
  have acc: "user_accessible (pg ?m) 0x1B000001 2" "user_accessible (pg ?m) 0x1B000100 2"
    using example_user_accessible [of "0x1B000001" 2] example_user_accessible [of "0x1B000100" 2] by simp_all
  have get: "bt_get (nodes ?s) (bytes_of ''/tmp/a/f'') = Some (example_file [7])"
    by (simp add: bt_get_def example_tree_def)
  have f: "find (\<lambda>x. o_fd x = 4000) (opens ?s) = Some example_fd" "o_writable example_fd" "\<not> o_is_dir example_fd"
    "o_path example_fd = bytes_of ''/tmp/a/f''"
    by (simp_all add: example_fd_def)
  have rd: "mem_read (ram ?m) 0x1B000001 2 = [1, 2]"
    by (simp add: mem_read_def upt_rec)
  obtain s' where w: "tmpfs_pwrite ?m ?s 4000 0x1B000001 2 3 = (s', 2)"
  proof -
    have "grant_write 1 CAP 3 1 2 = 2"
      by (simp add: grant_write_def CAP_def)
    then have "snd (write_at ?m ?s (bytes_of ''/tmp/a/f'') 3 0x1B000001 2) = 2"
      using get acc(1) by (simp add: write_at_def Let_def example_file_def copy_from_user_def del: bytes_of_simps)
    then have "snd (tmpfs_pwrite ?m ?s 4000 0x1B000001 2 3) = 2"
      using f by (simp add: tmpfs_pwrite_def example_fd_def del: bytes_of_simps)
    then show thesis
      by (cases "tmpfs_pwrite ?m ?s 4000 0x1B000001 2 3") (simp add: that)
  qed
  have "written [7] 3 [1, 2] = [7, 0, 0, 1, 2]"
    by (simp add: written_def upt_rec)
  then show ?thesis
    using tmpfs_write_read [OF f(1-3) _ _ w, where nd = "example_file [7]" and m' = ?m and dst = "0x1B000100"] get acc(2) rd f(4) w
    unfolding Let_def by (auto simp: example_file_def simp del: bytes_of_simps)
qed

text \<open>
  C29: when changing the size of a file panics.  For a regular file in a well-formed state and a
  64-bit length the call panics exactly when the length plus the bytes held by the other files
  reaches \<open>2 ^ 64\<close>: the sum compared with the cap wraps around, the check passes, and
  \<open>Vec::resize\<close> gets a length above its limit.  Every other length above the room left is refused
  with \<open>ENOSPC\<close>, and every length that fits is set, keeping the old bytes and adding zeros.
\<close>

theorem tmpfs_resize_exact:
  assumes ok: "tmpfs_ok s" and nd: "bt_get (nodes s) path = Some nd" "\<not> nd_is_dir nd" and len: "len < 2 ^ 64"
  shows "(resize_path s path len = None \<longleftrightarrow> 2 ^ 64 \<le> len + (tot s - length (nd_data nd))) \<and>
    (len + (tot s - length (nd_data nd)) < 2 ^ 64 \<and> CAP < len + (tot s - length (nd_data nd)) \<longrightarrow>
       resize_path s path len = Some (s, ENOSPC)) \<and>
    (len + (tot s - length (nd_data nd)) \<le> CAP \<longrightarrow>
       (\<exists>s'. resize_path s path len = Some (s', 0) \<and> tot s' = len + (tot s - length (nd_data nd)) \<and>
         bt_get (nodes s') = (bt_get (nodes s))(path \<mapsto> nd\<lparr>nd_data := take len (nd_data nd) @ replicate (len - length (nd_data nd)) 0\<rparr>)))"
proof -
  define cur where "cur = length (nd_data nd)"
  have nok: "nodes_ok s"
    using ok by (simp add: tmpfs_ok_def)
  have cur: "cur \<le> tot s" "tot s \<le> CAP"
    using used_get_le [OF nd(1)] nodes_okD [OF nok] by (simp_all add: cur_def)
  have C: "CAP < 2 ^ 22 + 1"
    by (simp add: CAP_def)
  have rs: "resize_path s path len =
      (if cur < len \<and> CAP < wrap64 (tot s + (len - cur)) then Some (s, ENOSPC)
       else if 2 ^ 63 \<le> len then None
       else Some (s\<lparr>tot := (if cur < len then wrap64 (tot s + (len - cur)) else tot s - (cur - len)),
                    nodes := bt_modify path (\<lambda>nd. nd\<lparr>nd_data := resize (nd_data nd) len 0\<rparr>) (nodes s)\<rparr>, 0))"
    unfolding resize_path_def Let_def nd(1) option.case cur_def using nd(2) by (simp only: if_False)
  have get: "bt_get (bt_modify path (\<lambda>nd. nd\<lparr>nd_data := resize (nd_data nd) len 0\<rparr>) (nodes s)) =
      (bt_get (nodes s))(path \<mapsto> nd\<lparr>nd_data := take len (nd_data nd) @ replicate (len - cur) 0\<rparr>)"
    using nd by (auto simp: fun_eq_iff bt_get_modify resize_def cur_def)
  have wraps: "resize_path s path len = None" if w: "2 ^ 64 \<le> len + (tot s - cur)"
  proof -
    have "tot s + (len - cur) = 2 ^ 64 + (len + (tot s - cur) - 2 ^ 64)" "len + (tot s - cur) - 2 ^ 64 < 2 ^ 64"
      using w len cur C by (simp_all add: CAP_def)
    then have "wrap64 (tot s + (len - cur)) = len + (tot s - cur) - 2 ^ 64"
      unfolding wrap64_def by (metis mod_add_self1 mod_less)
    moreover have "\<not> CAP < len + (tot s - cur) - 2 ^ 64" "2 ^ 63 \<le> len"
      using w len cur by (simp_all add: CAP_def)
    ultimately show ?thesis
      unfolding rs by simp
  qed
  have over: "resize_path s path len = Some (s, ENOSPC)" if o: "len + (tot s - cur) < 2 ^ 64" "CAP < len + (tot s - cur)"
  proof -
    have "cur < len"
      using o cur by linarith
    moreover from this have "wrap64 (tot s + (len - cur)) = len + (tot s - cur)"
      using o cur by (subst wrap64_id) linarith+
    ultimately show ?thesis
      unfolding rs using o by simp
  qed
  have fits: "resize_path s path len = Some (s\<lparr>tot := len + (tot s - cur),
        nodes := bt_modify path (\<lambda>nd. nd\<lparr>nd_data := resize (nd_data nd) len 0\<rparr>) (nodes s)\<rparr>, 0)"
    if f: "len + (tot s - cur) \<le> CAP"
  proof -
    have w: "wrap64 (tot s + (len - cur)) = tot s + (len - cur)"
      using f cur by (intro wrap64_id) (simp add: CAP_def)
    have t: "(if cur < len then tot s + (len - cur) else tot s - (cur - len)) = len + (tot s - cur)"
      using cur by simp
    have "\<not> 2 ^ 63 \<le> len"
      using f by (simp add: CAP_def)
    moreover have "\<not> (cur < len \<and> CAP < tot s + (len - cur))"
    proof
      assume a: "cur < len \<and> CAP < tot s + (len - cur)"
      then have "tot s + (len - cur) = len + (tot s - cur)"
        using cur by simp
      with a f show False
        by linarith
    qed
    ultimately show ?thesis
      unfolding rs w t by (simp only: if_False)
  qed
  consider "2 ^ 64 \<le> len + (tot s - cur)" | "len + (tot s - cur) < 2 ^ 64" "CAP < len + (tot s - cur)"
    | "len + (tot s - cur) \<le> CAP" "len + (tot s - cur) < 2 ^ 64"
    using C by linarith
  then show ?thesis
    unfolding cur_def [symmetric] using C by cases (simp_all add: wraps over fits get)
qed

theorem tmpfs_resize_exact_witness:
  "let s = tmpfs_init\<lparr>nodes := example_tree @ [(bytes_of ''/tmp/a/f'', example_file []), (bytes_of ''/tmp/g'', example_file [7])],
         opens := [example_fd], NEXT_FD := 4001, tot := 1\<rparr>
   in tmpfs_ok s \<and> tmpfs_ftruncate s 4000 (2 ^ 64 - 1) = None \<and>
      tmpfs_ftruncate s 4000 (2 ^ 64 - 2) = Some (s, ENOSPC)"
proof -
  let ?s = "tmpfs_init\<lparr>nodes := example_tree @ [(bytes_of ''/tmp/a/f'', example_file []), (bytes_of ''/tmp/g'', example_file [7])],
         opens := [example_fd], NEXT_FD := 4001, tot := 1\<rparr>"
  have ok: "tmpfs_ok ?s"
    unfolding tmpfs_ok_def nodes_ok_def opens_ok_def tmpfs_init_def
    by (simp add: example_tree_def example_file_def example_fd_def node_ok_def dir_node_def canonical_def CAP_def
        TMPFS_FD_BASE_def TMPFS_MAX_OPEN_def)
  have get: "bt_get (nodes ?s) (bytes_of ''/tmp/a/f'') = Some (example_file [])"
    by (simp add: bt_get_def example_tree_def)
  have ft: "tmpfs_ftruncate ?s 4000 len = resize_path ?s (bytes_of ''/tmp/a/f'') len" for len
    by (simp add: tmpfs_ftruncate_def example_fd_def del: bytes_of_simps)
  show ?thesis
    unfolding Let_def ft
    using ok tmpfs_resize_exact [OF ok get, of "2 ^ 64 - 1"] tmpfs_resize_exact [OF ok get, of "2 ^ 64 - 2"]
    by (simp add: example_file_def CAP_def del: bytes_of_simps)
qed

text \<open>
  a write that faults.  When the caller's buffer is not user memory the call returns
  \<open>EFAULT\<close>, but the file has already been extended to the end of the range it was granted, with
  zeros, and the growth stays charged against the cap.
\<close>

theorem tmpfs_fault_grows:
  assumes "bt_get (nodes s) path = Some nd" "\<not> nd_is_dir nd" "0 < count"
    and n: "grant_write (tot s) CAP at (length (nd_data nd)) count = n" "0 < n" "\<not> user_accessible (pg m) src n"
  shows "\<exists>s'. write_at m s path at src count = (s', EFAULT) \<and>
    tot s' = tot s + growth at (length (nd_data nd)) n \<and>
    bt_get (nodes s') path = Some (nd\<lparr>nd_data := grown_data (nd_data nd) (at + n)\<rparr>)"
proof -
  have c: "copy_from_user m n src = Inl EFAULT"
    using n(3) by (simp add: copy_from_user_def)
  obtain d where "write_at m s path at src count =
        (s\<lparr>tot := tot s + growth at (length (nd_data nd)) n, nodes := bt_modify path (\<lambda>nd. nd\<lparr>nd_data := d\<rparr>) (nodes s)\<rparr>, EFAULT)"
      "d = grown_data (nd_data nd) (at + n)"
    by (rule write_at_cases [OF assms(1-3) n(1,2), of m src]) (simp add: c)
  then show ?thesis
    using assms(1) by (simp add: bt_get_modify)
qed

theorem tmpfs_fault_grows_witness:
  "\<exists>s'. write_at \<lparr>pg = example_paging, ram = (\<lambda>_. 0)\<rparr>
        (tmpfs_init\<lparr>nodes := example_tree @ [(bytes_of ''/tmp/a/f'', example_file [7])], tot := 1\<rparr>)
        (bytes_of ''/tmp/a/f'') 1 (2 ^ 40) 2 = (s', EFAULT) \<and> tot s' = 3 \<and>
      bt_get (nodes s') (bytes_of ''/tmp/a/f'') = Some (example_file [7, 0, 0])"
proof -
  let ?s = "tmpfs_init\<lparr>nodes := example_tree @ [(bytes_of ''/tmp/a/f'', example_file [7])], tot := 1\<rparr>"
  let ?m = "\<lparr>pg = example_paging, ram = (\<lambda>_. 0)\<rparr> :: machine"
  have get: "bt_get (nodes ?s) (bytes_of ''/tmp/a/f'') = Some (example_file [7])"
    by (simp add: bt_get_def example_tree_def)
  have "\<not> user_accessible (pg ?m) (2 ^ 40) 2"
    unfolding user_accessible_iff by (simp add: GIB_def)
  moreover have "grant_write (tot ?s) CAP 1 (length (nd_data (example_file [7]))) 2 = 2"
    by (simp add: grant_write_def CAP_def example_file_def)
  moreover have "grown_data [7] (1 + 2) = [7, 0, 0]"
    by (simp add: grown_data_def resize_def numeral_2_eq_2)
  ultimately show ?thesis
    using tmpfs_fault_grows [OF get, of 2 1 2 ?m "2 ^ 40"]
    by (simp add: example_file_def growth_def numeral_3_eq_3 del: bytes_of_simps)
qed

text \<open>
  renames that damage the name space.  Moving an empty directory onto a name directly below
  itself succeeds and leaves a node whose parent does not exist; moving the empty mount point
  \<open>/tmp\<close> succeeds and makes every later creation below it fail; and moving a directory that is not
  empty onto an empty one is refused with \<open>EINVAL\<close> only after the destination has been removed.
\<close>

theorem tmpfs_rename_damage:
  "(\<exists>s'. tmpfs_rename (tmpfs_init\<lparr>nodes := example_tree\<rparr>) (bytes_of ''/tmp/a'') (bytes_of ''/tmp/a/f'') = (s', 0) \<and>
      bt_get (nodes s') (bytes_of ''/tmp/a/f'') \<noteq> None \<and> bt_get (nodes s') (bytes_of ''/tmp/a'') = None) \<and>
   (\<exists>s'. tmpfs_rename tmpfs_init (bytes_of ''/tmp'') (bytes_of ''/dev/shm/g'') = (s', 0) \<and>
      (\<forall>mode. tmpfs_mkdir s' (bytes_of ''/tmp/a'') mode = (s', ENOENT))) \<and>
   (\<exists>s'. tmpfs_rename (tmpfs_init\<lparr>nodes := example_tree @ [(bytes_of ''/tmp/a/f'', example_file [7]), (bytes_of ''/tmp/b'', dir_node 0x1ED)], tot := 1\<rparr>)
        (bytes_of ''/tmp/a'') (bytes_of ''/tmp/b'') = (s', -22) \<and>
      bt_get (nodes s') (bytes_of ''/tmp/b'') = None)"
proof (intro conjI)
  have n: "norm (bytes_of ''/tmp/b'') = bytes_of ''/tmp/b''" "parent (bytes_of ''/tmp/b'') = bytes_of ''/tmp''"
      "norm (bytes_of ''/tmp'') = bytes_of ''/tmp''"
    by (simp_all add: norm_def norm_absolute_def starts_with_def parent_def rposition_def pop_slashes.simps)
  show "\<exists>s'. tmpfs_rename (tmpfs_init\<lparr>nodes := example_tree\<rparr>) (bytes_of ''/tmp/a'') (bytes_of ''/tmp/a/f'') = (s', 0) \<and>
      bt_get (nodes s') (bytes_of ''/tmp/a/f'') \<noteq> None \<and> bt_get (nodes s') (bytes_of ''/tmp/a'') = None"
    unfolding tmpfs_rename_def Let_def example_norm tmpfs_init_def
    by (simp add: bt_get_def dir_node_def example_tree_def bt_remove_def has_children_def is_under_def starts_with_def)
  show "\<exists>s'. tmpfs_rename tmpfs_init (bytes_of ''/tmp'') (bytes_of ''/dev/shm/g'') = (s', 0) \<and>
      (\<forall>mode. tmpfs_mkdir s' (bytes_of ''/tmp/a'') mode = (s', ENOENT))"
    unfolding tmpfs_rename_def tmpfs_mkdir_def Let_def example_norm n tmpfs_init_def
    by (simp add: bt_get_def dir_node_def bt_remove_def has_children_def is_under_def starts_with_def)
  show "\<exists>s'. tmpfs_rename (tmpfs_init\<lparr>nodes := example_tree @ [(bytes_of ''/tmp/a/f'', example_file [7]), (bytes_of ''/tmp/b'', dir_node 0x1ED)], tot := 1\<rparr>)
        (bytes_of ''/tmp/a'') (bytes_of ''/tmp/b'') = (s', -22) \<and>
      bt_get (nodes s') (bytes_of ''/tmp/b'') = None"
    unfolding tmpfs_rename_def Let_def example_norm n tmpfs_init_def
    by (simp add: bt_get_def dir_node_def example_tree_def example_file_def bt_remove_def has_children_def is_under_def starts_with_def)
qed

end
