(* ===== verification/Sched.thy ===== *)
theory Sched
  imports Uaccess
begin

text \<open>
  The SMP thread scheduler (\<open>src/src/sched.rs\<close>).  The static arrays indexed by CPU, thread or
  bucket are functions of the index; loops run over the index ranges of the code.  The argument
  \<open>c\<close> of an operation is the CPU that performs it (\<open>current_cpu()\<close>), \<open>now\<close> the value of
  \<open>monotonic_ns()\<close>.

  A CPU performs an operation without a switch of context, so each operation up to its
  \<open>context_switch\<close> is one function, and what the code does after \<open>context_switch\<close> returns is the
  function \<open>arrive\<close>, performed by whatever was switched to.  A futex bucket lock stays held from one
  to the other; an operation that needs a lock that is held has the value \<open>None\<close> (it spins).  The
  other locks (\<open>THREAD_LOCK\<close>, the queue locks) are released inside the operation that takes them
  and do not appear.
\<close>

unbundle bit_operations_syntax

section \<open>State\<close>

definition MAX_THREADS :: nat where "MAX_THREADS = 32"
definition MAX_CPUS :: nat where "MAX_CPUS = 16"
definition FUTEX_BUCKETS :: nat where "FUTEX_BUCKETS = 16"
definition PENDING_WAKES_PER_BUCKET :: nat where "PENDING_WAKES_PER_BUCKET = 8"
definition BLOCKING_ARM_FALLBACK_NS :: nat where "BLOCKING_ARM_FALLBACK_NS = 120000000000"
definition BLOCKED_RESCUE_NS :: nat where "BLOCKED_RESCUE_NS = 5000000000"

datatype tstate = Ready | Running | Blocked | Dead

record thread_ctx =
  rsp :: nat
  rbx :: nat
  rbp :: nat
  r12 :: nat
  r13 :: nat
  r14 :: nat
  r15 :: nat
  fs_base :: nat
  fxsave_area :: bytes

record thread =
  tid :: nat
  state :: tstate
  ctx :: thread_ctx
  kernel_stack_top :: nat
  user_stack :: nat
  fn_ptr :: nat
  tls :: nat
  child_tid_ptr :: nat
  futex_addr :: nat
  futex_val :: nat
  in_idle_ctx :: bool
  clone_r9 :: nat
  clone_rip :: nat
  home_cpu :: nat
  wait_deadline_ns :: nat
  wait_timed_out :: bool
  blocked_since_ns :: nat

record cpu_queue =
  current :: "nat option"
  queue :: "nat list"
  idle :: bool

text \<open>What a CPU executes: the boot loop of an AP, its idle loop, or a thread.\<close>

datatype executing = In_Boot | In_Idle | In_Thread nat

text \<open>
  Where a thread that is not executing continues, the return address on the kernel stack its saved
  \<open>rsp\<close> points to: after the switch in \<open>yield_current\<close>, after one of the switches in
  \<open>futex_wait_until\<close>, or at the entry of \<open>clone_child_return\<close>.
\<close>

datatype continuation = After_Yield | After_Futex | Clone_Child

text \<open>
  The last six fields are not variables of \<open>sched.rs\<close>: the register file of each CPU, the kernel
  stack pointer of its per-CPU syscall area (kept equal to \<open>TSS.RSP0\<close>), what it executes, whether
  it has just been switched to it and has not yet run the code after the switch, the continuation
  of each thread, and the interprocessor interrupts sent so far.
\<close>

record sched =
  THREADS :: "nat \<Rightarrow> thread option"
  NEXT_TID :: nat
  KSTACK_NEXT :: nat
  CPU_QUEUES :: "nat \<Rightarrow> cpu_queue"
  IDLE_CTX :: "nat \<Rightarrow> thread_ctx"
  FUTEX_LOCKS :: "nat \<Rightarrow> bool"
  PENDING_WAKES :: "nat \<Rightarrow> nat list"
  PENDING_UNLOCK_BUCKET :: "nat \<Rightarrow> nat option"
  NUM_CPUS :: nat
  FUTEX_BLOCKING :: bool
  FIRST_SPINYIELD_NS :: nat
  NEED_RESCHED :: "nat \<Rightarrow> bool"
  RESCUE_REQUESTED :: "nat \<Rightarrow> bool"
  REGS :: "nat \<Rightarrow> thread_ctx"
  KSTACK :: "nat \<Rightarrow> nat"
  RUNS :: "nat \<Rightarrow> executing"
  SWITCHED :: "nat \<Rightarrow> bool"
  CONT :: "nat \<Rightarrow> continuation"
  IPIS :: "nat list"

definition upd_thread :: "nat \<Rightarrow> (thread \<Rightarrow> thread) \<Rightarrow> sched \<Rightarrow> sched" where
  "upd_thread i f s = s\<lparr>THREADS := (THREADS s)(i := map_option f (THREADS s i))\<rparr>"

definition upd_queue :: "nat \<Rightarrow> (cpu_queue \<Rightarrow> cpu_queue) \<Rightarrow> sched \<Rightarrow> sched" where
  "upd_queue c f s = s\<lparr>CPU_QUEUES := (CPU_QUEUES s)(c := f (CPU_QUEUES s c))\<rparr>"

section \<open>Pending wakes\<close>

definition futex_bucket :: "nat \<Rightarrow> nat" where
  "futex_bucket addr = addr div 4 mod FUTEX_BUCKETS"

definition pending_wake_insert :: "nat \<Rightarrow> nat list \<Rightarrow> nat list" where
  "pending_wake_insert addr addrs =
     (if addr \<in> set addrs then addrs
      else case position (\<lambda>x. x = 0) addrs of Some i \<Rightarrow> addrs[i := addr] | None \<Rightarrow> addrs)"

definition pending_wake_consume :: "nat \<Rightarrow> nat list \<Rightarrow> nat list \<times> bool" where
  "pending_wake_consume addr addrs =
     (case position (\<lambda>x. x = addr) addrs of Some i \<Rightarrow> (addrs[i := 0], True) | None \<Rightarrow> (addrs, False))"

definition release_pending_unlock :: "nat \<Rightarrow> sched \<Rightarrow> sched" where
  "release_pending_unlock c s =
     (let s1 = s\<lparr>PENDING_UNLOCK_BUCKET := (PENDING_UNLOCK_BUCKET s)(c := None)\<rparr> in
      case PENDING_UNLOCK_BUCKET s c of
        Some b \<Rightarrow> s1\<lparr>FUTEX_LOCKS := (FUTEX_LOCKS s1)(b := False)\<rparr>
      | None \<Rightarrow> s1)"

section \<open>Switching\<close>

definition set_current_kernel_stack :: "nat \<Rightarrow> nat \<Rightarrow> sched \<Rightarrow> sched" where
  "set_current_kernel_stack c kstack s = s\<lparr>KSTACK := (KSTACK s)(c := kstack)\<rparr>"

definition send_ipi :: "nat \<Rightarrow> sched \<Rightarrow> sched" where
  "send_ipi c s = s\<lparr>IPIS := IPIS s @ [c]\<rparr>"

text \<open>
  \<open>context_switch\<close>: the callee-saved registers, the TLS base and the FPU state of the CPU go to the
  outgoing context, then those of the incoming one are loaded.
\<close>

definition switch_threads :: "nat \<Rightarrow> nat \<Rightarrow> nat \<Rightarrow> continuation \<Rightarrow> sched \<Rightarrow> sched" where
  "switch_threads c from to k s =
     (let s1 = upd_thread from (\<lambda>t. t\<lparr>ctx := REGS s c\<rparr>) s in
      s1\<lparr>CONT := (CONT s1)(from := k),
         REGS := (REGS s1)(c := ctx (the (THREADS s1 to))),
         RUNS := (RUNS s1)(c := In_Thread to),
         SWITCHED := (SWITCHED s1)(c := True)\<rparr>)"

definition switch_to_idle :: "nat \<Rightarrow> nat \<Rightarrow> continuation \<Rightarrow> sched \<Rightarrow> sched" where
  "switch_to_idle c from k s =
     (let s1 = upd_thread from (\<lambda>t. t\<lparr>ctx := REGS s c\<rparr>) s in
      s1\<lparr>CONT := (CONT s1)(from := k),
         REGS := (REGS s1)(c := IDLE_CTX s1 c),
         RUNS := (RUNS s1)(c := In_Idle),
         SWITCHED := (SWITCHED s1)(c := True)\<rparr>)"

text \<open>The switch of the idle loop, and the jump without saving of the boot loop of an AP.\<close>

definition switch_from_idle :: "nat \<Rightarrow> nat \<Rightarrow> sched \<Rightarrow> sched" where
  "switch_from_idle c to s =
     s\<lparr>IDLE_CTX := (IDLE_CTX s)(c := REGS s c),
       REGS := (REGS s)(c := ctx (the (THREADS s to))),
       RUNS := (RUNS s)(c := In_Thread to),
       SWITCHED := (SWITCHED s)(c := True)\<rparr>"

definition jump_to_thread :: "nat \<Rightarrow> nat \<Rightarrow> sched \<Rightarrow> sched" where
  "jump_to_thread c to s =
     s\<lparr>REGS := (REGS s)(c := ctx (the (THREADS s to))),
       RUNS := (RUNS s)(c := In_Thread to),
       SWITCHED := (SWITCHED s)(c := True)\<rparr>"

definition kstack_of :: "sched \<Rightarrow> nat \<Rightarrow> nat" where
  "kstack_of s i = (case THREADS s i of Some t \<Rightarrow> kernel_stack_top t | None \<Rightarrow> 0)"

section \<open>Start and creation\<close>

definition zero_ctx :: thread_ctx where
  "zero_ctx = \<lparr>rsp = 0, rbx = 0, rbp = 0, r12 = 0, r13 = 0, r14 = 0, r15 = 0, fs_base = 0,
     fxsave_area = replicate 512 0\<rparr>"

definition new_thread :: "nat \<Rightarrow> tstate \<Rightarrow> thread_ctx \<Rightarrow> nat \<Rightarrow> thread" where
  "new_thread i st cx ktop =
     \<lparr>tid = i, state = st, ctx = cx, kernel_stack_top = ktop, user_stack = 0, fn_ptr = 0, tls = 0,
      child_tid_ptr = 0, futex_addr = 0, futex_val = 0, in_idle_ctx = False, clone_r9 = 0, clone_rip = 0,
      home_cpu = 0, wait_deadline_ns = 0, wait_timed_out = False, blocked_since_ns = 0\<rparr>"

text \<open>
  The state after \<open>init\<close> on the boot CPU: \<open>fx\<close> is the captured FPU template, \<open>stack0\<close> the address
  \<open>syscall_stack_0_top\<close> (also the boot CPU's initial syscall stack), \<open>idle_rsp\<close> the idle stack
  pointers with the address of \<open>cpu_idle_loop\<close> pushed.
\<close>

definition sched_init :: "nat \<Rightarrow> bytes \<Rightarrow> nat \<Rightarrow> (nat \<Rightarrow> nat) \<Rightarrow> (nat \<Rightarrow> thread_ctx) \<Rightarrow> sched" where
  "sched_init n fx stack0 idle_rsp regs =
     \<lparr>THREADS = (\<lambda>_. None)(0 := Some (new_thread 0 Running (zero_ctx\<lparr>fxsave_area := fx\<rparr>) stack0)),
      NEXT_TID = 1,
      KSTACK_NEXT = KSTACK_ARENA_BASE,
      CPU_QUEUES = (\<lambda>_. \<lparr>current = None, queue = [], idle = True\<rparr>)
                     (0 := \<lparr>current = Some 0, queue = [], idle = False\<rparr>),
      IDLE_CTX = (\<lambda>c. if c < n then zero_ctx\<lparr>rsp := idle_rsp c\<rparr> else zero_ctx),
      FUTEX_LOCKS = (\<lambda>_. False),
      PENDING_WAKES = (\<lambda>_. replicate PENDING_WAKES_PER_BUCKET 0),
      PENDING_UNLOCK_BUCKET = (\<lambda>_. None),
      NUM_CPUS = n,
      FUTEX_BLOCKING = False,
      FIRST_SPINYIELD_NS = 0,
      NEED_RESCHED = (\<lambda>_. False),
      RESCUE_REQUESTED = (\<lambda>_. False),
      REGS = regs,
      KSTACK = (\<lambda>_. 0)(0 := stack0),
      RUNS = (\<lambda>_. In_Boot)(0 := In_Thread 0),
      SWITCHED = (\<lambda>_. False),
      CONT = (\<lambda>_. Clone_Child),
      IPIS = []\<rparr>"

definition KSTACK_USABLE :: nat where "KSTACK_USABLE = 16384"
definition GUARD_SIZE :: nat where "GUARD_SIZE = 4096"
definition KSTACK_STRIDE :: nat where "KSTACK_STRIDE = GUARD_SIZE + KSTACK_USABLE + 4096"

definition CLONE_PARENT_SETTID :: nat where "CLONE_PARENT_SETTID = 0x100000"
definition CLONE_CHILD_SETTID :: nat where "CLONE_CHILD_SETTID = 0x1000000"

text \<open>The loop that selects a CPU: the first idle one, else the first with the shortest queue.\<close>

primrec pick_cpu :: "sched \<Rightarrow> nat list \<Rightarrow> nat \<Rightarrow> nat option \<Rightarrow> bool \<Rightarrow> nat" where
  "pick_cpu s [] best_cpu best_len found_idle = best_cpu"
| "pick_cpu s (cpu # cpus) best_cpu best_len found_idle =
     (let q = CPU_QUEUES s cpu; len = length (queue q) in
      if idle q \<and> \<not> found_idle then pick_cpu s cpus cpu (Some len) True
      else if \<not> found_idle \<and> (case best_len of None \<Rightarrow> True | Some b \<Rightarrow> len < b)
           then pick_cpu s cpus cpu (Some len) found_idle
      else pick_cpu s cpus best_cpu best_len found_idle)"

definition store_tid :: "nat \<Rightarrow> nat \<Rightarrow> nat \<Rightarrow> nat \<Rightarrow> machine \<Rightarrow> machine" where
  "store_tid flags flag p i m =
     (if flags AND flag \<noteq> 0 \<and> p \<noteq> 0
      then (case write_user_u32 m p i of Inl _ \<Rightarrow> m | Inr m' \<Rightarrow> m') else m)"

text \<open>
  \<open>spawn\<close>; \<open>regs\<close> is the result of \<open>get_clone_regs\<close>, \<open>entry\<close> the address of \<open>clone_child_return\<close>,
  \<open>fx\<close> the FPU template.
\<close>

definition spawn ::
  "nat \<Rightarrow> nat \<times> nat \<Rightarrow> nat \<Rightarrow> bytes \<Rightarrow> nat \<Rightarrow> nat \<Rightarrow> nat \<Rightarrow> nat \<Rightarrow> nat \<Rightarrow> nat \<Rightarrow> machine \<Rightarrow> sched \<Rightarrow>
   machine \<times> sched \<times> nat" where
  "spawn c regs entry fx fnp stack tlp child_tid parent_tid clone_flags m s =
     (let i = NEXT_TID s; s1 = s\<lparr>NEXT_TID := (i + 1) mod 2 ^ 32\<rparr> in
      if MAX_THREADS \<le> i then (m, s1, 0)
      else
        (let slot = KSTACK_NEXT s1;
             s2 = s1\<lparr>KSTACK_NEXT := slot + KSTACK_STRIDE\<rparr>;
             kstack_top = slot + GUARD_SIZE + KSTACK_USABLE;
             m1 = m\<lparr>pg := fst (map_guard_page (pg m) slot)\<rparr>;
             ksp = kstack_top - 8;
             m2 = m1\<lparr>ram := mem_write (ram m1) ksp (le_bytes 8 entry)\<rparr>;
             cx = \<lparr>rsp = ksp, rbx = 0, rbp = 0, r12 = stack, r13 = tlp, r14 = child_tid, r15 = 0, fs_base = tlp,
                   fxsave_area = fx\<rparr>;
             t = (new_thread i Ready cx kstack_top)\<lparr>user_stack := stack, fn_ptr := fnp, tls := tlp,
                   child_tid_ptr := child_tid, clone_r9 := fst regs, clone_rip := snd regs\<rparr>;
             best_cpu = pick_cpu s2 [0..<NUM_CPUS s2] 0 None False;
             s3 = s2\<lparr>THREADS := (THREADS s2)(i := Some (t\<lparr>home_cpu := best_cpu\<rparr>)),
                     CONT := (CONT s2)(i := Clone_Child)\<rparr>;
             m3 = store_tid clone_flags CLONE_PARENT_SETTID parent_tid i m2;
             m4 = store_tid clone_flags CLONE_CHILD_SETTID child_tid i m3;
             s4 = upd_queue best_cpu (\<lambda>q. q\<lparr>queue := queue q @ [i]\<rparr>) s3;
             s5 = (if idle (CPU_QUEUES s4 best_cpu) \<and> best_cpu \<noteq> c then send_ipi best_cpu s4 else s4)
         in (m4, s5, i)))"

section \<open>Rescues\<close>

text \<open>Appending a thread to the queue of a CPU, and the interrupt that makes the CPU look at it.\<close>

definition enqueue :: "nat \<Rightarrow> nat \<Rightarrow> nat \<Rightarrow> sched \<Rightarrow> sched" where
  "enqueue c target i s =
     (let s1 = upd_queue target (\<lambda>q. q\<lparr>queue := queue q @ [i]\<rparr>) s
      in if target \<noteq> c then send_ipi target s1 else s1)"

text \<open>
  One iteration of \<open>process_rescues\<close>.  The address that selects the bucket lock is read before the
  lock is taken.
\<close>

definition rescue_one :: "nat \<Rightarrow> nat \<Rightarrow> nat \<Rightarrow> sched \<Rightarrow> sched option" where
  "rescue_one now c i s =
     (if \<not> RESCUE_REQUESTED s i then Some s
      else
        (let s1 = s\<lparr>RESCUE_REQUESTED := (RESCUE_REQUESTED s)(i := False)\<rparr> in
         case THREADS s1 i of
           None \<Rightarrow> Some s1
         | Some t \<Rightarrow>
             if state t \<noteq> Blocked then Some s1
             else if futex_addr t = 0 then Some s1
             else if FUTEX_LOCKS s1 (futex_bucket (futex_addr t)) then None
             else
               (let was_timed_out = (wait_deadline_ns t \<noteq> 0 \<and> wait_deadline_ns t \<le> now);
                    s2 = upd_thread i (\<lambda>t. t\<lparr>state := Ready, futex_addr := 0, blocked_since_ns := 0,
                           wait_timed_out := (was_timed_out \<or> wait_timed_out t), wait_deadline_ns := 0\<rparr>) s1;
                    target = home_cpu t;
                    s3 = (if target < MAX_CPUS \<and> tid t \<notin> set (queue (CPU_QUEUES s2 target))
                          then upd_queue target (\<lambda>q. q\<lparr>queue := queue q @ [tid t]\<rparr>) s2 else s2)
                in Some (if target \<noteq> c then send_ipi target s3 else s3))))"

primrec rescue_list :: "nat \<Rightarrow> nat \<Rightarrow> nat list \<Rightarrow> sched \<Rightarrow> sched option" where
  "rescue_list now c [] s = Some s"
| "rescue_list now c (i # is) s =
     (case rescue_one now c i s of None \<Rightarrow> None | Some s' \<Rightarrow> rescue_list now c is s')"

definition process_rescues :: "nat \<Rightarrow> nat \<Rightarrow> sched \<Rightarrow> sched option" where
  "process_rescues now c s = rescue_list now c [0..<MAX_THREADS] s"

section \<open>Yielding\<close>

text \<open>\<open>yield_current\<close> up to the switch; both returns without a switch leave the CPU where it is.\<close>

definition yield_locked :: "nat \<Rightarrow> sched \<Rightarrow> sched" where
  "yield_locked c s =
     (case current (CPU_QUEUES s c) of
        None \<Rightarrow>
          (case queue (CPU_QUEUES s c) of
             [] \<Rightarrow> s
           | nxt # q \<Rightarrow>
               (let s1 = upd_queue c (\<lambda>_. \<lparr>current = Some nxt, queue = q, idle = False\<rparr>) s in
                case THREADS s1 nxt of
                  Some t \<Rightarrow> jump_to_thread c nxt (set_current_kernel_stack c (kernel_stack_top t) s1)
                | None \<Rightarrow> s1))
      | Some cur \<Rightarrow>
          (case queue (CPU_QUEUES s c) of
             [] \<Rightarrow> s
           | nxt # q \<Rightarrow>
               (let s1 = upd_queue c (\<lambda>x. x\<lparr>current := Some nxt, queue := q @ [cur]\<rparr>) s;
                    s2 = set_current_kernel_stack c (kstack_of s1 nxt) s1
                in if THREADS s2 cur \<noteq> None \<and> THREADS s2 nxt \<noteq> None
                   then switch_threads c cur nxt After_Yield s2 else s2)))"

definition yield_current :: "nat \<Rightarrow> nat \<Rightarrow> sched \<Rightarrow> sched option" where
  "yield_current now c s = map_option (yield_locked c) (process_rescues now c s)"

section \<open>Futexes\<close>

text \<open>
  The outcome of \<open>futex_wait_until\<close>: it returns a value, possibly after a switch to another thread
  and back, or the thread sleeps and the value is computed by \<open>arrive\<close>.
\<close>

datatype wait_outcome = Returns int | Sleeps

text \<open>The part of \<open>futex_wait_until\<close> from marking the thread blocked to the switch.\<close>

definition block_current :: "nat \<Rightarrow> nat \<Rightarrow> nat \<Rightarrow> nat \<Rightarrow> nat option \<Rightarrow> nat \<Rightarrow> sched \<Rightarrow> sched" where
  "block_current now c addr val deadline cur s =
     (let s1 = upd_thread cur (\<lambda>t. t\<lparr>state := Blocked, futex_addr := addr, futex_val := val,
                 wait_deadline_ns := (case deadline of Some d \<Rightarrow> d | None \<Rightarrow> 0),
                 wait_timed_out := False, blocked_since_ns := now\<rparr>) s;
          s2 = s1\<lparr>PENDING_UNLOCK_BUCKET := (PENDING_UNLOCK_BUCKET s1)(c := Some (futex_bucket addr))\<rparr>
      in case queue (CPU_QUEUES s2 c) of
           nxt # q \<Rightarrow>
             (let s3 = upd_queue c (\<lambda>x. x\<lparr>current := Some nxt, queue := q\<rparr>) s2;
                  s4 = set_current_kernel_stack c (kstack_of s3 nxt) s3
              in if THREADS s4 cur \<noteq> None \<and> THREADS s4 nxt \<noteq> None
                 then switch_threads c cur nxt After_Futex s4 else s4)
         | [] \<Rightarrow>
             (let s3 = upd_queue c (\<lambda>x. x\<lparr>current := None, idle := True\<rparr>) s2
              in if THREADS s3 cur \<noteq> None then switch_to_idle c cur After_Futex s3 else s3))"

definition futex_wait_until ::
  "nat \<Rightarrow> nat \<Rightarrow> machine \<Rightarrow> nat \<Rightarrow> nat \<Rightarrow> nat option \<Rightarrow> sched \<Rightarrow> (sched \<times> wait_outcome) option" where
  "futex_wait_until now c m addr val deadline s =
     (if NEXT_TID s \<le> 1 then map_option (\<lambda>s'. (s', Returns 0)) (yield_current now c s)
      else
        (let bucket = futex_bucket addr in
         if FUTEX_LOCKS s bucket then None
         else
           (let s1 = s\<lparr>FUTEX_LOCKS := (FUTEX_LOCKS s)(bucket := True)\<rparr>;
                unlock = (\<lambda>s. s\<lparr>FUTEX_LOCKS := (FUTEX_LOCKS s)(bucket := False)\<rparr>);
                (pw, found) = pending_wake_consume addr (PENDING_WAKES s1 bucket)
            in if found then Some (unlock (s1\<lparr>PENDING_WAKES := (PENDING_WAKES s1)(bucket := pw)\<rparr>), Returns 0)
               else
                 case read_user_u32 m addr of
                   Inl _ \<Rightarrow> Some (unlock s1, Returns (-14))
                 | Inr v \<Rightarrow>
                     if v \<noteq> val then Some (unlock s1, Returns (-11))
                     else if \<not> FUTEX_BLOCKING s1 then
                       (let s2 = unlock (s1\<lparr>FIRST_SPINYIELD_NS := (if FIRST_SPINYIELD_NS s1 = 0 then now
                                                                     else FIRST_SPINYIELD_NS s1)\<rparr>)
                        in map_option (\<lambda>s'. (s', Returns 0)) (yield_current now c s2))
                     else
                       case current (CPU_QUEUES s1 c) of
                         None \<Rightarrow> Some (unlock s1, Returns 0)
                       | Some cur \<Rightarrow> Some (block_current now c addr val deadline cur s1, Sleeps))))"

definition futex_wait :: "nat \<Rightarrow> nat \<Rightarrow> machine \<Rightarrow> nat \<Rightarrow> nat \<Rightarrow> sched \<Rightarrow> (sched \<times> wait_outcome) option" where
  "futex_wait now c m addr val s = futex_wait_until now c m addr val None s"

primrec wake_list :: "nat \<Rightarrow> nat \<Rightarrow> nat \<Rightarrow> nat list \<Rightarrow> nat \<Rightarrow> sched \<Rightarrow> sched \<times> nat" where
  "wake_list c addr count [] woken s = (s, woken)"
| "wake_list c addr count (i # is) woken s =
     (if count \<le> woken then (s, woken)
      else
        (case THREADS s i of
           Some t \<Rightarrow>
             if state t = Blocked \<and> futex_addr t = addr then
               wake_list c addr count is (woken + 1)
                 (enqueue c (home_cpu t) (tid t)
                    (upd_thread i (\<lambda>t. t\<lparr>state := Ready, futex_addr := 0, blocked_since_ns := 0,
                                         in_idle_ctx := False\<rparr>) s))
             else wake_list c addr count is woken s
         | None \<Rightarrow> wake_list c addr count is woken s))"

definition futex_wake :: "nat \<Rightarrow> nat \<Rightarrow> nat \<Rightarrow> sched \<Rightarrow> (sched \<times> nat) option" where
  "futex_wake c addr count s =
     (let bucket = futex_bucket addr in
      if FUTEX_LOCKS s bucket then None
      else
        (let (s1, woken) = wake_list c addr count [0..<MAX_THREADS] 0 s in
         Some (if woken = 0
               then s1\<lparr>PENDING_WAKES := (PENDING_WAKES s1)(bucket := pending_wake_insert addr (PENDING_WAKES s1 bucket))\<rparr>
               else s1, woken)))"

section \<open>Timer context\<close>

definition enable_blocking_futex :: "sched \<Rightarrow> sched" where
  "enable_blocking_futex s = s\<lparr>FUTEX_BLOCKING := True\<rparr>"

text \<open>Whether the watchdog asks for the rescue of a thread.\<close>

definition wants_rescue :: "nat \<Rightarrow> machine \<Rightarrow> thread \<Rightarrow> bool" where
  "wants_rescue now m t =
     (state t = Blocked \<and> futex_addr t \<noteq> 0 \<and>
      (case read_user_u32 m (futex_addr t) of
         Inl _ \<Rightarrow> False
       | Inr v \<Rightarrow>
           v \<noteq> futex_val t \<or> (wait_deadline_ns t \<noteq> 0 \<and> wait_deadline_ns t \<le> now) \<or>
           (wait_deadline_ns t = 0 \<and> blocked_since_ns t \<noteq> 0 \<and> wrap64 (blocked_since_ns t + BLOCKED_RESCUE_NS) \<le> now)))"

definition watchdog_wake :: "nat \<Rightarrow> machine \<Rightarrow> sched \<Rightarrow> sched" where
  "watchdog_wake now m s =
     (let arm = (\<not> FUTEX_BLOCKING s \<and> FIRST_SPINYIELD_NS s \<noteq> 0 \<and>
                 wrap64 (FIRST_SPINYIELD_NS s + BLOCKING_ARM_FALLBACK_NS) \<le> now)
      in s\<lparr>FUTEX_BLOCKING := (arm \<or> FUTEX_BLOCKING s),
           RESCUE_REQUESTED := (\<lambda>i. if i < MAX_THREADS \<and> (case THREADS s i of Some t \<Rightarrow> wants_rescue now m t | None \<Rightarrow> False)
                                    then True else RESCUE_REQUESTED s i)\<rparr>)"

definition timer_tick :: "nat \<Rightarrow> sched \<Rightarrow> sched" where
  "timer_tick c s = (if c < MAX_CPUS then s\<lparr>NEED_RESCHED := (NEED_RESCHED s)(c := True)\<rparr> else s)"

definition check_resched :: "nat \<Rightarrow> nat \<Rightarrow> sched \<Rightarrow> sched option" where
  "check_resched now c s =
     (case process_rescues now c s of
        None \<Rightarrow> None
      | Some s1 \<Rightarrow>
          if c < MAX_CPUS \<and> NEED_RESCHED s1 c
          then yield_current now c (s1\<lparr>NEED_RESCHED := (NEED_RESCHED s1)(c := False)\<rparr>)
          else Some s1)"

section \<open>Exit, idling and arrival\<close>

text \<open>The context that is saved into is that of thread 0 when the CPU has no current thread.\<close>

definition thread_exit :: "nat \<Rightarrow> sched \<Rightarrow> sched" where
  "thread_exit c s =
     (let cur = current (CPU_QUEUES s c);
          s1 = upd_queue c (\<lambda>q. q\<lparr>current := None, idle := True\<rparr>) s;
          s2 = (case cur of Some i \<Rightarrow> upd_thread i (\<lambda>t. t\<lparr>state := Dead\<rparr>) s1 | None \<Rightarrow> s1)
      in switch_to_idle c (case cur of Some i \<Rightarrow> i | None \<Rightarrow> 0) After_Yield s2)"

text \<open>One iteration of \<open>cpu_idle_loop\<close>; without a thread to run the CPU halts and iterates again.\<close>

definition cpu_idle_iteration :: "nat \<Rightarrow> nat \<Rightarrow> sched \<Rightarrow> sched option" where
  "cpu_idle_iteration now c s =
     (case process_rescues now c (release_pending_unlock c s) of
        None \<Rightarrow> None
      | Some s1 \<Rightarrow>
          (case queue (CPU_QUEUES s1 c) of
             [] \<Rightarrow> Some s1
           | nxt # q \<Rightarrow>
               (let s2 = upd_queue c (\<lambda>_. \<lparr>current = Some nxt, queue = q, idle = False\<rparr>) s1 in
                case THREADS s2 nxt of
                  Some t \<Rightarrow> Some (switch_from_idle c nxt (set_current_kernel_stack c (kernel_stack_top t) s2))
                | None \<Rightarrow> Some s2)))"

text \<open>
  What follows a \<open>context_switch\<close> on the CPU that was switched: the bucket lock handed over is
  released, the idle loop marks the CPU idle, and a thread that slept in \<open>futex_wait_until\<close> learns
  its result.
\<close>

definition arrive :: "nat \<Rightarrow> sched \<Rightarrow> sched \<times> int option" where
  "arrive c s =
     (let s1 = (release_pending_unlock c s)\<lparr>SWITCHED := (SWITCHED s)(c := False)\<rparr> in
      case RUNS s1 c of
        In_Boot \<Rightarrow> (s1, None)
      | In_Idle \<Rightarrow> (upd_queue c (\<lambda>q. q\<lparr>current := None, idle := True\<rparr>) s1, None)
      | In_Thread i \<Rightarrow>
          (case CONT s1 i of
             After_Futex \<Rightarrow>
               (case THREADS s1 i of
                  Some t \<Rightarrow> (upd_thread i (\<lambda>t. t\<lparr>wait_timed_out := False, wait_deadline_ns := 0\<rparr>) s1,
                              Some (if wait_timed_out t then -110 else 0))
                | None \<Rightarrow> (s1, Some 0))
           | _ \<Rightarrow> (s1, None)))"

definition current_idx :: "nat \<Rightarrow> sched \<Rightarrow> nat" where
  "current_idx c s = (case current (CPU_QUEUES s c) of Some i \<Rightarrow> i | None \<Rightarrow> 0)"

definition has_child :: "sched \<Rightarrow> bool" where
  "has_child s \<longleftrightarrow> 1 < NEXT_TID s"

definition num_threads :: "sched \<Rightarrow> nat" where
  "num_threads s = NEXT_TID s"

section \<open>The system calls on threads\<close>

text \<open>
  \<open>sys_clone\<close>, \<open>sys_futex\<close> and \<open>gettid\<close> (\<open>src/src/syscall.rs\<close>).
\<close>

definition sys_clone ::
  "nat \<Rightarrow> nat \<times> nat \<Rightarrow> nat \<Rightarrow> bytes \<Rightarrow> nat \<Rightarrow> nat \<Rightarrow> nat \<Rightarrow> nat \<Rightarrow> nat \<Rightarrow> machine \<Rightarrow> sched \<Rightarrow> machine \<times> sched \<times> int" where
  "sys_clone c regs entry fx flags stack parent_tid child_tid tlp m s =
     (if stack = 0 then (m, s, -22)
      else
        (let (m', s', i) = spawn c regs entry fx (fst regs) stack tlp child_tid parent_tid flags m s
         in (m', s', int i)))"

definition futex_deadline :: "nat \<Rightarrow> machine \<Rightarrow> nat \<Rightarrow> int + nat option" where
  "futex_deadline now m timeout_ptr =
     (if timeout_ptr \<noteq> 0 then
        (case copy_from_user m 16 timeout_ptr of
           Inl _ \<Rightarrow> Inl (-14)
         | Inr ts \<Rightarrow>
             (let tv_sec = le_nat (take 8 ts); tv_nsec = le_nat (drop 8 ts);
                  dur_ns = saturating_add (saturating_mul tv_sec 1000000000) tv_nsec
              in Inr (Some (saturating_add now dur_ns))))
      else Inr None)"

definition sys_futex ::
  "nat \<Rightarrow> nat \<Rightarrow> machine \<Rightarrow> nat \<Rightarrow> nat \<Rightarrow> nat \<Rightarrow> nat \<Rightarrow> sched \<Rightarrow> (sched \<times> wait_outcome) option" where
  "sys_futex now c m uaddr opcode val timeout_ptr s =
     (let cmd = opcode mod 128 in
      if cmd = 0 \<or> cmd = 9 then
        (case futex_deadline now m timeout_ptr of
           Inl e \<Rightarrow> Some (s, Returns e)
         | Inr deadline \<Rightarrow> futex_wait_until now c m uaddr (val mod 2 ^ 32) deadline s)
      else if cmd = 1 then map_option (\<lambda>(s', n). (s', Returns (int n))) (futex_wake c uaddr (val mod 2 ^ 32) s)
      else Some (s, Returns 0))"

definition sys_gettid :: "nat \<Rightarrow> sched \<Rightarrow> int" where
  "sys_gettid c s = int (current_idx c s + 1)"

end
