(* ===== verification/Sched_Invariant.thy ===== *)
theory Sched_Invariant
  imports Sched
begin

text \<open>
  What holds of the scheduler in every interleaving of operations on all CPUs.  \<open>sched_step\<close> has one
  rule per operation a CPU can perform in the context it executes; \<open>sched_ok\<close> is the invariant.
\<close>

section \<open>The invariant\<close>

text \<open>The threads a CPU holds: the current one and those in its queue.\<close>

definition held :: "sched \<Rightarrow> nat \<Rightarrow> nat list" where
  "held s c = (case current (CPU_QUEUES s c) of None \<Rightarrow> [] | Some i \<Rightarrow> [i]) @ queue (CPU_QUEUES s c)"

definition runnable :: "thread \<Rightarrow> bool" where
  "runnable t \<longleftrightarrow> state t = Ready \<or> state t = Running"

text \<open>Every runnable thread is in exactly one place, which belongs to its home CPU.\<close>

definition places_ok :: "sched \<Rightarrow> bool" where
  "places_ok s \<longleftrightarrow>
     (\<forall>c. distinct (held s c)) \<and>
     (\<forall>c. \<forall>i\<in>set (held s c). \<exists>t. THREADS s i = Some t \<and> home_cpu t = c \<and> runnable t) \<and>
     (\<forall>i t. THREADS s i = Some t \<longrightarrow>
        tid t = i \<and> home_cpu t < NUM_CPUS s \<and> (runnable t \<longrightarrow> i \<in> set (held s (home_cpu t))))"

text \<open>What a CPU executes, its queue record and its kernel stack agree.\<close>

definition cpu_ok :: "sched \<Rightarrow> nat \<Rightarrow> bool" where
  "cpu_ok s c \<longleftrightarrow>
     (case current (CPU_QUEUES s c) of
        None \<Rightarrow> idle (CPU_QUEUES s c) \<and> (RUNS s c = In_Idle \<or> RUNS s c = In_Boot \<and> \<not> SWITCHED s c)
      | Some i \<Rightarrow> \<not> idle (CPU_QUEUES s c) \<and> RUNS s c = In_Thread i \<and> KSTACK s c = kstack_of s i)"

text \<open>A bucket lock is held exactly while one CPU that has just switched has to release it.\<close>

definition locks_ok :: "sched \<Rightarrow> bool" where
  "locks_ok s \<longleftrightarrow>
     (\<forall>b. FUTEX_LOCKS s b \<longleftrightarrow> (\<exists>c. PENDING_UNLOCK_BUCKET s c = Some b)) \<and>
     (\<forall>c. PENDING_UNLOCK_BUCKET s c \<noteq> None \<longrightarrow> SWITCHED s c) \<and>
     (\<forall>c c' b. PENDING_UNLOCK_BUCKET s c = Some b \<and> PENDING_UNLOCK_BUCKET s c' = Some b \<longrightarrow> c = c')"

text \<open>The thread table is filled in order, and each kernel stack has its own slot of the arena.\<close>

definition kstack_slot :: "nat \<Rightarrow> nat" where
  "kstack_slot i = KSTACK_ARENA_BASE + (i - 1) * KSTACK_STRIDE"

definition slots_ok :: "sched \<Rightarrow> bool" where
  "slots_ok s \<longleftrightarrow> 1 \<le> NEXT_TID s \<and> NUM_CPUS s \<le> MAX_CPUS \<and> 1 \<le> NUM_CPUS s \<and>
     KSTACK_NEXT s = kstack_slot (min (NEXT_TID s) MAX_THREADS) \<and>
     (\<forall>i. THREADS s i \<noteq> None \<longleftrightarrow> i < min (NEXT_TID s) MAX_THREADS) \<and>
     (\<forall>i t. THREADS s i = Some t \<longrightarrow> 0 < i \<longrightarrow> kernel_stack_top t = kstack_slot i + GUARD_SIZE + KSTACK_USABLE)"

definition sched_ok :: "sched \<Rightarrow> bool" where
  "sched_ok s \<longleftrightarrow> places_ok s \<and> (\<forall>c. cpu_ok s c) \<and> locks_ok s \<and> slots_ok s"

lemma sched_okI: "places_ok s \<Longrightarrow> (\<And>c. cpu_ok s c) \<Longrightarrow> locks_ok s \<Longrightarrow> slots_ok s \<Longrightarrow> sched_ok s"
  by (simp add: sched_ok_def)

lemma sched_okD:
  assumes "sched_ok s" shows "places_ok s" "cpu_ok s c" "locks_ok s" "slots_ok s"
  using assms by (simp_all add: sched_ok_def)

lemma places_okI:
  assumes "\<And>c. distinct (held s c)"
    and "\<And>c i. i \<in> set (held s c) \<Longrightarrow> \<exists>t. THREADS s i = Some t \<and> home_cpu t = c \<and> runnable t"
    and "\<And>i t. THREADS s i = Some t \<Longrightarrow> tid t = i \<and> home_cpu t < NUM_CPUS s"
    and "\<And>i t. THREADS s i = Some t \<Longrightarrow> runnable t \<Longrightarrow> i \<in> set (held s (home_cpu t))"
  shows "places_ok s"
  using assms unfolding places_ok_def by blast

lemma places_okD:
  assumes "places_ok s"
  shows "distinct (held s c)"
    and "i \<in> set (held s c) \<Longrightarrow> \<exists>t. THREADS s i = Some t \<and> home_cpu t = c \<and> runnable t"
    and "THREADS s i = Some t \<Longrightarrow> tid t = i \<and> home_cpu t < NUM_CPUS s"
    and "THREADS s i = Some t \<Longrightarrow> runnable t \<Longrightarrow> i \<in> set (held s (home_cpu t))"
  using assms unfolding places_ok_def by blast+

section \<open>Fields the helpers leave alone\<close>

lemma upd_thread_simps [simp]:
  "CPU_QUEUES (upd_thread i f s) = CPU_QUEUES s" "NUM_CPUS (upd_thread i f s) = NUM_CPUS s"
  "RUNS (upd_thread i f s) = RUNS s" "SWITCHED (upd_thread i f s) = SWITCHED s" "KSTACK (upd_thread i f s) = KSTACK s"
  "FUTEX_LOCKS (upd_thread i f s) = FUTEX_LOCKS s" "PENDING_UNLOCK_BUCKET (upd_thread i f s) = PENDING_UNLOCK_BUCKET s"
  "NEXT_TID (upd_thread i f s) = NEXT_TID s" "KSTACK_NEXT (upd_thread i f s) = KSTACK_NEXT s"
  "THREADS (upd_thread i f s) = (THREADS s)(i := map_option f (THREADS s i))"
  "PENDING_WAKES (upd_thread i f s) = PENDING_WAKES s" "CONT (upd_thread i f s) = CONT s" "REGS (upd_thread i f s) = REGS s"
  "IDLE_CTX (upd_thread i f s) = IDLE_CTX s" "RESCUE_REQUESTED (upd_thread i f s) = RESCUE_REQUESTED s"
  "NEED_RESCHED (upd_thread i f s) = NEED_RESCHED s" "FUTEX_BLOCKING (upd_thread i f s) = FUTEX_BLOCKING s"
  by (simp_all add: upd_thread_def)

lemma upd_queue_simps [simp]:
  "THREADS (upd_queue c f s) = THREADS s" "NUM_CPUS (upd_queue c f s) = NUM_CPUS s"
  "RUNS (upd_queue c f s) = RUNS s" "SWITCHED (upd_queue c f s) = SWITCHED s" "KSTACK (upd_queue c f s) = KSTACK s"
  "FUTEX_LOCKS (upd_queue c f s) = FUTEX_LOCKS s" "PENDING_UNLOCK_BUCKET (upd_queue c f s) = PENDING_UNLOCK_BUCKET s"
  "NEXT_TID (upd_queue c f s) = NEXT_TID s" "KSTACK_NEXT (upd_queue c f s) = KSTACK_NEXT s"
  "CPU_QUEUES (upd_queue c f s) = (CPU_QUEUES s)(c := f (CPU_QUEUES s c))"
  "PENDING_WAKES (upd_queue c f s) = PENDING_WAKES s" "CONT (upd_queue c f s) = CONT s" "REGS (upd_queue c f s) = REGS s"
  "IDLE_CTX (upd_queue c f s) = IDLE_CTX s" "RESCUE_REQUESTED (upd_queue c f s) = RESCUE_REQUESTED s"
  "NEED_RESCHED (upd_queue c f s) = NEED_RESCHED s" "FUTEX_BLOCKING (upd_queue c f s) = FUTEX_BLOCKING s"
  by (simp_all add: upd_queue_def)

lemma send_ipi_simps [simp]:
  "THREADS (send_ipi c s) = THREADS s" "NUM_CPUS (send_ipi c s) = NUM_CPUS s"
  "RUNS (send_ipi c s) = RUNS s" "SWITCHED (send_ipi c s) = SWITCHED s" "KSTACK (send_ipi c s) = KSTACK s"
  "FUTEX_LOCKS (send_ipi c s) = FUTEX_LOCKS s" "PENDING_UNLOCK_BUCKET (send_ipi c s) = PENDING_UNLOCK_BUCKET s"
  "NEXT_TID (send_ipi c s) = NEXT_TID s" "KSTACK_NEXT (send_ipi c s) = KSTACK_NEXT s"
  "CPU_QUEUES (send_ipi c s) = CPU_QUEUES s" "PENDING_WAKES (send_ipi c s) = PENDING_WAKES s"
  "RESCUE_REQUESTED (send_ipi c s) = RESCUE_REQUESTED s" "CONT (send_ipi c s) = CONT s"
  "NEED_RESCHED (send_ipi c s) = NEED_RESCHED s" "FUTEX_BLOCKING (send_ipi c s) = FUTEX_BLOCKING s"
  by (simp_all add: send_ipi_def)

text \<open>
  The invariant depends on these fields only; an operation that changes none of them keeps it.
\<close>

lemma sched_ok_cong:
  assumes "THREADS s' = THREADS s" "CPU_QUEUES s' = CPU_QUEUES s" "NUM_CPUS s' = NUM_CPUS s" "RUNS s' = RUNS s"
    "SWITCHED s' = SWITCHED s" "KSTACK s' = KSTACK s" "FUTEX_LOCKS s' = FUTEX_LOCKS s"
    "PENDING_UNLOCK_BUCKET s' = PENDING_UNLOCK_BUCKET s" "NEXT_TID s' = NEXT_TID s" "KSTACK_NEXT s' = KSTACK_NEXT s"
  shows "sched_ok s' = sched_ok s"
  unfolding sched_ok_def places_ok_def cpu_ok_def locks_ok_def slots_ok_def held_def kstack_of_def assms ..

text \<open>Thread fields the invariant reads.\<close>

definition same_place :: "thread \<Rightarrow> thread \<Rightarrow> bool" where
  "same_place t t' \<longleftrightarrow> tid t' = tid t \<and> home_cpu t' = home_cpu t \<and> kernel_stack_top t' = kernel_stack_top t"

lemma kstack_of_upd: "(\<And>t. same_place t (f t)) \<Longrightarrow> kstack_of (upd_thread i f s) j = kstack_of s j"
  by (simp add: kstack_of_def same_place_def split: option.split)

lemma slots_ok_upd:
  assumes "slots_ok s" "\<And>t. same_place t (f t)"
  shows "slots_ok (upd_thread i f s)"
  using assms unfolding slots_ok_def same_place_def by (auto split: if_splits)

section \<open>Waking\<close>

definition same_rest :: "sched \<Rightarrow> sched \<Rightarrow> bool" where
  "same_rest s s' \<longleftrightarrow> NUM_CPUS s' = NUM_CPUS s \<and> RUNS s' = RUNS s \<and> SWITCHED s' = SWITCHED s \<and> KSTACK s' = KSTACK s \<and>
     FUTEX_LOCKS s' = FUTEX_LOCKS s \<and> PENDING_UNLOCK_BUCKET s' = PENDING_UNLOCK_BUCKET s \<and>
     NEXT_TID s' = NEXT_TID s \<and> KSTACK_NEXT s' = KSTACK_NEXT s"

lemma not_runnable: "state t = Blocked \<or> state t = Dead \<Longrightarrow> \<not> runnable t"
  by (auto simp: runnable_def)

lemma blocked_not_held:
  assumes "places_ok s" "THREADS s i = Some t" "\<not> runnable t" shows "i \<notin> set (held s c)"
  using places_okD(2) [OF assms(1)] assms(2,3) by force

text \<open>A thread that is in no place becomes runnable at the end of the queue of its home CPU.\<close>

lemma places_add:
  assumes ok: "places_ok s" and fresh: "\<And>c. i \<notin> set (held s c)"
    and t': "tid t' = i" "runnable t'" "home_cpu t' < NUM_CPUS s"
    and s': "THREADS s' = (THREADS s)(i \<mapsto> t')"
      "CPU_QUEUES s' = (CPU_QUEUES s)(home_cpu t' := (CPU_QUEUES s (home_cpu t'))\<lparr>queue := queue (CPU_QUEUES s (home_cpu t')) @ [i]\<rparr>)"
      "NUM_CPUS s' = NUM_CPUS s"
  shows "places_ok s'"
proof -
  note P = places_okD [OF ok]
  have held: "held s' c = (if c = home_cpu t' then held s c @ [i] else held s c)" for c
    by (simp add: held_def s'(2))
  show ?thesis
  proof (rule places_okI)
    show "distinct (held s' c)" for c
      using P(1) [of c] fresh [of c] by (auto simp: held)
    show "\<exists>t. THREADS s' j = Some t \<and> home_cpu t = c \<and> runnable t" if "j \<in> set (held s' c)" for c j
    proof (cases "j = i")
      case True
      then have "c = home_cpu t'"
        using that fresh [of c] by (auto simp: held split: if_splits)
      with True t' show ?thesis
        by (simp add: s'(1))
    next
      case False
      then show ?thesis
        using that P(2) [of j c] by (auto simp: held s'(1) split: if_splits)
    qed
    show "tid u = j \<and> home_cpu u < NUM_CPUS s'" if "THREADS s' j = Some u" for j u
      using that P(3) [of j] t' s'(3) by (auto simp: s'(1) split: if_splits)
    show "j \<in> set (held s' (home_cpu u))" if "THREADS s' j = Some u" "runnable u" for j u
      using that P(4) [of j u] t'(1) by (auto simp: held s'(1) split: if_splits)
  qed
qed

lemma wake_ok:
  assumes ok: "sched_ok s" and t: "THREADS s i = Some t" "\<not> runnable t"
    and t': "same_place t t'" "runnable t'"
    and s': "THREADS s' = (THREADS s)(i \<mapsto> t')"
      "CPU_QUEUES s' = (CPU_QUEUES s)(home_cpu t := (CPU_QUEUES s (home_cpu t))\<lparr>queue := queue (CPU_QUEUES s (home_cpu t)) @ [i]\<rparr>)"
      "same_rest s s'"
  shows "sched_ok s'"
proof (rule sched_okI)
  have h: "home_cpu t' = home_cpu t" "tid t' = i" "home_cpu t < NUM_CPUS s"
    using places_okD(3) [OF sched_okD(1) [OF ok] t(1)] t'(1) by (simp_all add: same_place_def)
  show "places_ok s'"
    by (rule places_add [OF sched_okD(1) [OF ok] blocked_not_held [OF sched_okD(1) [OF ok] t], of t'])
       (use h t' s' in \<open>simp_all add: same_rest_def\<close>)
  have ks: "kstack_of s' j = kstack_of s j" for j
    using t t'(1) by (simp add: kstack_of_def s'(1) same_place_def)
  show "cpu_ok s' c" for c
    using sched_okD(2) [OF ok, of c] s'(3) by (auto simp: cpu_ok_def s'(2) ks same_rest_def split: option.splits)
  show "locks_ok s'"
    using sched_okD(3) [OF ok] s'(3) by (simp add: locks_ok_def same_rest_def)
  show "slots_ok s'"
    using sched_okD(4) [OF ok] s'(3) t t'(1) unfolding slots_ok_def same_rest_def same_place_def s'(1)
    by (auto split: if_splits)
qed

lemma rescue_one_ok:
  assumes ok: "sched_ok s" and r: "rescue_one now c i s = Some s'"
  shows "sched_ok s'"
proof -
  let ?s1 = "s\<lparr>RESCUE_REQUESTED := (RESCUE_REQUESTED s)(i := False)\<rparr>"
  have ok1: "sched_ok ?s1"
    using ok sched_ok_cong [of ?s1 s] by simp
  show ?thesis
  proof (cases "\<exists>t. THREADS s i = Some t \<and> RESCUE_REQUESTED s i \<and> state t = Blocked \<and> futex_addr t \<noteq> 0")
    case False
    then have "s' = s \<or> s' = ?s1"
      using r by (auto simp: rescue_one_def Let_def split: option.splits if_splits)
    with ok ok1 show ?thesis
      by blast
  next
    case True
    then obtain t where t: "THREADS s i = Some t" "RESCUE_REQUESTED s i" "state t = Blocked" "futex_addr t \<noteq> 0"
      by blast
    have nr: "\<not> runnable t"
      using t(3) by (simp add: not_runnable)
    have h: "home_cpu t < MAX_CPUS" "tid t = i"
      using places_okD(3) [OF sched_okD(1) [OF ok] t(1)] sched_okD(4) [OF ok] by (auto simp: slots_ok_def)
    have nh: "i \<notin> set (queue (CPU_QUEUES s (home_cpu t)))"
      using blocked_not_held [OF sched_okD(1) [OF ok] t(1) nr, of "home_cpu t"] by (simp add: held_def)
    define t' where "t' = t\<lparr>state := Ready, futex_addr := 0, blocked_since_ns := 0,
        wait_timed_out := (wait_deadline_ns t \<noteq> 0 \<and> wait_deadline_ns t \<le> now \<or> wait_timed_out t), wait_deadline_ns := 0\<rparr>"
    have s': "THREADS s' = (THREADS s)(i \<mapsto> t')"
      "CPU_QUEUES s' = (CPU_QUEUES s)(home_cpu t := (CPU_QUEUES s (home_cpu t))\<lparr>queue := queue (CPU_QUEUES s (home_cpu t)) @ [i]\<rparr>)"
      "same_rest s s'"
      using r t h nh by (auto simp: rescue_one_def Let_def t'_def same_rest_def split: if_splits)
    show ?thesis
      by (rule wake_ok [OF ok t(1) nr _ _ s']) (simp_all add: t'_def same_place_def runnable_def)
  qed
qed

lemma process_rescues_ok: "process_rescues now c s = Some s' \<Longrightarrow> sched_ok s \<Longrightarrow> sched_ok s'"
proof -
  have "rescue_list now c is s = Some s' \<Longrightarrow> sched_ok s \<Longrightarrow> sched_ok s'" for "is"
    by (induction "is" arbitrary: s) (auto split: option.splits intro: rescue_one_ok)
  then show "process_rescues now c s = Some s' \<Longrightarrow> sched_ok s \<Longrightarrow> sched_ok s'"
    by (simp add: process_rescues_def)
qed

lemma wake_list_ok: "sched_ok s \<Longrightarrow> sched_ok (fst (wake_list c addr count is woken s))"
proof (induction "is" arbitrary: s woken)
  case (Cons i "is")
  show ?case
  proof (cases "\<exists>t. \<not> count \<le> woken \<and> THREADS s i = Some t \<and> state t = Blocked \<and> futex_addr t = addr")
    case False
    then show ?thesis
      using Cons by (auto split: option.split)
  next
    case True
    then obtain t where t: "\<not> count \<le> woken" "THREADS s i = Some t" "state t = Blocked" "futex_addr t = addr"
      by blast
    let ?f = "\<lambda>t. t\<lparr>state := Ready, futex_addr := 0, blocked_since_ns := 0, in_idle_ctx := False\<rparr>"
    have "tid t = i"
      using places_okD(3) [OF sched_okD(1) [OF Cons.prems] t(2)] by simp
    have "sched_ok (enqueue c (home_cpu t) i (upd_thread i ?f s))"
    proof (rule wake_ok [OF Cons.prems t(2)])
      show "THREADS (enqueue c (home_cpu t) i (upd_thread i ?f s)) = (THREADS s)(i \<mapsto> ?f t)"
        using t by (simp add: enqueue_def Let_def)
    qed (use t in \<open>auto simp: enqueue_def Let_def same_rest_def same_place_def runnable_def\<close>)
    then show ?thesis
      using t \<open>tid t = i\<close> Cons.IH by simp
  qed
qed simp

lemma futex_wake_ok:
  assumes "futex_wake c addr count s = Some (s', n)" "sched_ok s" shows "sched_ok s'"
proof -
  have "sched_ok (fst (wake_list c addr count [0..<MAX_THREADS] 0 s))"
    by (rule wake_list_ok [OF assms(2)])
  then show ?thesis
    using assms(1) sched_ok_cong [of "(fst (wake_list c addr count [0..<MAX_THREADS] 0 s))\<lparr>PENDING_WAKES := x\<rparr>"
        "fst (wake_list c addr count [0..<MAX_THREADS] 0 s)" for x]
    by (auto simp: futex_wake_def Let_def split: if_splits prod.splits)
qed

section \<open>One CPU changes what it runs\<close>

lemma cpu_step_ok:
  assumes ok: "sched_ok s" and t: "THREADS s i = Some t" "runnable t" "home_cpu t = c" "same_place t t'"
    and thr: "THREADS s' = (THREADS s)(i \<mapsto> t')"
    and other: "\<And>d. d \<noteq> c \<Longrightarrow> CPU_QUEUES s' d = CPU_QUEUES s d \<and> RUNS s' d = RUNS s d \<and> SWITCHED s' d = SWITCHED s d
                  \<and> KSTACK s' d = KSTACK s d"
    and held: "distinct (held s' c)"
      "set (held s' c) = (if runnable t' then set (held s c) else set (held s c) - {i})"
    and cpu: "cpu_ok s' c" and lk: "locks_ok s'"
    and rest: "NUM_CPUS s' = NUM_CPUS s" "NEXT_TID s' = NEXT_TID s" "KSTACK_NEXT s' = KSTACK_NEXT s"
  shows "sched_ok s'"
proof (rule sched_okI)
  note P = places_okD [OF sched_okD(1) [OF ok]]
  have heldd: "held s' d = held s d" if "d \<noteq> c" for d
    using other [OF that] by (simp add: held_def)
  have ic: "i \<in> set (held s c)"
    using P(4) [OF t(1,2)] t(3) by simp
  have nic: "i \<notin> set (held s d)" if "d \<noteq> c" for d
    using P(2) [of i d] t(1,3) that by auto
  show "places_ok s'"
  proof (rule places_okI)
    show "distinct (held s' d)" for d
      using P(1) [of d] held(1) heldd by (cases "d = c") auto
    show "\<exists>u. THREADS s' j = Some u \<and> home_cpu u = d \<and> runnable u" if j: "j \<in> set (held s' d)" for d j
    proof (cases "j = i")
      case True
      then have "d = c"
        using j nic heldd by metis
      moreover have "runnable t'"
        using j held(2) True \<open>d = c\<close> by (auto split: if_splits)
      ultimately show ?thesis
        using True t by (simp add: thr same_place_def)
    next
      case False
      then have "j \<in> set (held s d)"
        using j held(2) heldd by (cases "d = c") (auto split: if_splits)
      with False show ?thesis
        using P(2) [of j d] by (simp add: thr)
    qed
    show "tid u = j \<and> home_cpu u < NUM_CPUS s'" if "THREADS s' j = Some u" for j u
      using that P(3) [of j] P(3) [OF t(1)] t(4) by (auto simp: thr rest same_place_def split: if_splits)
    show "j \<in> set (held s' (home_cpu u))" if u: "THREADS s' j = Some u" "runnable u" for j u
    proof (cases "j = i")
      case True
      with u have "u = t'"
        by (simp add: thr)
      with True u(2) held(2) ic t(3,4) show ?thesis
        by (simp add: same_place_def)
    next
      case False
      then have "j \<in> set (held s (home_cpu u))"
        using u P(4) [of j u] by (simp add: thr)
      with False held(2) heldd show ?thesis
        by (cases "home_cpu u = c") auto
    qed
  qed
  have ks: "kstack_of s' j = kstack_of s j" for j
    using t by (simp add: kstack_of_def thr same_place_def)
  show "cpu_ok s' d" for d
    using sched_okD(2) [OF ok, of d] other [of d] cpu by (cases "d = c") (auto simp: cpu_ok_def ks split: option.splits)
  show "locks_ok s'"
    by (rule lk)
  show "slots_ok s'"
    using sched_okD(4) [OF ok] t rest unfolding slots_ok_def same_place_def thr by (auto split: if_splits)
qed

lemma locks_ok_switched:
  assumes "locks_ok s" "FUTEX_LOCKS s' = FUTEX_LOCKS s" "PENDING_UNLOCK_BUCKET s' = PENDING_UNLOCK_BUCKET s"
    "\<And>d. SWITCHED s d \<Longrightarrow> SWITCHED s' d"
  shows "locks_ok s'"
  using assms unfolding locks_ok_def by simp

lemma locks_ok_handoff:
  assumes "locks_ok s" "\<not> FUTEX_LOCKS s b" "PENDING_UNLOCK_BUCKET s c = None"
    "FUTEX_LOCKS s' = (FUTEX_LOCKS s)(b := True)"
    "PENDING_UNLOCK_BUCKET s' = (PENDING_UNLOCK_BUCKET s)(c := Some b)"
    "SWITCHED s' c" "\<And>d. SWITCHED s d \<Longrightarrow> SWITCHED s' d"
  shows "locks_ok s'"
proof -
  have L: "FUTEX_LOCKS s x \<longleftrightarrow> (\<exists>d. PENDING_UNLOCK_BUCKET s d = Some x)"
      "PENDING_UNLOCK_BUCKET s d \<noteq> None \<Longrightarrow> SWITCHED s d"
      "PENDING_UNLOCK_BUCKET s d = Some x \<Longrightarrow> PENDING_UNLOCK_BUCKET s e = Some x \<Longrightarrow> d = e" for x d e
    using assms(1) unfolding locks_ok_def by blast+
  have nb: "PENDING_UNLOCK_BUCKET s d \<noteq> Some b" for d
    using assms(2) L(1) by blast
  have "FUTEX_LOCKS s' x \<longleftrightarrow> (\<exists>d. PENDING_UNLOCK_BUCKET s' d = Some x)" for x
  proof (cases "x = b")
    case True
    then show ?thesis
      using assms(4,5) by auto
  next
    case False
    then have "FUTEX_LOCKS s' x = FUTEX_LOCKS s x"
      using assms(4) by simp
    also have "\<dots> \<longleftrightarrow> (\<exists>d. PENDING_UNLOCK_BUCKET s d = Some x)"
      by (rule L(1))
    also have "\<dots> \<longleftrightarrow> (\<exists>d. PENDING_UNLOCK_BUCKET s' d = Some x)"
      using False assms(3,5) by (auto, metis option.distinct(1))
    finally show ?thesis .
  qed
  moreover have "SWITCHED s' d" if "PENDING_UNLOCK_BUCKET s' d \<noteq> None" for d
    using that L(2) [of d] assms(5,6,7) by (cases "d = c") auto
  moreover have "d = e" if "PENDING_UNLOCK_BUCKET s' d = Some x" "PENDING_UNLOCK_BUCKET s' e = Some x" for d e x
    using that nb L(3) assms(5) by (auto split: if_splits)
  ultimately show ?thesis
    unfolding locks_ok_def by blast
qed

lemma not_pending: "sched_ok s \<Longrightarrow> \<not> SWITCHED s c \<Longrightarrow> PENDING_UNLOCK_BUCKET s c = None"
  using sched_okD(3) [of s] unfolding locks_ok_def by blast

text \<open>The thread at the head of a queue, and the current thread, exist and belong to the CPU.\<close>

lemma head_thread:
  assumes "sched_ok s" "queue (CPU_QUEUES s c) = n # q"
  obtains t where "THREADS s n = Some t" "home_cpu t = c" "runnable t"
  using places_okD(2) [OF sched_okD(1) [OF assms(1)], of n c] assms(2) by (auto simp: held_def)

lemma current_thread:
  assumes "sched_ok s" "current (CPU_QUEUES s c) = Some i"
  obtains t where "THREADS s i = Some t" "home_cpu t = c" "runnable t"
  using places_okD(2) [OF sched_okD(1) [OF assms(1)], of i c] assms(2) by (auto simp: held_def)

lemma set_kstack_simps [simp]:
  "THREADS (set_current_kernel_stack c k s) = THREADS s" "NUM_CPUS (set_current_kernel_stack c k s) = NUM_CPUS s"
  "RUNS (set_current_kernel_stack c k s) = RUNS s" "SWITCHED (set_current_kernel_stack c k s) = SWITCHED s"
  "KSTACK (set_current_kernel_stack c k s) = (KSTACK s)(c := k)"
  "FUTEX_LOCKS (set_current_kernel_stack c k s) = FUTEX_LOCKS s"
  "PENDING_UNLOCK_BUCKET (set_current_kernel_stack c k s) = PENDING_UNLOCK_BUCKET s"
  "NEXT_TID (set_current_kernel_stack c k s) = NEXT_TID s" "KSTACK_NEXT (set_current_kernel_stack c k s) = KSTACK_NEXT s"
  "CPU_QUEUES (set_current_kernel_stack c k s) = CPU_QUEUES s" "REGS (set_current_kernel_stack c k s) = REGS s"
  "CONT (set_current_kernel_stack c k s) = CONT s" "IDLE_CTX (set_current_kernel_stack c k s) = IDLE_CTX s"
  by (simp_all add: set_current_kernel_stack_def)

lemmas switch_defs = switch_threads_def switch_to_idle_def switch_from_idle_def jump_to_thread_def

lemma yield_locked_ok:
  assumes ok: "sched_ok s" shows "sched_ok (yield_locked c s)"
proof (cases "queue (CPU_QUEUES s c)")
  case Nil
  then show ?thesis
    using ok by (simp add: yield_locked_def split: option.split)
next
  case (Cons n q)
  obtain t where t: "THREADS s n = Some t" "home_cpu t = c" "runnable t"
    using head_thread [OF ok Cons] .
  have d: "distinct (held s c)"
    by (rule places_okD(1) [OF sched_okD(1) [OF ok]])
  note lk = sched_okD(3) [OF ok]
  show ?thesis
  proof (cases "current (CPU_QUEUES s c)")
    case None
    have e: "yield_locked c s = jump_to_thread c n (set_current_kernel_stack c (kernel_stack_top t)
        (upd_queue c (\<lambda>_. \<lparr>current = Some n, queue = q, idle = False\<rparr>) s))"
      using None Cons t(1) by (simp add: yield_locked_def)
    show ?thesis
    proof (rule cpu_step_ok [OF ok t(1,3,2)])
      show "THREADS (yield_locked c s) = (THREADS s)(n \<mapsto> t)"
        using t(1) by (simp add: e jump_to_thread_def fun_upd_idem)
      show "locks_ok (yield_locked c s)"
        by (rule locks_ok_switched [OF lk]) (simp_all add: e jump_to_thread_def)
      show "cpu_ok (yield_locked c s) c"
        using t(1) by (simp add: e jump_to_thread_def cpu_ok_def kstack_of_def)
      show "distinct (held (yield_locked c s) c)" "set (held (yield_locked c s) c) = (if runnable t then set (held s c) else set (held s c) - {n})"
        using d None Cons t(3) by (simp_all add: e jump_to_thread_def held_def)
    qed (simp_all add: e jump_to_thread_def same_place_def)
  next
    case (Some cur)
    obtain u where u: "THREADS s cur = Some u" "home_cpu u = c" "runnable u"
      using current_thread [OF ok Some] .
    have nc: "n \<noteq> cur"
      using d Some Cons by (simp add: held_def)
    define s1 where "s1 = set_current_kernel_stack c (kernel_stack_top t)
        (upd_queue c (\<lambda>x. x\<lparr>current := Some n, queue := q @ [cur]\<rparr>) s)"
    have e: "yield_locked c s = switch_threads c cur n After_Yield s1"
      using Some Cons t(1) u(1) by (simp add: yield_locked_def s1_def Let_def kstack_of_def)
    show ?thesis
    proof (rule cpu_step_ok [OF ok u(1,3,2)])
      show "THREADS (yield_locked c s) = (THREADS s)(cur \<mapsto> u\<lparr>ctx := REGS s c\<rparr>)"
        using u(1) by (simp add: e switch_threads_def s1_def Let_def)
      show "locks_ok (yield_locked c s)"
        by (rule locks_ok_switched [OF lk]) (simp_all add: e switch_threads_def s1_def Let_def)
      show "cpu_ok (yield_locked c s) c"
        using t(1) nc sched_okD(2) [OF ok, of c] Some
        by (simp add: e switch_threads_def s1_def Let_def cpu_ok_def kstack_of_def)
      show "distinct (held (yield_locked c s) c)"
        "set (held (yield_locked c s) c) = (if runnable (u\<lparr>ctx := REGS s c\<rparr>) then set (held s c) else set (held s c) - {cur})"
        using d Some Cons u(3) by (auto simp: e switch_threads_def s1_def Let_def held_def runnable_def)
    qed (simp_all add: e switch_threads_def s1_def Let_def same_place_def)
  qed
qed

lemma yield_current_ok: "yield_current now c s = Some s' \<Longrightarrow> sched_ok s \<Longrightarrow> sched_ok s'"
  using process_rescues_ok yield_locked_ok by (auto simp: yield_current_def)

lemma check_resched_ok:
  assumes "check_resched now c s = Some s'" "sched_ok s" shows "sched_ok s'"
proof -
  obtain s1 where s1: "process_rescues now c s = Some s1" "sched_ok s1"
    using assms process_rescues_ok by (auto simp: check_resched_def split: option.splits)
  have "sched_ok (s1\<lparr>NEED_RESCHED := x\<rparr>)" for x
    using s1(2) sched_ok_cong [of "s1\<lparr>NEED_RESCHED := x\<rparr>" s1] by simp
  then show ?thesis
    using assms(1) s1 yield_current_ok by (auto simp: check_resched_def split: if_splits)
qed

lemma block_current_ok:
  assumes ok: "sched_ok s" and cur: "current (CPU_QUEUES s c) = Some cur" and free: "\<not> FUTEX_LOCKS s (futex_bucket addr)"
    and ns: "\<not> SWITCHED s c"
    and s0: "s0 = s\<lparr>FUTEX_LOCKS := (FUTEX_LOCKS s)(futex_bucket addr := True)\<rparr>"
  shows "sched_ok (block_current now c addr val deadline cur s0)"
proof -
  let ?s' = "block_current now c addr val deadline cur s0"
  obtain u where u: "THREADS s cur = Some u" "home_cpu u = c" "runnable u"
    using current_thread [OF ok cur] .
  have d: "distinct (held s c)"
    by (rule places_okD(1) [OF sched_okD(1) [OF ok]])
  define f :: "thread \<Rightarrow> thread" where "f = (\<lambda>t. t\<lparr>state := Blocked, futex_addr := addr, futex_val := val,
      wait_deadline_ns := (case deadline of Some d \<Rightarrow> d | None \<Rightarrow> 0), wait_timed_out := False, blocked_since_ns := now\<rparr>)"
  let ?t' = "(f u)\<lparr>ctx := REGS s c\<rparr>"
  have nr: "\<not> runnable ?t'" "same_place u ?t'"
    by (simp_all add: f_def runnable_def same_place_def)
  have shape: "THREADS ?s' = (THREADS s)(cur \<mapsto> ?t') \<and> FUTEX_LOCKS ?s' = (FUTEX_LOCKS s)(futex_bucket addr := True) \<and>
      PENDING_UNLOCK_BUCKET ?s' = (PENDING_UNLOCK_BUCKET s)(c := Some (futex_bucket addr)) \<and>
      SWITCHED ?s' = (SWITCHED s)(c := True) \<and> cpu_ok ?s' c \<and> held ?s' c = queue (CPU_QUEUES s c) \<and>
      NUM_CPUS ?s' = NUM_CPUS s \<and> NEXT_TID ?s' = NEXT_TID s \<and> KSTACK_NEXT ?s' = KSTACK_NEXT s \<and>
      (\<forall>e. e \<noteq> c \<longrightarrow> CPU_QUEUES ?s' e = CPU_QUEUES s e \<and> RUNS ?s' e = RUNS s e \<and> KSTACK ?s' e = KSTACK s e)"
  proof (cases "queue (CPU_QUEUES s c)")
    case Nil
    then show ?thesis
      using u(1) cur by (simp add: block_current_def switch_to_idle_def Let_def s0 cpu_ok_def held_def f_def)
  next
    case (Cons n q)
    obtain t where t: "THREADS s n = Some t"
      using head_thread [OF ok Cons] .
    have nc: "n \<noteq> cur"
      using d cur Cons by (simp add: held_def)
    show ?thesis
      using Cons u(1) t nc cur sched_okD(2) [OF ok, of c]
      by (simp add: block_current_def switch_threads_def Let_def s0 cpu_ok_def held_def kstack_of_def f_def)
  qed
  show ?thesis
  proof (rule cpu_step_ok [OF ok u(1,3,2) nr(2)])
    show "locks_ok ?s'"
      by (rule locks_ok_handoff [OF sched_okD(3) [OF ok] free not_pending [OF ok ns]]) (use shape in simp_all)
    show "distinct (held ?s' c)" "set (held ?s' c) = (if runnable ?t' then set (held s c) else set (held s c) - {cur})"
      using shape d cur nr(1) by (auto simp: held_def)
  qed (use shape in simp_all)
qed

text \<open>\<open>futex_wait_until\<close> when the bucket lock is free, with the lock operations that cancel removed.\<close>

lemma futex_wait_unlocked:
  assumes "1 < NEXT_TID s" "\<not> FUTEX_LOCKS s (futex_bucket addr)"
  shows "futex_wait_until now c m addr val deadline s =
     (if snd (pending_wake_consume addr (PENDING_WAKES s (futex_bucket addr)))
      then Some (s\<lparr>PENDING_WAKES := (PENDING_WAKES s)(futex_bucket addr :=
                   fst (pending_wake_consume addr (PENDING_WAKES s (futex_bucket addr))))\<rparr>, Returns 0)
      else case read_user_u32 m addr of
             Inl _ \<Rightarrow> Some (s, Returns (-14))
           | Inr v \<Rightarrow>
               if v \<noteq> val then Some (s, Returns (-11))
               else if \<not> FUTEX_BLOCKING s then
                 map_option (\<lambda>s'. (s', Returns 0)) (yield_current now c
                   (s\<lparr>FIRST_SPINYIELD_NS := (if FIRST_SPINYIELD_NS s = 0 then now else FIRST_SPINYIELD_NS s)\<rparr>))
               else case current (CPU_QUEUES s c) of
                      None \<Rightarrow> Some (s, Returns 0)
                    | Some cur \<Rightarrow> Some (block_current now c addr val deadline cur
                        (s\<lparr>FUTEX_LOCKS := (FUTEX_LOCKS s)(futex_bucket addr := True)\<rparr>), Sleeps))"
proof -
  have u: "(FUTEX_LOCKS s)(futex_bucket addr := False) = FUTEX_LOCKS s"
    using assms(2) by (simp add: fun_upd_idem)
  have "\<not> NEXT_TID s \<le> 1"
    using assms(1) by simp
  then show ?thesis
    unfolding futex_wait_until_def Let_def split_beta using assms(2)
    by (simp add: u split: option.split sum.split)
qed

lemma futex_wait_ok:
  assumes w: "futex_wait_until now c m addr val deadline s = Some (s', r)" and ok: "sched_ok s" and ns: "\<not> SWITCHED s c"
  shows "sched_ok s'"
proof (cases "NEXT_TID s \<le> 1")
  case True
  with w ok show ?thesis
    by (auto simp: futex_wait_until_def yield_current_ok)
next
  case False
  have free: "\<not> FUTEX_LOCKS s (futex_bucket addr)"
    using w False by (auto simp: futex_wait_until_def Let_def split: if_splits)
  have keep: "sched_ok (s\<lparr>PENDING_WAKES := x\<rparr>)" "sched_ok (s\<lparr>FIRST_SPINYIELD_NS := y\<rparr>)" for x y
    using ok sched_ok_cong [of "s\<lparr>PENDING_WAKES := x\<rparr>" s] sched_ok_cong [of "s\<lparr>FIRST_SPINYIELD_NS := y\<rparr>" s] by simp_all
  have "1 < NEXT_TID s"
    using False by simp
  note w' = w [unfolded futex_wait_unlocked [OF this free]]
  show ?thesis
    using w' ok keep yield_current_ok block_current_ok [OF ok _ free ns refl]
    by (auto split: if_splits sum.splits option.splits)
qed

section \<open>Exit, idling, arrival\<close>

lemma thread_exit_ok:
  assumes ok: "sched_ok s" and cur: "current (CPU_QUEUES s c) = Some i"
  shows "sched_ok (thread_exit c s)"
proof -
  obtain t where t: "THREADS s i = Some t" "home_cpu t = c" "runnable t"
    using current_thread [OF ok cur] .
  have d: "distinct (held s c)"
    by (rule places_okD(1) [OF sched_okD(1) [OF ok]])
  let ?t' = "t\<lparr>state := Dead, ctx := REGS s c\<rparr>"
  have nr: "\<not> runnable ?t'" "same_place t ?t'"
    by (simp_all add: runnable_def same_place_def)
  have shape: "THREADS (thread_exit c s) = (THREADS s)(i \<mapsto> ?t')" "held (thread_exit c s) c = queue (CPU_QUEUES s c)"
      "cpu_ok (thread_exit c s) c" "SWITCHED (thread_exit c s) = (SWITCHED s)(c := True)"
    using cur t(1) by (simp_all add: thread_exit_def Let_def switch_to_idle_def held_def cpu_ok_def)
  show ?thesis
  proof (rule cpu_step_ok [OF ok t(1,3,2) nr(2) shape(1)])
    show "locks_ok (thread_exit c s)"
      by (rule locks_ok_switched [OF sched_okD(3) [OF ok]])
         (use cur shape in \<open>simp_all add: thread_exit_def Let_def switch_to_idle_def\<close>)
    show "distinct (held (thread_exit c s) c)"
      "set (held (thread_exit c s) c) = (if runnable ?t' then set (held s c) else set (held s c) - {i})"
      using shape(2) d cur nr(1) by (auto simp: held_def)
  qed (use cur shape(3) in \<open>simp_all add: thread_exit_def Let_def switch_to_idle_def\<close>)
qed

lemma rescue_current:
  "process_rescues now c s = Some s' \<Longrightarrow> current (CPU_QUEUES s' d) = current (CPU_QUEUES s d)"
proof -
  have one: "rescue_one now c i s = Some s' \<Longrightarrow> current (CPU_QUEUES s' d) = current (CPU_QUEUES s d)" for i s s'
    by (auto simp: rescue_one_def Let_def split: option.splits if_splits)
  have "rescue_list now c is s = Some s' \<Longrightarrow> current (CPU_QUEUES s' d) = current (CPU_QUEUES s d)" for "is"
    by (induction "is" arbitrary: s) (auto split: option.splits dest: one)
  then show "process_rescues now c s = Some s' \<Longrightarrow> ?thesis"
    by (simp add: process_rescues_def)
qed

lemma cpu_idle_iteration_ok:
  assumes ok: "sched_ok s" and ns: "\<not> SWITCHED s c" and none: "current (CPU_QUEUES s c) = None"
    and r: "cpu_idle_iteration now c s = Some s'"
  shows "sched_ok s'"
proof -
  have "release_pending_unlock c s = s"
    using not_pending [OF ok ns] by (simp add: release_pending_unlock_def fun_upd_idem)
  then obtain s1 where s1: "process_rescues now c s = Some s1"
    using r by (auto simp: cpu_idle_iteration_def split: option.splits)
  then have ok1: "sched_ok s1" and none1: "current (CPU_QUEUES s1 c) = None"
    using ok none process_rescues_ok rescue_current by metis+
  show ?thesis
  proof (cases "queue (CPU_QUEUES s1 c)")
    case Nil
    then show ?thesis
      using r s1 ok1 \<open>release_pending_unlock c s = s\<close> by (simp add: cpu_idle_iteration_def)
  next
    case (Cons n q)
    obtain t where t: "THREADS s1 n = Some t" "home_cpu t = c" "runnable t"
      using head_thread [OF ok1 Cons] .
    have d: "distinct (held s1 c)"
      by (rule places_okD(1) [OF sched_okD(1) [OF ok1]])
    have e: "s' = switch_from_idle c n (set_current_kernel_stack c (kernel_stack_top t)
        (upd_queue c (\<lambda>_. \<lparr>current = Some n, queue = q, idle = False\<rparr>) s1))"
      using r s1 \<open>release_pending_unlock c s = s\<close> Cons t(1) by (simp add: cpu_idle_iteration_def)
    show ?thesis
    proof (rule cpu_step_ok [OF ok1 t(1,3,2)])
      show "THREADS s' = (THREADS s1)(n \<mapsto> t)"
        using t(1) by (simp add: e switch_from_idle_def fun_upd_idem)
      show "locks_ok s'"
        by (rule locks_ok_switched [OF sched_okD(3) [OF ok1]]) (simp_all add: e switch_from_idle_def)
      show "cpu_ok s' c"
        using t(1) by (simp add: e switch_from_idle_def cpu_ok_def kstack_of_def)
      show "distinct (held s' c)" "set (held s' c) = (if runnable t then set (held s1 c) else set (held s1 c) - {n})"
        using d none1 Cons t(3) by (simp_all add: e switch_from_idle_def held_def)
    qed (simp_all add: e switch_from_idle_def same_place_def)
  qed
qed

lemma locks_ok_release:
  assumes "locks_ok s" shows "locks_ok ((release_pending_unlock c s)\<lparr>SWITCHED := (SWITCHED s)(c := False)\<rparr>)"
proof (cases "PENDING_UNLOCK_BUCKET s c")
  case None
  then show ?thesis
    using assms unfolding locks_ok_def release_pending_unlock_def by (auto simp: fun_upd_idem)
next
  case (Some b)
  let ?s' = "(release_pending_unlock c s)\<lparr>SWITCHED := (SWITCHED s)(c := False)\<rparr>"
  have L: "FUTEX_LOCKS s x \<longleftrightarrow> (\<exists>d. PENDING_UNLOCK_BUCKET s d = Some x)"
      "PENDING_UNLOCK_BUCKET s d \<noteq> None \<Longrightarrow> SWITCHED s d"
      "PENDING_UNLOCK_BUCKET s d = Some x \<Longrightarrow> PENDING_UNLOCK_BUCKET s e = Some x \<Longrightarrow> d = e" for x d e
    using assms unfolding locks_ok_def by blast+
  have s': "FUTEX_LOCKS ?s' = (FUTEX_LOCKS s)(b := False)" "PENDING_UNLOCK_BUCKET ?s' = (PENDING_UNLOCK_BUCKET s)(c := None)"
      "SWITCHED ?s' = (SWITCHED s)(c := False)"
    using Some by (simp_all add: release_pending_unlock_def)
  have only: "d = c" if "PENDING_UNLOCK_BUCKET s d = Some b" for d
    using L(3) [OF that Some] .
  have "FUTEX_LOCKS ?s' x \<longleftrightarrow> (\<exists>d. PENDING_UNLOCK_BUCKET ?s' d = Some x)" for x
  proof (cases "x = b")
    case True
    then show ?thesis
      using only unfolding s' by auto
  next
    case False
    then have "PENDING_UNLOCK_BUCKET s d = Some x \<longleftrightarrow> d \<noteq> c \<and> PENDING_UNLOCK_BUCKET s d = Some x" for d
      using Some by auto
    with False L(1) [of x] show ?thesis
      unfolding s' by auto
  qed
  moreover have "SWITCHED ?s' d" if "PENDING_UNLOCK_BUCKET ?s' d \<noteq> None" for d
    using that L(2) [of d] unfolding s' by (auto split: if_splits)
  moreover have "d = e" if "PENDING_UNLOCK_BUCKET ?s' d = Some x" "PENDING_UNLOCK_BUCKET ?s' e = Some x" for d e x
    using that L(3) [of d x e] unfolding s' by (auto split: if_splits)
  ultimately show ?thesis
    unfolding locks_ok_def by blast
qed

lemma release_simps [simp]:
  "THREADS (release_pending_unlock c s) = THREADS s" "CPU_QUEUES (release_pending_unlock c s) = CPU_QUEUES s"
  "NUM_CPUS (release_pending_unlock c s) = NUM_CPUS s" "RUNS (release_pending_unlock c s) = RUNS s"
  "KSTACK (release_pending_unlock c s) = KSTACK s" "NEXT_TID (release_pending_unlock c s) = NEXT_TID s"
  "KSTACK_NEXT (release_pending_unlock c s) = KSTACK_NEXT s" "CONT (release_pending_unlock c s) = CONT s"
  "REGS (release_pending_unlock c s) = REGS s"
  by (simp_all add: release_pending_unlock_def Let_def split: option.split)

text \<open>Changing fields of a thread that say nothing about its place.\<close>

lemma upd_thread_ok:
  assumes ok: "sched_ok s" and f: "\<And>t. same_place t (f t) \<and> state (f t) = state t"
  shows "sched_ok (upd_thread i f s)"
proof (rule sched_okI)
  note P = places_okD [OF sched_okD(1) [OF ok]]
  have h: "held (upd_thread i f s) c = held s c" for c
    by (simp add: held_def)
  have r: "runnable (f t) = runnable t" "home_cpu (f t) = home_cpu t" "tid (f t) = tid t" for t
    using f by (simp_all add: runnable_def same_place_def)
  show "places_ok (upd_thread i f s)"
  proof (rule places_okI)
    show "distinct (held (upd_thread i f s) c)" for c
      using P(1) by (simp add: h)
    show "\<exists>t. THREADS (upd_thread i f s) j = Some t \<and> home_cpu t = c \<and> runnable t" if "j \<in> set (held (upd_thread i f s) c)" for c j
      using P(2) [of j c] that r by (auto simp: h)
    show "tid t = j \<and> home_cpu t < NUM_CPUS (upd_thread i f s)" if "THREADS (upd_thread i f s) j = Some t" for j t
      using P(3) [of j] that r by (auto split: if_splits)
    show "j \<in> set (held (upd_thread i f s) (home_cpu t))" if "THREADS (upd_thread i f s) j = Some t" "runnable t" for j t
      using P(4) [of j] that r by (auto simp: h split: if_splits)
  qed
  show "cpu_ok (upd_thread i f s) c" for c
    using sched_okD(2) [OF ok, of c] f by (cases "current (CPU_QUEUES s c)") (simp_all add: cpu_ok_def kstack_of_upd)
  show "locks_ok (upd_thread i f s)"
    using sched_okD(3) [OF ok] by (simp add: locks_ok_def)
  show "slots_ok (upd_thread i f s)"
    using slots_ok_upd [OF sched_okD(4) [OF ok]] f by blast
qed

lemma arrive_ok:
  assumes ok: "sched_ok s" shows "sched_ok (fst (arrive c s))"
proof -
  let ?s1 = "(release_pending_unlock c s)\<lparr>SWITCHED := (SWITCHED s)(c := False)\<rparr>"
  have ok1: "sched_ok ?s1"
  proof (rule sched_okI)
    show "places_ok ?s1"
      using sched_okD(1) [OF ok] by (simp add: places_ok_def held_def)
    show "cpu_ok ?s1 d" for d
      using sched_okD(2) [OF ok, of d] by (auto simp: cpu_ok_def kstack_of_def split: option.splits)
    show "locks_ok ?s1"
      by (rule locks_ok_release [OF sched_okD(3) [OF ok]])
    show "slots_ok ?s1"
      using sched_okD(4) [OF ok] by (simp add: slots_ok_def)
  qed
  have idle: "upd_queue c (\<lambda>q. q\<lparr>current := None, idle := True\<rparr>) ?s1 = ?s1" if "RUNS s c = In_Idle"
  proof -
    have "current (CPU_QUEUES s c) = None" "idle (CPU_QUEUES s c)"
      using sched_okD(2) [OF ok, of c] that by (auto simp: cpu_ok_def split: option.splits)
    then have "(CPU_QUEUES s c)\<lparr>current := None, idle := True\<rparr> = CPU_QUEUES s c"
      by simp
    then show ?thesis
      by (simp add: upd_queue_def fun_upd_idem)
  qed
  have fin: "sched_ok (upd_thread i (\<lambda>t. t\<lparr>wait_timed_out := False, wait_deadline_ns := 0\<rparr>) ?s1)" for i
    by (rule upd_thread_ok [OF ok1]) (simp add: same_place_def)
  show ?thesis
    unfolding arrive_def Let_def using ok1 idle fin
    by (simp split: executing.split continuation.split option.split)
qed

lemma kstack_slot_next: "1 \<le> i \<Longrightarrow> kstack_slot (i + 1) = kstack_slot i + KSTACK_STRIDE"
  by (cases i) (simp_all add: kstack_slot_def)

lemma pick_cpu_less: "(\<forall>c\<in>set cpus. c < n) \<Longrightarrow> best < n \<Longrightarrow> pick_cpu s cpus best len fi < n"
  by (induction cpus arbitrary: best len fi) (simp_all add: Let_def)

text \<open>The state \<open>spawn\<close> leaves when a slot of the table is free.\<close>

definition spawned_thread :: "nat \<Rightarrow> nat \<times> nat \<Rightarrow> bytes \<Rightarrow> nat \<Rightarrow> nat \<Rightarrow> nat \<Rightarrow> nat \<Rightarrow> nat \<Rightarrow> nat \<Rightarrow> thread" where
  "spawned_thread i regs fx fnp stack tlp child_tid ktop best =
     (new_thread i Ready \<lparr>rsp = ktop - 8, rbx = 0, rbp = 0, r12 = stack, r13 = tlp, r14 = child_tid, r15 = 0,
        fs_base = tlp, fxsave_area = fx\<rparr> ktop)\<lparr>user_stack := stack, fn_ptr := fnp, tls := tlp,
        child_tid_ptr := child_tid, clone_r9 := fst regs, clone_rip := snd regs, home_cpu := best\<rparr>"

definition spawn_cpu :: "sched \<Rightarrow> nat" where
  "spawn_cpu s = pick_cpu s [0..<NUM_CPUS s] 0 None False"

lemma pick_cpu_cong: "CPU_QUEUES s' = CPU_QUEUES s \<Longrightarrow> pick_cpu s' cpus best len fi = pick_cpu s cpus best len fi"
  by (induction cpus arbitrary: best len fi) (simp_all add: Let_def)

lemma spawn_eq:
  assumes "\<not> MAX_THREADS \<le> NEXT_TID s" "NEXT_TID s + 1 < 2 ^ 32"
    and s4: "s4 = upd_queue (spawn_cpu s) (\<lambda>q. q\<lparr>queue := queue q @ [NEXT_TID s]\<rparr>)
       (s\<lparr>NEXT_TID := NEXT_TID s + 1, KSTACK_NEXT := KSTACK_NEXT s + KSTACK_STRIDE,
          THREADS := (THREADS s)(NEXT_TID s \<mapsto> spawned_thread (NEXT_TID s) regs fx fnp stack tlp child_tid
             (KSTACK_NEXT s + GUARD_SIZE + KSTACK_USABLE) (spawn_cpu s)),
          CONT := (CONT s)(NEXT_TID s := Clone_Child)\<rparr>)"
  shows "snd (spawn c regs entry fx fnp stack tlp child_tid parent_tid flags m s) =
     (if idle (CPU_QUEUES s4 (spawn_cpu s)) \<and> spawn_cpu s \<noteq> c then send_ipi (spawn_cpu s) s4 else s4, NEXT_TID s)"
proof -
  have p: "pick_cpu (s\<lparr>NEXT_TID := a, KSTACK_NEXT := b\<rparr>) [0..<NUM_CPUS s] 0 None False = spawn_cpu s" for a b
    unfolding spawn_cpu_def by (rule pick_cpu_cong) simp
  show ?thesis
    using assms(1,2) unfolding s4 by (simp add: spawn_def Let_def p spawned_thread_def)
qed

lemma spawn_ok:
  assumes ok: "sched_ok s" and small: "NEXT_TID s + 1 < 2 ^ 32"
  shows "sched_ok (fst (snd (spawn c regs entry fx fnp stack tlp child_tid parent_tid flags m s)))" (is "sched_ok ?s'")
proof (cases "MAX_THREADS \<le> NEXT_TID s")
  case True
  then have e: "?s' = s\<lparr>NEXT_TID := NEXT_TID s + 1\<rparr>"
    using small by (simp add: spawn_def Let_def)
  show ?thesis
  proof (rule sched_okI)
    show "places_ok ?s'"
      using sched_okD(1) [OF ok] unfolding e by (simp add: places_ok_def held_def)
    show "cpu_ok ?s' d" for d
      using sched_okD(2) [OF ok, of d] unfolding e
      by (cases "current (CPU_QUEUES s d)") (simp_all add: cpu_ok_def kstack_of_def)
    show "locks_ok ?s'"
      using sched_okD(3) [OF ok] unfolding e by (simp add: locks_ok_def)
    show "slots_ok ?s'"
      using sched_okD(4) [OF ok] True unfolding e by (auto simp: slots_ok_def min_def)
  qed
next
  case False
  let ?i = "NEXT_TID s"
  have sl: "slots_ok s"
    by (rule sched_okD(4) [OF ok])
  have none: "THREADS s ?i = None" and top: "KSTACK_NEXT s = kstack_slot ?i"
    using sl False by (auto simp: slots_ok_def)
  define best where "best = spawn_cpu s"
  have best: "best < NUM_CPUS s"
    unfolding best_def spawn_cpu_def by (rule pick_cpu_less) (use sl in \<open>simp_all add: slots_ok_def\<close>)
  define t' where "t' = spawned_thread ?i regs fx fnp stack tlp child_tid (KSTACK_NEXT s + GUARD_SIZE + KSTACK_USABLE) best"
  note e = spawn_eq [where c = c and regs = regs and fx = fx and fnp = fnp and stack = stack and tlp = tlp and
      child_tid = child_tid and entry = entry and parent_tid = parent_tid and flags = flags and m = m,
      OF False small refl, folded best_def, folded t'_def]
  have t': "tid t' = ?i" "state t' = Ready" "home_cpu t' = best"
      "kernel_stack_top t' = KSTACK_NEXT s + GUARD_SIZE + KSTACK_USABLE"
    by (simp_all add: t'_def spawned_thread_def new_thread_def)
  have s': "THREADS ?s' = (THREADS s)(?i \<mapsto> t')"
      "CPU_QUEUES ?s' = (CPU_QUEUES s)(best := (CPU_QUEUES s best)\<lparr>queue := queue (CPU_QUEUES s best) @ [?i]\<rparr>)"
    unfolding e by simp_all
  have r: "NUM_CPUS ?s' = NUM_CPUS s" "RUNS ?s' = RUNS s" "SWITCHED ?s' = SWITCHED s" "KSTACK ?s' = KSTACK s"
      "FUTEX_LOCKS ?s' = FUTEX_LOCKS s" "PENDING_UNLOCK_BUCKET ?s' = PENDING_UNLOCK_BUCKET s"
      "NEXT_TID ?s' = ?i + 1" "KSTACK_NEXT ?s' = KSTACK_NEXT s + KSTACK_STRIDE"
    unfolding e by simp_all
  have ks: "kstack_of ?s' j = kstack_of s j" if "j \<noteq> ?i" for j
    using that by (simp add: kstack_of_def s')
  show ?thesis
  proof (rule sched_okI)
    have "?i \<notin> set (held s d)" for d
      using places_okD(2) [OF sched_okD(1) [OF ok], of ?i d] none by auto
    then show "places_ok ?s'"
      by (rule places_add [OF sched_okD(1) [OF ok], of _ t']) (use t' s' r best in \<open>simp_all add: runnable_def\<close>)
    show "cpu_ok ?s' d" for d
    proof -
      have q: "current (CPU_QUEUES ?s' d) = current (CPU_QUEUES s d)" "idle (CPU_QUEUES ?s' d) = idle (CPU_QUEUES s d)"
        by (simp_all add: s')
      have "kstack_of ?s' j = kstack_of s j" if cj: "current (CPU_QUEUES s d) = Some j" for j
      proof -
        obtain u where "THREADS s j = Some u"
          using current_thread [OF ok cj] .
        then show ?thesis
          by (intro ks) (use none in auto)
      qed
      then show ?thesis
        using sched_okD(2) [OF ok, of d] unfolding cpu_ok_def q r by (cases "current (CPU_QUEUES s d)") simp_all
    qed
    show "locks_ok ?s'"
      using sched_okD(3) [OF ok] by (simp add: locks_ok_def r)
    show "slots_ok ?s'"
      using sl False t'(4) top kstack_slot_next [of ?i] unfolding slots_ok_def r s'
      by (auto simp: less_Suc_eq min_def split: if_splits)
  qed
qed

section \<open>Steps and reachable states\<close>

lemma sched_init_ok: "1 \<le> n \<Longrightarrow> n \<le> MAX_CPUS \<Longrightarrow> sched_ok (sched_init n fx stack0 idle_rsp regs)"
  by (rule sched_okI)
     (auto simp: sched_init_def places_ok_def held_def runnable_def new_thread_def cpu_ok_def kstack_of_def locks_ok_def
       slots_ok_def kstack_slot_def MAX_THREADS_def split: if_splits)

text \<open>
  A step of the whole machine.  CPU \<open>c\<close> runs the code after a switch (\<open>arrive\<close>), performs an
  operation for the thread it executes, iterates its boot or idle loop, or takes a timer interrupt;
  user code writes to user memory.  \<open>process_rescues\<close> takes the locks anew for every thread, so its
  iterations are also steps of their own (\<open>rescue\<close>), and so is the rest of \<open>yield_current\<close>
  (\<open>yield_rest\<close>): steps of other CPUs may come between them.  Fewer than \<open>2 ^ 32\<close> threads are created.
\<close>

inductive sched_step :: "machine \<times> sched \<Rightarrow> machine \<times> sched \<Rightarrow> bool" where
  arrival: "c < NUM_CPUS s \<Longrightarrow> SWITCHED s c \<Longrightarrow> sched_step (m, s) (m, fst (arrive c s))"
| yield: "c < NUM_CPUS s \<Longrightarrow> RUNS s c = In_Thread i \<or> RUNS s c = In_Boot \<Longrightarrow> \<not> SWITCHED s c \<Longrightarrow>
    yield_current now c s = Some s' \<Longrightarrow> sched_step (m, s) (m, s')"
| wait: "c < NUM_CPUS s \<Longrightarrow> RUNS s c = In_Thread i \<Longrightarrow> \<not> SWITCHED s c \<Longrightarrow>
    futex_wait_until now c m addr val deadline s = Some (s', r) \<Longrightarrow> sched_step (m, s) (m, s')"
| wake: "c < NUM_CPUS s \<Longrightarrow> RUNS s c = In_Thread i \<Longrightarrow> \<not> SWITCHED s c \<Longrightarrow>
    futex_wake c addr count s = Some (s', n) \<Longrightarrow> sched_step (m, s) (m, s')"
| clone: "c < NUM_CPUS s \<Longrightarrow> RUNS s c = In_Thread i \<Longrightarrow> \<not> SWITCHED s c \<Longrightarrow> NEXT_TID s + 1 < 2 ^ 32 \<Longrightarrow>
    spawn c regs entry fx fnp stack tlp child_tid parent_tid flags m s = (m', s', n) \<Longrightarrow> sched_step (m, s) (m', s')"
| exit: "c < NUM_CPUS s \<Longrightarrow> RUNS s c = In_Thread i \<Longrightarrow> \<not> SWITCHED s c \<Longrightarrow> sched_step (m, s) (m, thread_exit c s)"
| resched: "c < NUM_CPUS s \<Longrightarrow> RUNS s c = In_Thread i \<Longrightarrow> \<not> SWITCHED s c \<Longrightarrow>
    check_resched now c s = Some s' \<Longrightarrow> sched_step (m, s) (m, s')"
| idling: "c < NUM_CPUS s \<Longrightarrow> RUNS s c = In_Idle \<Longrightarrow> \<not> SWITCHED s c \<Longrightarrow>
    cpu_idle_iteration now c s = Some s' \<Longrightarrow> sched_step (m, s) (m, s')"
| rescue: "c < NUM_CPUS s \<Longrightarrow> \<not> SWITCHED s c \<Longrightarrow> rescue_one now c i s = Some s' \<Longrightarrow> sched_step (m, s) (m, s')"
| yield_rest: "c < NUM_CPUS s \<Longrightarrow> RUNS s c = In_Thread i \<or> RUNS s c = In_Boot \<Longrightarrow> \<not> SWITCHED s c \<Longrightarrow>
    sched_step (m, s) (m, yield_locked c s)"
| tick: "sched_step (m, s) (m, timer_tick c s)"
| watchdog: "sched_step (m, s) (m, watchdog_wake now m s)"
| arm: "sched_step (m, s) (m, enable_blocking_futex s)"
| user_store: "user_only m m' \<Longrightarrow> sched_step (m, s) (m', s)"

inductive sched_reachable :: "machine \<times> sched \<Rightarrow> bool" where
  start: "1 \<le> n \<Longrightarrow> n \<le> MAX_CPUS \<Longrightarrow> sched_reachable (m, sched_init n fx stack0 idle_rsp regs)"
| step: "sched_reachable x \<Longrightarrow> sched_step x y \<Longrightarrow> sched_reachable y"

lemma running_current:
  assumes "sched_ok s" shows "RUNS s c = In_Thread i \<longleftrightarrow> current (CPU_QUEUES s c) = Some i"
  using sched_okD(2) [OF assms, of c] by (auto simp: cpu_ok_def split: option.splits)

lemma sched_step_ok: "sched_step x y \<Longrightarrow> sched_ok (snd x) \<Longrightarrow> sched_ok (snd y)"
proof (induction rule: sched_step.induct)
  case (exit c s i m)
  then show ?case
    using thread_exit_ok running_current by simp
next
  case (idling c s now s' m)
  then have "current (CPU_QUEUES s c) = None"
    using sched_okD(2) [of s c] by (auto simp: cpu_ok_def split: option.splits)
  with idling show ?case
    using cpu_idle_iteration_ok by simp
next
  case (clone c s i regs entry fx fnp stack tlp child_tid parent_tid flags m m' s' n)
  then show ?case
    using spawn_ok [of s c regs entry fx fnp stack tlp child_tid parent_tid flags m] by simp
next
  case (rescue c s now i s' m)
  show ?case
    using rescue_one_ok [OF _ rescue.hyps(3)] rescue.prems by simp
next
  case (tick m s c)
  then show ?case
    using sched_ok_cong [of "s\<lparr>NEED_RESCHED := (NEED_RESCHED s)(c := True)\<rparr>" s] by (simp add: timer_tick_def)
next
  case (watchdog m s now)
  then show ?case
    using sched_ok_cong [of "watchdog_wake now m s" s] by (simp add: watchdog_wake_def Let_def)
next
  case (arm m s)
  then show ?case
    using sched_ok_cong [of "enable_blocking_futex s" s] by (simp add: enable_blocking_futex_def)
qed (simp_all add: arrive_ok yield_current_ok futex_wait_ok futex_wake_ok check_resched_ok yield_locked_ok)

lemma sched_reachable_ok: "sched_reachable x \<Longrightarrow> sched_ok (snd x)"
  by (induction rule: sched_reachable.induct) (auto simp: sched_init_ok intro: sched_step_ok)

end
