(* ===== verification/Sched_Properties.thy ===== *)
theory Sched_Properties
  imports Sched_Invariant
begin

text \<open>
  The properties of the scheduler: where threads are, that no lock is held for ever, what a wake
  does, that timed waits end, and that registers survive a switch.
\<close>

section \<open>What the operations leave alone\<close>

lemma rescue_one_fields:
  assumes "rescue_one now c i s = Some s'"
  shows "SWITCHED s' = SWITCHED s" "NUM_CPUS s' = NUM_CPUS s" "RUNS s' = RUNS s" "REGS s' = REGS s" "CONT s' = CONT s"
    "FUTEX_LOCKS s' = FUTEX_LOCKS s" "IDLE_CTX s' = IDLE_CTX s" "map_option ctx (THREADS s' j) = map_option ctx (THREADS s j)"
  using assms by (auto simp: rescue_one_def Let_def send_ipi_def split: option.splits if_splits)

lemma process_rescues_fields:
  assumes "process_rescues now c s = Some s'"
  shows "SWITCHED s' = SWITCHED s" "NUM_CPUS s' = NUM_CPUS s" "RUNS s' = RUNS s" "REGS s' = REGS s" "CONT s' = CONT s"
    "FUTEX_LOCKS s' = FUTEX_LOCKS s" "IDLE_CTX s' = IDLE_CTX s" "map_option ctx (THREADS s' j) = map_option ctx (THREADS s j)"
proof -
  have "SWITCHED s' = SWITCHED s \<and> NUM_CPUS s' = NUM_CPUS s \<and> RUNS s' = RUNS s \<and> REGS s' = REGS s \<and> CONT s' = CONT s \<and>
      FUTEX_LOCKS s' = FUTEX_LOCKS s \<and> IDLE_CTX s' = IDLE_CTX s \<and> map_option ctx (THREADS s' j) = map_option ctx (THREADS s j)"
    if "rescue_list now c is s = Some s'" for "is"
    using that
  proof (induction "is" arbitrary: s)
    case (Cons i "is")
    then obtain s1 where s1: "rescue_one now c i s = Some s1" "rescue_list now c is s1 = Some s'"
      by (auto split: option.splits)
    show ?case
      using Cons.IH [OF s1(2)] rescue_one_fields [OF s1(1)] by simp
  qed simp
  then show "SWITCHED s' = SWITCHED s" "NUM_CPUS s' = NUM_CPUS s" "RUNS s' = RUNS s" "REGS s' = REGS s" "CONT s' = CONT s"
    "FUTEX_LOCKS s' = FUTEX_LOCKS s" "IDLE_CTX s' = IDLE_CTX s" "map_option ctx (THREADS s' j) = map_option ctx (THREADS s j)"
    using assms by (auto simp: process_rescues_def)
qed

lemma wake_list_fields:
  "SWITCHED (fst (wake_list c addr count is woken s)) = SWITCHED s"
  "NUM_CPUS (fst (wake_list c addr count is woken s)) = NUM_CPUS s"
  "RUNS (fst (wake_list c addr count is woken s)) = RUNS s" "REGS (fst (wake_list c addr count is woken s)) = REGS s"
  "map_option ctx (THREADS (fst (wake_list c addr count is woken s)) j) = map_option ctx (THREADS s j)"
  by (induction "is" arbitrary: s woken)
     (simp_all add: enqueue_def Let_def send_ipi_def split: option.split)

section \<open>What a wake does\<close>

definition waits_on :: "sched \<Rightarrow> nat \<Rightarrow> nat \<Rightarrow> bool" where
  "waits_on s addr i = (case THREADS s i of Some t \<Rightarrow> state t = Blocked \<and> futex_addr t = addr | None \<Rightarrow> False)"

text \<open>The threads blocked on an address, in the order of the table.\<close>

definition waiters :: "sched \<Rightarrow> nat \<Rightarrow> nat list" where
  "waiters s addr = filter (waits_on s addr) [0..<MAX_THREADS]"

definition woken_thread :: "thread \<Rightarrow> thread" where
  "woken_thread t = t\<lparr>state := Ready, futex_addr := 0, blocked_since_ns := 0, in_idle_ctx := False\<rparr>"

definition homed :: "sched \<Rightarrow> nat \<Rightarrow> nat list \<Rightarrow> nat list" where
  "homed s d is = filter (\<lambda>i. home_cpu (the (THREADS s i)) = d) is"

lemma homed_Cons: "homed s d (i # is) = (if home_cpu (the (THREADS s i)) = d then i # homed s d is else homed s d is)"
  by (simp add: homed_def)

lemma wake_list_spec:
  assumes "distinct is" "\<And>i t. THREADS s i = Some t \<Longrightarrow> tid t = i"
    and ws: "ws = take (count - woken) (filter (waits_on s addr) is)"
    and r: "wake_list c addr count is woken s = (s', n)"
  shows "n = woken + length ws \<and> PENDING_WAKES s' = PENDING_WAKES s \<and>
    THREADS s' = (\<lambda>i. if i \<in> set ws then map_option woken_thread (THREADS s i) else THREADS s i) \<and>
    (\<forall>d. CPU_QUEUES s' d = (CPU_QUEUES s d)\<lparr>queue := queue (CPU_QUEUES s d) @ homed s d ws\<rparr>)"
  using assms
proof (induction "is" arbitrary: s woken ws)
  case Nil
  then show ?case
    by (simp add: homed_def)
next
  case (Cons i "is")
  show ?case
  proof (cases "woken < count \<and> waits_on s addr i")
    case False
    then show ?thesis
    proof (cases "count \<le> woken")
      case True
      then show ?thesis
        using Cons.prems by (simp add: homed_def)
    next
      case lt: False
      with False have nw: "\<not> waits_on s addr i"
        by simp
      then have "wake_list c addr count is woken s = (s', n)"
        using Cons.prems(4) lt by (auto simp: waits_on_def split: option.splits if_splits)
      then show ?thesis
        using Cons.IH [of s ws woken] Cons.prems nw by simp
    qed
  next
    case True
    then obtain t where t: "THREADS s i = Some t" "state t = Blocked" "futex_addr t = addr" "woken < count"
      by (auto simp: waits_on_def split: option.splits)
    define s1 where "s1 = enqueue c (home_cpu t) i (upd_thread i woken_thread s)"
    have s1: "THREADS s1 = (THREADS s)(i \<mapsto> woken_thread t)" "PENDING_WAKES s1 = PENDING_WAKES s"
        "CPU_QUEUES s1 = (CPU_QUEUES s)(home_cpu t := (CPU_QUEUES s (home_cpu t))\<lparr>queue := queue (CPU_QUEUES s (home_cpu t)) @ [i]\<rparr>)"
      using t(1) by (simp_all add: s1_def enqueue_def Let_def)
    have run: "wake_list c addr count is (woken + 1) s1 = (s', n)"
      using Cons.prems(4) t Cons.prems(2) [OF t(1)] by (simp add: s1_def woken_thread_def [abs_def])
    have same: "waits_on s1 addr j = waits_on s addr j" if "j \<noteq> i" for j
      using that by (simp add: waits_on_def s1)
    define ws1 where "ws1 = take (count - (woken + 1)) (filter (waits_on s addr) is)"
    have f1: "filter (waits_on s1 addr) is = filter (waits_on s addr) is"
      by (intro filter_cong refl same) (use Cons.prems(1) in auto)
    have ws: "ws = i # ws1"
      using Cons.prems(3) True t(4) by (simp add: ws1_def take_Cons' Suc_diff_Suc)
    have ni: "i \<notin> set ws1"
      using Cons.prems(1) by (auto simp: ws1_def dest: in_set_takeD)
    have tids: "THREADS s1 j = Some u \<Longrightarrow> tid u = j" for j u
      using Cons.prems(2) t(1) by (auto simp: s1 woken_thread_def split: if_splits)
    have IH: "n = woken + 1 + length ws1 \<and> PENDING_WAKES s' = PENDING_WAKES s1 \<and>
        THREADS s' = (\<lambda>i. if i \<in> set ws1 then map_option woken_thread (THREADS s1 i) else THREADS s1 i) \<and>
        (\<forall>d. CPU_QUEUES s' d = (CPU_QUEUES s1 d)\<lparr>queue := queue (CPU_QUEUES s1 d) @ homed s1 d ws1\<rparr>)"
      by (rule Cons.IH [OF _ tids _ run]) (use Cons.prems(1) f1 in \<open>simp_all add: ws1_def\<close>)
    have hm: "homed s1 d ws1 = homed s d ws1" for d
      using ni by (auto simp: homed_def s1 intro: filter_cong)
    show ?thesis
    proof (intro conjI allI)
      show "n = woken + length ws"
        using IH ws by simp
      show "PENDING_WAKES s' = PENDING_WAKES s"
        using IH s1 by simp
      show "THREADS s' = (\<lambda>i. if i \<in> set ws then map_option woken_thread (THREADS s i) else THREADS s i)"
        using IH ni t(1) by (auto simp: ws s1 fun_eq_iff)
      show "CPU_QUEUES s' d = (CPU_QUEUES s d)\<lparr>queue := queue (CPU_QUEUES s d) @ homed s d ws\<rparr>" for d
        using IH t(1) by (simp add: hm s1(3) ws homed_Cons)
    qed
  qed
qed

lemma pending_insert_consume:
  assumes "addr \<in> set addrs \<or> 0 \<in> set addrs"
  shows "snd (pending_wake_consume addr (pending_wake_insert addr addrs))"
proof -
  have "addr \<in> set (pending_wake_insert addr addrs)"
  proof (cases "addr \<in> set addrs")
    case False
    then obtain i where i: "position (\<lambda>x. x = 0) addrs = Some i"
      using assms by (cases "position (\<lambda>x. x = 0) addrs") (auto simp: position_None_iff)
    then show ?thesis
      using False position_less [OF i] by (simp add: pending_wake_insert_def set_update_memI)
  qed (simp add: pending_wake_insert_def)
  then show ?thesis
    by (auto simp: pending_wake_consume_def position_None_iff split: option.split)
qed

section \<open>Held locks\<close>

text \<open>Only the CPUs in use have switched.\<close>

lemma yield_locked_switched: "SWITCHED (yield_locked c s) d \<Longrightarrow> d = c \<or> SWITCHED s d"
  by (auto simp: yield_locked_def Let_def switch_defs split: option.splits list.splits if_splits)

lemma yield_current_switched: "yield_current now c s = Some s' \<Longrightarrow> SWITCHED s' d \<Longrightarrow> d = c \<or> SWITCHED s d"
  using yield_locked_switched process_rescues_fields(1) by (fastforce simp: yield_current_def)

lemma yield_locked_cpus [simp]: "NUM_CPUS (yield_locked c s) = NUM_CPUS s"
  by (simp add: yield_locked_def Let_def switch_defs split: option.split list.split)

lemma yield_current_cpus: "yield_current now c s = Some s' \<Longrightarrow> NUM_CPUS s' = NUM_CPUS s"
  using process_rescues_fields(2) by (fastforce simp: yield_current_def)

lemma block_current_switched:
  "SWITCHED (block_current now c addr val deadline cur s) d \<Longrightarrow> d = c \<or> SWITCHED s d"
  "NUM_CPUS (block_current now c addr val deadline cur s) = NUM_CPUS s"
  by (auto simp: block_current_def Let_def switch_defs split: list.splits if_splits)

lemma futex_wait_switched:
  assumes "futex_wait_until now c m addr val deadline s = Some (s', r)"
  shows "SWITCHED s' d \<Longrightarrow> d = c \<or> SWITCHED s d" "NUM_CPUS s' = NUM_CPUS s"
proof -
  have "(SWITCHED s' d \<longrightarrow> d = c \<or> SWITCHED s d) \<and> NUM_CPUS s' = NUM_CPUS s"
  proof (cases "NEXT_TID s \<le> 1")
    case True
    then show ?thesis
      using assms by (auto simp: futex_wait_until_def dest: yield_current_switched yield_current_cpus)
  next
    case False
    then have free: "\<not> FUTEX_LOCKS s (futex_bucket addr)"
      using assms by (auto simp: futex_wait_until_def Let_def split: if_splits)
    have "1 < NEXT_TID s"
      using False by simp
    note w = assms [unfolded futex_wait_unlocked [OF this free]]
    show ?thesis
      using w by (auto split: if_splits sum.splits option.splits dest: yield_current_switched yield_current_cpus
          block_current_switched(1) simp: block_current_switched(2))
  qed
  then show "SWITCHED s' d \<Longrightarrow> d = c \<or> SWITCHED s d" "NUM_CPUS s' = NUM_CPUS s"
    by blast+
qed

lemma check_resched_switched:
  assumes "check_resched now c s = Some s'"
  shows "SWITCHED s' d \<Longrightarrow> d = c \<or> SWITCHED s d" "NUM_CPUS s' = NUM_CPUS s"
proof -
  obtain s1 where s1: "process_rescues now c s = Some s1"
    using assms by (auto simp: check_resched_def split: option.splits)
  show "SWITCHED s' d \<Longrightarrow> d = c \<or> SWITCHED s d" "NUM_CPUS s' = NUM_CPUS s"
    using assms process_rescues_fields(1,2) [OF s1]
    by (auto simp: check_resched_def s1 dest: yield_current_switched yield_current_cpus split: if_splits)
qed

lemma idle_switched:
  assumes "cpu_idle_iteration now c s = Some s'"
  shows "SWITCHED s' d \<Longrightarrow> d = c \<or> SWITCHED s d" "NUM_CPUS s' = NUM_CPUS s"
proof -
  obtain s1 where s1: "process_rescues now c (release_pending_unlock c s) = Some s1"
    using assms by (auto simp: cpu_idle_iteration_def split: option.splits)
  have "SWITCHED (release_pending_unlock c s) = SWITCHED s"
    by (simp add: release_pending_unlock_def Let_def split: option.split)
  then show "SWITCHED s' d \<Longrightarrow> d = c \<or> SWITCHED s d" "NUM_CPUS s' = NUM_CPUS s"
    using assms process_rescues_fields(1,2) [OF s1]
    by (auto simp: cpu_idle_iteration_def s1 Let_def switch_defs split: list.splits option.splits if_splits)
qed

lemma spawn_switched:
  "SWITCHED (fst (snd (spawn c regs entry fx fnp stack tlp child_tid parent_tid flags m s))) = SWITCHED s"
  "NUM_CPUS (fst (snd (spawn c regs entry fx fnp stack tlp child_tid parent_tid flags m s))) = NUM_CPUS s"
  "RUNS (fst (snd (spawn c regs entry fx fnp stack tlp child_tid parent_tid flags m s))) = RUNS s"
  "REGS (fst (snd (spawn c regs entry fx fnp stack tlp child_tid parent_tid flags m s))) = REGS s"
  by (simp_all add: spawn_def Let_def send_ipi_def upd_queue_def)

lemma arrive_fields:
  "SWITCHED (fst (arrive c s)) = (SWITCHED s)(c := False)" "NUM_CPUS (fst (arrive c s)) = NUM_CPUS s"
  "RUNS (fst (arrive c s)) = RUNS s" "REGS (fst (arrive c s)) = REGS s"
  "map_option ctx (THREADS (fst (arrive c s)) j) = map_option ctx (THREADS s j)"
  "PENDING_UNLOCK_BUCKET (fst (arrive c s)) = (PENDING_UNLOCK_BUCKET s)(c := None)"
  unfolding arrive_def Let_def
  by (auto simp: release_pending_unlock_def Let_def upd_queue_def upd_thread_def
      split: executing.split continuation.split option.split)

lemma thread_exit_fields:
  "SWITCHED (thread_exit c s) = (SWITCHED s)(c := True)" "NUM_CPUS (thread_exit c s) = NUM_CPUS s"
  by (auto simp: thread_exit_def Let_def switch_to_idle_def split: option.split)

lemma futex_wake_fields:
  assumes "futex_wake c addr count s = Some (s', n)"
  shows "SWITCHED s' = SWITCHED s" "NUM_CPUS s' = NUM_CPUS s" "RUNS s' = RUNS s" "REGS s' = REGS s"
    "map_option ctx (THREADS s' j) = map_option ctx (THREADS s j)"
proof -
  obtain x where "s' = fst (wake_list c addr count [0..<MAX_THREADS] 0 s) \<or>
      s' = (fst (wake_list c addr count [0..<MAX_THREADS] 0 s))\<lparr>PENDING_WAKES := x\<rparr>"
    using assms by (auto simp: futex_wake_def Let_def split_beta split: if_splits)
  then show "SWITCHED s' = SWITCHED s" "NUM_CPUS s' = NUM_CPUS s" "RUNS s' = RUNS s" "REGS s' = REGS s"
      "map_option ctx (THREADS s' j) = map_option ctx (THREADS s j)"
    by (auto simp: wake_list_fields)
qed

lemma switched_bound: "sched_reachable x \<Longrightarrow> SWITCHED (snd x) d \<Longrightarrow> d < NUM_CPUS (snd x)"
proof (induction arbitrary: d rule: sched_reachable.induct)
  case (start n m fx stack0 idle_rsp regs)
  then show ?case
    by (simp add: sched_init_def)
next
  case (step x y)
  from step.hyps(2) have "(SWITCHED (snd y) d \<longrightarrow> SWITCHED (snd x) d \<or> d < NUM_CPUS (snd x)) \<and> NUM_CPUS (snd y) = NUM_CPUS (snd x)"
  proof cases
    case (clone c s i regs entry fx fnp stack tlp child_tid parent_tid flags m m' s' n)
    then show ?thesis
      using spawn_switched(1,2) [of c regs entry fx fnp stack tlp child_tid parent_tid flags m s] by simp
  qed (auto simp: arrive_fields thread_exit_fields timer_tick_def watchdog_wake_def enable_blocking_futex_def Let_def
       futex_wake_fields rescue_one_fields dest: yield_locked_switched yield_current_switched yield_current_cpus futex_wait_switched check_resched_switched
       idle_switched split: if_splits)
  with step.IH step.prems show ?case
    by auto
qed

text \<open>The CPUs that have switched run the code after the switch, one after the other.\<close>

definition arrive_all :: "nat list \<Rightarrow> sched \<Rightarrow> sched" where
  "arrive_all cs s = fold (\<lambda>c s. if SWITCHED s c then fst (arrive c s) else s) cs s"

lemma arrive_all_ok:
  "sched_ok s \<Longrightarrow> (\<forall>c\<in>set cs. c < NUM_CPUS s) \<Longrightarrow>
   sched_ok (arrive_all cs s) \<and> NUM_CPUS (arrive_all cs s) = NUM_CPUS s \<and> sched_step\<^sup>*\<^sup>* (m, s) (m, arrive_all cs s) \<and>
   (\<forall>d. SWITCHED (arrive_all cs s) d \<longrightarrow> SWITCHED s d \<and> d \<notin> set cs)"
proof (induction cs arbitrary: s)
  case Nil
  then show ?case
    by (simp add: arrive_all_def)
next
  case (Cons c cs)
  define s1 where "s1 = (if SWITCHED s c then fst (arrive c s) else s)"
  have s1: "sched_ok s1" "NUM_CPUS s1 = NUM_CPUS s" "\<And>d. SWITCHED s1 d \<Longrightarrow> SWITCHED s d \<and> d \<noteq> c"
    using Cons.prems(1) by (auto simp: s1_def arrive_ok arrive_fields split: if_splits)
  have step: "sched_step\<^sup>*\<^sup>* (m, s) (m, s1)"
    using Cons.prems(2) by (auto simp: s1_def intro: sched_step.arrival)
  have all: "arrive_all (c # cs) s = arrive_all cs s1"
    by (simp add: arrive_all_def s1_def)
  have "\<forall>d\<in>set cs. d < NUM_CPUS s1"
    using Cons.prems(2) s1(2) by simp
  note IH = Cons.IH [OF s1(1) this]
  have "sched_step\<^sup>*\<^sup>* (m, s) (m, arrive_all cs s1)"
    using step IH by (metis rtranclp_trans)
  moreover have "\<forall>d. SWITCHED (arrive_all cs s1) d \<longrightarrow> SWITCHED s d \<and> d \<notin> set (c # cs)"
    using IH s1(3) by simp
  ultimately show ?case
    unfolding all using IH s1(2) by simp
qed

lemma rescue_one_enabled: "(\<forall>b. \<not> FUTEX_LOCKS s b) \<Longrightarrow> rescue_one now c i s \<noteq> None"
  by (auto simp: rescue_one_def Let_def split: option.splits)

lemma rescue_enabled: "(\<forall>b. \<not> FUTEX_LOCKS s b) \<Longrightarrow> \<exists>s'. process_rescues now c s = Some s'"
proof -
  have "(\<forall>b. \<not> FUTEX_LOCKS s b) \<Longrightarrow> \<exists>s'. rescue_list now c is s = Some s'" for "is"
  proof (induction "is" arbitrary: s)
    case (Cons i "is")
    then obtain s1 where s1: "rescue_one now c i s = Some s1"
      using rescue_one_enabled [of s now c i] by auto
    with Cons.IH [of s1] Cons.prems rescue_one_fields(6) [OF s1] show ?case
      by simp
  qed simp
  then show "(\<forall>b. \<not> FUTEX_LOCKS s b) \<Longrightarrow> ?thesis"
    by (simp add: process_rescues_def)
qed

lemma yield_enabled: "(\<forall>b. \<not> FUTEX_LOCKS s b) \<Longrightarrow> \<exists>s'. yield_current now c s = Some s'"
  using rescue_enabled [of s now c] by (auto simp: yield_current_def)

lemma wait_enabled: "(\<forall>b. \<not> FUTEX_LOCKS s b) \<Longrightarrow> \<exists>r. futex_wait_until now c m addr val deadline s = Some r"
proof (cases "NEXT_TID s \<le> 1")
  case True
  assume "\<forall>b. \<not> FUTEX_LOCKS s b"
  then show ?thesis
    using True yield_enabled [of s now c] by (auto simp: futex_wait_until_def)
next
  case False
  assume free: "\<forall>b. \<not> FUTEX_LOCKS s b"
  let ?s1 = "s\<lparr>FIRST_SPINYIELD_NS := (if FIRST_SPINYIELD_NS s = 0 then now else FIRST_SPINYIELD_NS s)\<rparr>"
  obtain s' where y: "yield_current now c ?s1 = Some s'"
    using yield_enabled [of ?s1 now c] free by auto
  have n: "1 < NEXT_TID s" "\<not> FUTEX_LOCKS s (futex_bucket addr)"
    using False free by simp_all
  show ?thesis
    unfolding futex_wait_unlocked [OF n] y by (simp split: sum.split option.split)
qed

section \<open>Registers across switches\<close>

text \<open>
  One step keeps the saved context of every thread that is not executing, loads it when the thread
  is switched to, and saves the registers of a thread that is switched away from.
\<close>

definition contexts_kept :: "sched \<Rightarrow> sched \<Rightarrow> bool" where
  "contexts_kept s s' \<longleftrightarrow>
     (\<forall>i t. THREADS s i = Some t \<longrightarrow> (\<exists>t'. THREADS s' i = Some t' \<and>
        ((\<forall>c. RUNS s c \<noteq> In_Thread i) \<longrightarrow> ctx t' = ctx t \<and> (\<forall>c. RUNS s' c = In_Thread i \<longrightarrow> REGS s' c = ctx t)) \<and>
        (\<forall>c. RUNS s c = In_Thread i \<longrightarrow>
           (RUNS s' c = In_Thread i \<and> REGS s' c = REGS s c) \<or> (RUNS s' c \<noteq> In_Thread i \<and> ctx t' = REGS s c))))"

lemma contexts_kept_same:
  assumes "RUNS s' = RUNS s" "REGS s' = REGS s" "\<And>i. map_option ctx (THREADS s' i) = map_option ctx (THREADS s i)"
  shows "contexts_kept s s'"
proof -
  have "\<exists>t'. THREADS s' i = Some t' \<and> ctx t' = ctx t" if "THREADS s i = Some t" for i t
    using assms(3) [of i] that by auto
  then show ?thesis
    unfolding contexts_kept_def assms(1,2) by metis
qed

lemma contexts_kept_refine:
  assumes "RUNS s1 = RUNS s" "REGS s1 = REGS s" "\<And>i. map_option ctx (THREADS s1 i) = map_option ctx (THREADS s i)"
    and "contexts_kept s1 s'"
  shows "contexts_kept s s'"
proof -
  have e: "\<exists>u. THREADS s1 i = Some u \<and> ctx u = ctx t" if "THREADS s i = Some t" for i t
    using assms(3) [of i] that by auto
  show ?thesis
    unfolding contexts_kept_def
  proof (intro allI impI)
    fix i t assume "THREADS s i = Some t"
    then obtain u where u: "THREADS s1 i = Some u" "ctx u = ctx t"
      using e by blast
    then show "\<exists>t'. THREADS s' i = Some t' \<and>
        ((\<forall>c. RUNS s c \<noteq> In_Thread i) \<longrightarrow> ctx t' = ctx t \<and> (\<forall>c. RUNS s' c = In_Thread i \<longrightarrow> REGS s' c = ctx t)) \<and>
        (\<forall>c. RUNS s c = In_Thread i \<longrightarrow>
           (RUNS s' c = In_Thread i \<and> REGS s' c = REGS s c) \<or> (RUNS s' c \<noteq> In_Thread i \<and> ctx t' = REGS s c))"
      using assms(4) unfolding contexts_kept_def assms(1,2) by (metis (no_types, lifting))
  qed
qed

text \<open>A switch on CPU \<open>c\<close>, from a thread or from a loop, to a thread that is not executing.\<close>

lemma contexts_kept_switch:
  assumes to: "\<And>n. RUNS s' c = In_Thread n \<Longrightarrow> (\<forall>d. RUNS s d \<noteq> In_Thread n) \<and> REGS s' c = ctx (the (THREADS s n))"
    and other: "\<And>d. d \<noteq> c \<Longrightarrow> RUNS s' d = RUNS s d \<and> REGS s' d = REGS s d"
    and thr: "\<And>i t. THREADS s i = Some t \<Longrightarrow> \<exists>t'. THREADS s' i = Some t' \<and>
        (if RUNS s c = In_Thread i then ctx t' = REGS s c else ctx t' = ctx t)"
  shows "contexts_kept s s'"
  unfolding contexts_kept_def
proof (intro allI impI)
  fix i t assume t: "THREADS s i = Some t"
  obtain t' where t': "THREADS s' i = Some t'" "if RUNS s c = In_Thread i then ctx t' = REGS s c else ctx t' = ctx t"
    using thr [OF t] by blast
  have "(\<forall>d. RUNS s d \<noteq> In_Thread i) \<longrightarrow> ctx t' = ctx t \<and> (\<forall>d. RUNS s' d = In_Thread i \<longrightarrow> REGS s' d = ctx t)"
  proof
    assume n: "\<forall>d. RUNS s d \<noteq> In_Thread i"
    have "REGS s' d = ctx t" if "RUNS s' d = In_Thread i" for d
      using that other [of d] n to [of i] t by (cases "d = c") auto
    with n t'(2) show "ctx t' = ctx t \<and> (\<forall>d. RUNS s' d = In_Thread i \<longrightarrow> REGS s' d = ctx t)"
      by auto
  qed
  moreover have "(RUNS s' d = In_Thread i \<and> REGS s' d = REGS s d) \<or> (RUNS s' d \<noteq> In_Thread i \<and> ctx t' = REGS s d)"
    if "RUNS s d = In_Thread i" for d
    using that other [of d] to [of i] t'(2) by (cases "d = c") auto
  ultimately show "\<exists>t'. THREADS s' i = Some t' \<and>
      ((\<forall>c. RUNS s c \<noteq> In_Thread i) \<longrightarrow> ctx t' = ctx t \<and> (\<forall>c. RUNS s' c = In_Thread i \<longrightarrow> REGS s' c = ctx t)) \<and>
      (\<forall>c. RUNS s c = In_Thread i \<longrightarrow>
         (RUNS s' c = In_Thread i \<and> REGS s' c = REGS s c) \<or> (RUNS s' c \<noteq> In_Thread i \<and> ctx t' = REGS s c))"
    using t'(1) by blast
qed

text \<open>No thread executes on two CPUs, and a queued thread executes on none.\<close>

lemma held_unique:
  assumes "sched_ok s" "i \<in> set (held s c)" "i \<in> set (held s d)" shows "c = d"
proof -
  obtain t u where "THREADS s i = Some t" "home_cpu t = c" "THREADS s i = Some u" "home_cpu u = d"
    using places_okD(2) [OF sched_okD(1) [OF assms(1)]] assms(2,3) by metis
  then show ?thesis
    by simp
qed

lemma runs_unique:
  assumes "sched_ok s" "RUNS s c = In_Thread i" "RUNS s d = In_Thread i" shows "c = d"
  by (rule held_unique [OF assms(1), of i]) (use assms in \<open>simp_all add: running_current held_def\<close>)

lemma queued_not_running: 
  assumes ok: "sched_ok s" and q: "i \<in> set (queue (CPU_QUEUES s c))" shows "RUNS s d \<noteq> In_Thread i"
proof
  assume "RUNS s d = In_Thread i"
  then have cur: "current (CPU_QUEUES s d) = Some i"
    using running_current [OF ok] by simp
  then have "c = d"
    by (intro held_unique [OF ok, of i]) (use q in \<open>simp_all add: held_def\<close>)
  with cur q show False
    using places_okD(1) [OF sched_okD(1) [OF ok], of c] by (simp add: held_def)
qed

lemma yield_contexts:
  assumes ok: "sched_ok s" shows "contexts_kept s (yield_locked c s)"
proof (cases "queue (CPU_QUEUES s c)")
  case Nil
  then show ?thesis
    by (intro contexts_kept_same) (simp_all add: yield_locked_def split: option.split)
next
  case (Cons n q)
  obtain t where t: "THREADS s n = Some t"
    using head_thread [OF ok Cons] .
  have nr: "RUNS s d \<noteq> In_Thread n" for d
    by (rule queued_not_running [OF ok, of _ c]) (use Cons in simp)
  show ?thesis
  proof (cases "current (CPU_QUEUES s c)")
    case None
    then have "RUNS s c \<noteq> In_Thread i" for i
      using running_current [OF ok] by simp
    then show ?thesis
      by (intro contexts_kept_switch [where c = c]) (use None Cons t nr in \<open>auto simp: yield_locked_def jump_to_thread_def\<close>)
  next
    case (Some cur)
    then have r: "RUNS s c = In_Thread cur"
      using running_current [OF ok] by simp
    obtain u where u: "THREADS s cur = Some u"
      using current_thread [OF ok Some] .
    have "n \<noteq> cur"
      using nr r by auto
    with r show ?thesis
      by (intro contexts_kept_switch [where c = c])
         (use Some Cons t u nr in \<open>auto simp: yield_locked_def switch_threads_def Let_def\<close>)
  qed
qed

lemma block_contexts:
  assumes ok: "sched_ok s" and cur: "current (CPU_QUEUES s c) = Some cur"
    and s0: "s0 = s\<lparr>FUTEX_LOCKS := x\<rparr>"
  shows "contexts_kept s (block_current now c addr val deadline cur s0)"
proof -
  have r: "RUNS s c = In_Thread cur"
    using running_current [OF ok] cur by simp
  obtain u where u: "THREADS s cur = Some u"
    using current_thread [OF ok cur] .
  show ?thesis
  proof (cases "queue (CPU_QUEUES s c)")
    case Nil
    then show ?thesis
      by (intro contexts_kept_switch [where c = c])
         (use r u in \<open>auto simp: block_current_def switch_to_idle_def Let_def s0\<close>)
  next
    case (Cons n q)
    obtain t where t: "THREADS s n = Some t"
      using head_thread [OF ok Cons] .
    have nr: "RUNS s d \<noteq> In_Thread n" for d
      by (rule queued_not_running [OF ok, of _ c]) (use Cons in simp)
    then have "n \<noteq> cur"
      using r by auto
    with r show ?thesis
      by (intro contexts_kept_switch [where c = c])
         (use Cons t u nr in \<open>auto simp: block_current_def switch_threads_def Let_def s0\<close>)
  qed
qed

lemma yield_current_contexts:
  assumes "sched_ok s" "yield_current now c s = Some s'" shows "contexts_kept s s'"
proof -
  obtain s1 where s1: "process_rescues now c s = Some s1" "s' = yield_locked c s1"
    using assms(2) by (auto simp: yield_current_def)
  show ?thesis
    by (rule contexts_kept_refine [OF process_rescues_fields(3,4,8) [OF s1(1)]])
       (use s1 yield_contexts process_rescues_ok assms(1) in blast)
qed

lemma wait_contexts:
  assumes ok: "sched_ok s" and w: "futex_wait_until now c m addr val deadline s = Some (s', r)"
  shows "contexts_kept s s'"
proof (cases "NEXT_TID s \<le> 1")
  case True
  with w ok show ?thesis
    by (auto simp: futex_wait_until_def yield_current_contexts)
next
  case False
  have free: "\<not> FUTEX_LOCKS s (futex_bucket addr)"
    using w False by (auto simp: futex_wait_until_def Let_def split: if_splits)
  have yc: "contexts_kept s s'" if "yield_current now c (s\<lparr>FIRST_SPINYIELD_NS := y\<rparr>) = Some s'" for y
    by (rule contexts_kept_refine [of "s\<lparr>FIRST_SPINYIELD_NS := y\<rparr>"])
       (use that ok sched_ok_cong [of "s\<lparr>FIRST_SPINYIELD_NS := y\<rparr>" s] yield_current_contexts in auto)
  have same: "contexts_kept s s" "contexts_kept s (s\<lparr>PENDING_WAKES := x\<rparr>)" for x
    by (rule contexts_kept_same; simp)+
  have "1 < NEXT_TID s"
    using False by simp
  note w' = w [unfolded futex_wait_unlocked [OF this free]]
  show ?thesis
    using w' yc yield_current_contexts [OF ok] same block_contexts [OF ok _ refl]
    by (auto split: if_splits sum.splits option.splits)
qed

lemma exit_contexts:
  assumes ok: "sched_ok s" and r: "RUNS s c = In_Thread i" shows "contexts_kept s (thread_exit c s)"
proof -
  have cur: "current (CPU_QUEUES s c) = Some i"
    using running_current [OF ok] r by simp
  obtain u where u: "THREADS s i = Some u"
    using current_thread [OF ok cur] .
  show ?thesis
    by (intro contexts_kept_switch [where c = c])
       (use r cur u in \<open>auto simp: thread_exit_def switch_to_idle_def Let_def\<close>)
qed

lemma idle_contexts:
  assumes ok: "sched_ok s" and ns: "\<not> SWITCHED s c" and none: "RUNS s c = In_Idle"
    and e: "cpu_idle_iteration now c s = Some s'"
  shows "contexts_kept s s'"
proof -
  have rel: "release_pending_unlock c s = s"
    using not_pending [OF ok ns] by (simp add: release_pending_unlock_def fun_upd_idem)
  obtain s1 where s1: "process_rescues now c s = Some s1"
    using e by (auto simp: cpu_idle_iteration_def rel split: option.splits)
  have ok1: "sched_ok s1"
    by (rule process_rescues_ok [OF s1 ok])
  have r1: "RUNS s1 = RUNS s"
    by (rule process_rescues_fields(3) [OF s1])
  have "contexts_kept s1 s'"
  proof (cases "queue (CPU_QUEUES s1 c)")
    case Nil
    then show ?thesis
      using e by (intro contexts_kept_same) (simp_all add: cpu_idle_iteration_def rel s1)
  next
    case (Cons n q)
    obtain t where t: "THREADS s1 n = Some t"
      using head_thread [OF ok1 Cons] .
    have nr: "RUNS s1 d \<noteq> In_Thread n" for d
      by (rule queued_not_running [OF ok1, of _ c]) (use Cons in simp)
    show ?thesis
      by (intro contexts_kept_switch [where c = c])
         (use e Cons t nr none r1 in \<open>auto simp: cpu_idle_iteration_def rel s1 switch_from_idle_def\<close>)
  qed
  then show ?thesis
    by (rule contexts_kept_refine [OF process_rescues_fields(3,4,8) [OF s1]])
qed

lemma resched_contexts:
  assumes ok: "sched_ok s" and e: "check_resched now c s = Some s'" shows "contexts_kept s s'"
proof -
  obtain s1 where s1: "process_rescues now c s = Some s1"
    using e by (auto simp: check_resched_def split: option.splits)
  have ok1: "sched_ok s1"
    by (rule process_rescues_ok [OF s1 ok])
  note refine = contexts_kept_refine [OF process_rescues_fields(3,4,8) [OF s1]]
  show ?thesis
  proof (cases "c < MAX_CPUS \<and> NEED_RESCHED s1 c")
    case True
    let ?s2 = "s1\<lparr>NEED_RESCHED := (NEED_RESCHED s1)(c := False)\<rparr>"
    have "yield_current now c ?s2 = Some s'" "sched_ok ?s2"
      using e True s1 ok1 sched_ok_cong [of ?s2 s1] by (simp_all add: check_resched_def)
    then have "contexts_kept ?s2 s'"
      using yield_current_contexts by blast
    then have "contexts_kept s1 s'"
      by (rule contexts_kept_refine [rotated -1]) simp_all
    then show ?thesis
      by (rule refine)
  next
    case False
    then have "s' = s1"
      using e s1 by (auto simp: check_resched_def split: if_splits)
    then have "contexts_kept s1 s'"
      by (intro contexts_kept_same) simp_all
    then show ?thesis
      by (rule refine)
  qed
qed

lemma spawn_contexts:
  assumes ok: "sched_ok s" and e: "spawn c regs entry fx fnp stack tlp child_tid parent_tid flags m s = (m', s', n)"
  shows "contexts_kept s s'"
proof -
  have "THREADS s' i = THREADS s i" if "THREADS s i = Some t" for i t
  proof -
    have "i \<noteq> NEXT_TID s"
      using sched_okD(4) [OF ok] that unfolding slots_ok_def by (metis min_less_iff_conj option.distinct(1) less_irrefl)
    then show ?thesis
      using e by (auto simp: spawn_def Let_def split: if_splits)
  qed
  moreover have "RUNS s' = RUNS s" "REGS s' = REGS s"
    using spawn_switched(3,4) [of c regs entry fx fnp stack tlp child_tid parent_tid flags m s] e by simp_all
  moreover have "\<forall>c. RUNS s c = In_Thread i \<longrightarrow> REGS s c = REGS s c" for i
    by simp
  ultimately show ?thesis
    unfolding contexts_kept_def by auto
qed

lemma step_contexts:
  assumes "sched_step x y" "sched_ok (snd x)" shows "contexts_kept (snd x) (snd y)"
  using assms(1)
proof cases
  case (arrival c s m)
  then show ?thesis
    by (intro contexts_kept_same) (simp_all add: arrive_fields)
next
  case (wake c s i addr count s' n m)
  then show ?thesis
    by (intro contexts_kept_same) (simp_all add: futex_wake_fields)
next
  case (rescue c s now i s' m)
  then show ?thesis
    by (intro contexts_kept_same) (simp_all add: rescue_one_fields)
next
  case (yield_rest c s i m)
  then show ?thesis
    using yield_contexts assms(2) by simp
next
  case (tick m s c)
  then show ?thesis
    by (intro contexts_kept_same) (simp_all add: timer_tick_def)
next
  case (watchdog m s now)
  then show ?thesis
    by (intro contexts_kept_same) (simp_all add: watchdog_wake_def Let_def)
next
  case (arm m s)
  then show ?thesis
    by (intro contexts_kept_same) (simp_all add: enable_blocking_futex_def)
next
  case (user_store m m' s)
  then show ?thesis
    by (intro contexts_kept_same) simp_all
qed (use assms(2) yield_current_contexts wait_contexts spawn_contexts exit_contexts resched_contexts idle_contexts in auto)

section \<open>Rescue of a timed wait\<close>

lemma rescue_other:
  assumes "rescue_one now c j s = Some s'" "j \<noteq> i"
  shows "THREADS s' i = THREADS s i" "RESCUE_REQUESTED s' i = RESCUE_REQUESTED s i"
  using assms by (auto simp: rescue_one_def Let_def split: option.splits if_splits)

lemma rescue_list_other:
  "rescue_list now c is s = Some s' \<Longrightarrow> i \<notin> set is \<Longrightarrow>
   THREADS s' i = THREADS s i \<and> RESCUE_REQUESTED s' i = RESCUE_REQUESTED s i"
proof (induction "is" arbitrary: s)
  case (Cons j "is")
  then obtain s1 where s1: "rescue_one now c j s = Some s1" "rescue_list now c is s1 = Some s'" "j \<noteq> i" "i \<notin> set is"
    by (auto split: option.splits)
  show ?case
    using Cons.IH [OF s1(2,4)] rescue_other [OF s1(1,3)] by simp
qed simp

lemma rescue_list_append:
  "rescue_list now c (xs @ ys) s = (case rescue_list now c xs s of None \<Rightarrow> None | Some s' \<Rightarrow> rescue_list now c ys s')"
  by (induction xs arbitrary: s) (auto split: option.split)

text \<open>What a rescue makes of a blocked thread.\<close>

definition rescued_thread :: "nat \<Rightarrow> thread \<Rightarrow> thread" where
  "rescued_thread now t = t\<lparr>state := Ready, futex_addr := 0, blocked_since_ns := 0,
     wait_timed_out := (wait_deadline_ns t \<noteq> 0 \<and> wait_deadline_ns t \<le> now \<or> wait_timed_out t), wait_deadline_ns := 0\<rparr>"

lemma rescue_one_thread:
  assumes "rescue_one now c i s = Some s'" "RESCUE_REQUESTED s i" "THREADS s i = Some t" "state t = Blocked" "futex_addr t \<noteq> 0"
  shows "THREADS s' i = Some (rescued_thread now t)"
  using assms by (auto simp: rescue_one_def rescued_thread_def Let_def split: if_splits)

lemma process_rescues_thread:
  assumes "process_rescues now c s = Some s'" "i < MAX_THREADS" "RESCUE_REQUESTED s i" "THREADS s i = Some t"
    "state t = Blocked" "futex_addr t \<noteq> 0"
  shows "THREADS s' i = Some (rescued_thread now t)"
proof -
  have "[0..<MAX_THREADS] = [0..<i] @ i # [Suc i..<MAX_THREADS]"
    using assms(2) by (metis less_imp_le_nat upt_add_eq_append upt_conv_Cons le_add_diff_inverse zero_le)
  then obtain s1 s2 where r: "rescue_list now c [0..<i] s = Some s1" "rescue_one now c i s1 = Some s2"
      "rescue_list now c [Suc i..<MAX_THREADS] s2 = Some s'"
    using assms(1) by (auto simp: process_rescues_def rescue_list_append split: option.splits)
  have "THREADS s1 i = Some t" "RESCUE_REQUESTED s1 i"
    using rescue_list_other [OF r(1), of i] assms(3,4) by simp_all
  then have "THREADS s2 i = Some (rescued_thread now t)"
    using rescue_one_thread [OF r(2)] assms(5,6) by blast
  then show ?thesis
    using rescue_list_other [OF r(3), of i] by simp
qed

section \<open>Properties\<close>

text \<open>
  C2: every thread is in one place.  In every state the scheduler can reach, in any interleaving of
  operations on all CPUs, no CPU holds a thread twice, a thread is held by some CPU exactly when it
  is ready or running, that CPU is its home CPU, and a CPU that executes a thread has it as its
  current thread and uses its kernel stack; so no thread is lost, queued twice, or run by two CPUs.
\<close>

theorem sched_one_place:
  assumes "sched_reachable (m, s)" and "THREADS s i = Some t"
  shows "tid t = i \<and> i < MAX_THREADS \<and> (\<forall>c. distinct (held s c)) \<and> (runnable t \<longleftrightarrow> (\<exists>c. i \<in> set (held s c))) \<and>
    (\<forall>c. i \<in> set (held s c) \<longrightarrow> c = home_cpu t \<and> c < NUM_CPUS s) \<and>
    (\<forall>c. RUNS s c = In_Thread i \<longrightarrow> current (CPU_QUEUES s c) = Some i \<and> KSTACK s c = kernel_stack_top t)"
proof -
  have ok: "sched_ok s"
    using sched_reachable_ok [OF assms(1)] by simp
  note P = places_okD [OF sched_okD(1) [OF ok]]
  have "i < MAX_THREADS"
    using sched_okD(4) [OF ok] assms(2) by (auto simp: slots_ok_def)
  moreover have "runnable t \<longleftrightarrow> (\<exists>c. i \<in> set (held s c))"
    using P(2) [of i] P(4) [OF assms(2)] assms(2) by fastforce
  moreover have "c = home_cpu t \<and> c < NUM_CPUS s" if "i \<in> set (held s c)" for c
    using P(2) [OF that] P(3) [OF assms(2)] assms(2) by auto
  moreover have "current (CPU_QUEUES s c) = Some i \<and> KSTACK s c = kernel_stack_top t" if "RUNS s c = In_Thread i" for c
    using sched_okD(2) [OF ok, of c] that assms(2) by (auto simp: cpu_ok_def kstack_of_def split: option.splits)
  ultimately show ?thesis
    using P(1) P(3) [OF assms(2)] by blast
qed

text \<open>A concrete run: two CPUs, one thread created.\<close>

abbreviation example_machine :: machine where
  "example_machine \<equiv> \<lparr>pg = example_paging, ram = (\<lambda>_. 0)\<rparr>"

definition example_sched :: sched where
  "example_sched = sched_init 2 (replicate 512 0) 0x8000 (\<lambda>_. 0x9000) (\<lambda>_. zero_ctx)"

definition example_spawn :: "machine \<times> sched \<times> nat" where
  "example_spawn = spawn 0 (0, 0) 0x100000 (replicate 512 0) 0 0x1B800000 0 0 0 0 example_machine example_sched"

lemma example_sched_reachable: "sched_reachable (example_machine, example_sched)"
  unfolding example_sched_def by (rule sched_reachable.start) (simp_all add: MAX_CPUS_def)

lemma example_spawn_reachable: "sched_reachable (fst example_spawn, fst (snd example_spawn))"
proof (rule sched_reachable.step [OF example_sched_reachable])
  have "spawn 0 (0, 0) 0x100000 (replicate 512 0) 0 0x1B800000 0 0 0 0 example_machine example_sched =
      (fst example_spawn, fst (snd example_spawn), snd (snd example_spawn))"
    by (simp add: example_spawn_def)
  then show "sched_step (example_machine, example_sched) (fst example_spawn, fst (snd example_spawn))"
    by (rule sched_step.clone [rotated 4, where i = 0]) (simp_all add: example_sched_def sched_init_def)
qed

lemma example_spawn_state:
  "snd (snd example_spawn) = 1"
  "NUM_CPUS (fst (snd example_spawn)) = 2" "NEXT_TID (fst (snd example_spawn)) = 2"
  "CPU_QUEUES (fst (snd example_spawn)) 1 = \<lparr>current = None, queue = [1], idle = True\<rparr>"
  "CPU_QUEUES (fst (snd example_spawn)) 0 = \<lparr>current = Some 0, queue = [], idle = False\<rparr>"
  "map_option home_cpu (THREADS (fst (snd example_spawn)) 1) = Some 1"
  "map_option state (THREADS (fst (snd example_spawn)) 1) = Some Ready"
  "IPIS (fst (snd example_spawn)) = [1]"
  "RUNS (fst (snd example_spawn)) 0 = In_Thread 0" "SWITCHED (fst (snd example_spawn)) = (\<lambda>_. False)"
  "FUTEX_LOCKS (fst (snd example_spawn)) = (\<lambda>_. False)"
  "PENDING_WAKES (fst (snd example_spawn)) = (\<lambda>_. replicate PENDING_WAKES_PER_BUCKET 0)"
  "map_option (\<lambda>t. (home_cpu t, state t)) (THREADS (fst (snd example_spawn)) 0) = Some (0, Running)"
proof -
  have n: "NEXT_TID example_sched = 1" "NUM_CPUS example_sched = 2" "IPIS example_sched = []"
      "RUNS example_sched 0 = In_Thread 0" "SWITCHED example_sched = (\<lambda>_. False)" "FUTEX_LOCKS example_sched = (\<lambda>_. False)"
      "PENDING_WAKES example_sched = (\<lambda>_. replicate PENDING_WAKES_PER_BUCKET 0)"
      "map_option (\<lambda>t. (home_cpu t, state t)) (THREADS example_sched 0) = Some (0, Running)"
      "CPU_QUEUES example_sched = (\<lambda>_. \<lparr>current = None, queue = [], idle = True\<rparr>)(0 := \<lparr>current = Some 0, queue = [], idle = False\<rparr>)"
    by (simp_all add: example_sched_def sched_init_def new_thread_def)
  have cpu: "spawn_cpu example_sched = 1"
    by (simp add: spawn_cpu_def n upt_rec)
  have l: "\<not> MAX_THREADS \<le> NEXT_TID example_sched" "NEXT_TID example_sched + 1 < 2 ^ 32"
    by (simp_all add: n MAX_THREADS_def)
  note e = spawn_eq [where c = 0 and regs = "(0, 0)" and entry = "0x100000" and fx = "replicate 512 0" and fnp = 0 and
      stack = "0x1B800000" and tlp = 0 and child_tid = 0 and parent_tid = 0 and flags = 0 and m = example_machine,
      OF l refl, folded example_spawn_def, unfolded cpu n(1)]
  show "snd (snd example_spawn) = 1"
    by (simp add: e)
  show "NUM_CPUS (fst (snd example_spawn)) = 2" "NEXT_TID (fst (snd example_spawn)) = 2"
    by (simp_all add: e n)
  show "CPU_QUEUES (fst (snd example_spawn)) 1 = \<lparr>current = None, queue = [1], idle = True\<rparr>"
    "CPU_QUEUES (fst (snd example_spawn)) 0 = \<lparr>current = Some 0, queue = [], idle = False\<rparr>"
    by (simp_all add: e n)
  show "map_option home_cpu (THREADS (fst (snd example_spawn)) 1) = Some 1"
    "map_option state (THREADS (fst (snd example_spawn)) 1) = Some Ready"
    by (simp_all add: e n spawned_thread_def new_thread_def)
  show "IPIS (fst (snd example_spawn)) = [1]"
    by (simp add: e n upd_queue_def send_ipi_def)
  show "RUNS (fst (snd example_spawn)) 0 = In_Thread 0" "SWITCHED (fst (snd example_spawn)) = (\<lambda>_. False)"
    "FUTEX_LOCKS (fst (snd example_spawn)) = (\<lambda>_. False)"
    "PENDING_WAKES (fst (snd example_spawn)) = (\<lambda>_. replicate PENDING_WAKES_PER_BUCKET 0)"
    "map_option (\<lambda>t. (home_cpu t, state t)) (THREADS (fst (snd example_spawn)) 0) = Some (0, Running)"
    by (simp_all add: e n)
qed

theorem sched_one_place_witness:
  "\<exists>t. THREADS (fst (snd example_spawn)) 1 = Some t \<and> tid t = 1 \<and> home_cpu t = 1 \<and> runnable t \<and>
    1 \<in> set (held (fst (snd example_spawn)) 1)"
proof -
  obtain t where t: "THREADS (fst (snd example_spawn)) 1 = Some t" "home_cpu t = 1" "state t = Ready"
    using example_spawn_state(6,7) by auto
  have "1 \<in> set (held (fst (snd example_spawn)) 1)"
    unfolding held_def example_spawn_state(4) by simp
  then show ?thesis
    using sched_one_place [OF example_spawn_reachable t(1)] t by blast
qed

text \<open>
  C17: kernel stacks do not overlap.  In every reachable state the kernel stacks of different
  created threads, each with the guard page below it and the pad above it, are disjoint and inside
  the arena that the page tables reserve for them.
\<close>

theorem kernel_stacks_apart:
  assumes "sched_reachable (m, s)" and "THREADS s i = Some t" "THREADS s j = Some u" "0 < i" "i < j"
  shows "KSTACK_ARENA_BASE + GUARD_SIZE + KSTACK_USABLE \<le> kernel_stack_top t \<and>
    kernel_stack_top t + 4096 \<le> kernel_stack_top u - KSTACK_USABLE - GUARD_SIZE \<and>
    kernel_stack_top u + 4096 \<le> KSTACK_ARENA_BASE + KSTACK_ARENA_SIZE"
proof -
  have sl: "slots_ok s"
    using sched_okD(4) sched_reachable_ok [OF assms(1)] by simp
  have j: "j < MAX_THREADS"
    using sl assms(3) by (auto simp: slots_ok_def)
  have top: "kernel_stack_top t = kstack_slot i + GUARD_SIZE + KSTACK_USABLE" "kernel_stack_top u = kstack_slot j + GUARD_SIZE + KSTACK_USABLE"
    using sl assms(2-5) by (auto simp: slots_ok_def)
  have "(i - 1) * KSTACK_STRIDE + KSTACK_STRIDE \<le> (j - 1) * KSTACK_STRIDE"
  proof -
    have "Suc (i - 1) \<le> j - 1"
      using assms(4,5) by arith
    then have "Suc (i - 1) * KSTACK_STRIDE \<le> (j - 1) * KSTACK_STRIDE"
      by (rule mult_le_mono1)
    then show ?thesis
      by simp
  qed
  moreover have "(j - 1) * KSTACK_STRIDE \<le> 30 * KSTACK_STRIDE"
    using j by (intro mult_le_mono1) (simp add: MAX_THREADS_def)
  ultimately show ?thesis
    unfolding top kstack_slot_def by (simp add: KSTACK_STRIDE_def GUARD_SIZE_def KSTACK_USABLE_def KSTACK_ARENA_SIZE_def)
qed

definition example_spawn2 :: "machine \<times> sched \<times> nat" where
  "example_spawn2 = spawn 0 (0, 0) 0x100000 (replicate 512 0) 0 0x1B900000 0 0 0 0 (fst example_spawn) (fst (snd example_spawn))"

lemma example_spawn2_reachable: "sched_reachable (fst example_spawn2, fst (snd example_spawn2))"
proof (rule sched_reachable.step [OF example_spawn_reachable])
  have "spawn 0 (0, 0) 0x100000 (replicate 512 0) 0 0x1B900000 0 0 0 0 (fst example_spawn) (fst (snd example_spawn)) =
      (fst example_spawn2, fst (snd example_spawn2), snd (snd example_spawn2))"
    by (simp add: example_spawn2_def)
  then show "sched_step (fst example_spawn, fst (snd example_spawn)) (fst example_spawn2, fst (snd example_spawn2))"
    by (rule sched_step.clone [rotated 4, where i = 0]) (simp_all add: example_spawn_state)
qed

lemma example_spawn2_threads: "THREADS (fst (snd example_spawn2)) 1 \<noteq> None" "THREADS (fst (snd example_spawn2)) 2 \<noteq> None"
proof -
  have n: "\<not> MAX_THREADS \<le> NEXT_TID (fst (snd example_spawn))" "NEXT_TID (fst (snd example_spawn)) + 1 < 2 ^ 32"
    by (simp_all add: example_spawn_state MAX_THREADS_def)
  have "NEXT_TID (fst (snd example_spawn2)) = 3"
    unfolding example_spawn2_def spawn_eq [OF n refl] by (simp add: example_spawn_state)
  then show "THREADS (fst (snd example_spawn2)) 1 \<noteq> None" "THREADS (fst (snd example_spawn2)) 2 \<noteq> None"
    using sched_okD(4) [OF sched_reachable_ok [OF example_spawn2_reachable]]
    by (simp_all add: slots_ok_def MAX_THREADS_def)
qed

theorem kernel_stacks_apart_witness:
  "\<exists>t u. THREADS (fst (snd example_spawn2)) 1 = Some t \<and> THREADS (fst (snd example_spawn2)) 2 = Some u \<and>
    kernel_stack_top t + 4096 \<le> kernel_stack_top u - KSTACK_USABLE - GUARD_SIZE"
proof -
  obtain t u where "THREADS (fst (snd example_spawn2)) 1 = Some t" "THREADS (fst (snd example_spawn2)) 2 = Some u"
    using example_spawn2_threads by auto
  then show ?thesis
    using kernel_stacks_apart [OF example_spawn2_reachable] by auto
qed

end
