(* ===== verification/Futex_Properties.thy ===== *)
theory Futex_Properties
  imports Sched_Properties
begin

text \<open>
  Properties of futexes, of the registers of threads across switches and of the thread system
  calls (\<open>src/src/sched.rs\<close>, \<open>sys_clone\<close> and \<open>sys_futex\<close> of \<open>src/src/syscall.rs\<close>), with a concrete
  run in which a thread blocks with a deadline.
\<close>

section \<open>A run with a blocked thread\<close>

lemma example_spawn_machine:
  "fst example_spawn = \<lparr>pg = fst (map_guard_page example_paging KSTACK_ARENA_BASE),
     ram = mem_write (\<lambda>_. 0) (KSTACK_ARENA_BASE + GUARD_SIZE + KSTACK_USABLE - 8) (le_bytes 8 0x100000)\<rparr>"
  by (simp add: example_spawn_def spawn_def Let_def example_sched_def sched_init_def MAX_THREADS_def store_tid_def)

lemma example_spawn_read: "read_user_u32 (fst example_spawn) 0x1B800000 = Inr 0"
proof -
  have "kernel_paging example_layout (fst (map_guard_page example_paging KSTACK_ARENA_BASE))"
    by (intro kernel_paging.intros) (simp_all add: KSTACK_ARENA_SIZE_def)
  then have u: "user_accessible (fst (map_guard_page example_paging KSTACK_ARENA_BASE)) 0x1B800000 4"
    by (rule beam_accessible [OF example_layout_ok]) simp_all
  have "mem_read (ram (fst example_spawn)) 0x1B800000 4 = mem_read (\<lambda>_. 0) 0x1B800000 4"
    unfolding example_spawn_machine machine.simps
    by (rule mem_read_write_other) (simp add: KSTACK_ARENA_BASE_def GUARD_SIZE_def KSTACK_USABLE_def)
  also have "le_nat \<dots> = 0"
    by (simp add: mem_read_def upt_rec le_nat_def)
  finally show ?thesis
    using u by (simp add: read_user_u32_def example_spawn_machine)
qed

definition example_armed :: sched where
  "example_armed = enable_blocking_futex (fst (snd example_spawn))"

text \<open>The boot thread blocks at time 1000 until time 5000; its CPU goes idle.\<close>

definition example_blocked :: sched where
  "example_blocked = block_current 1000 0 0x1B800000 0 (Some 5000) 0
     (example_armed\<lparr>FUTEX_LOCKS := (FUTEX_LOCKS example_armed)(0 := True)\<rparr>)"

lemma example_armed_reachable: "sched_reachable (fst example_spawn, example_armed)"
  unfolding example_armed_def by (rule sched_reachable.step [OF example_spawn_reachable sched_step.arm])

lemma example_armed_state [simp]:
  "NEXT_TID example_armed = 2" "NUM_CPUS example_armed = 2" "FUTEX_LOCKS example_armed = (\<lambda>_. False)"
  "FUTEX_BLOCKING example_armed" "RUNS example_armed 0 = In_Thread 0" "SWITCHED example_armed = (\<lambda>_. False)"
  "CPU_QUEUES example_armed 0 = \<lparr>current = Some 0, queue = [], idle = False\<rparr>"
  "PENDING_WAKES example_armed = (\<lambda>_. replicate PENDING_WAKES_PER_BUCKET 0)"
  "THREADS example_armed = THREADS (fst (snd example_spawn))"
  by (simp_all add: example_armed_def enable_blocking_futex_def example_spawn_state)

lemma example_wait:
  "futex_wait_until 1000 0 (fst example_spawn) 0x1B800000 0 (Some 5000) example_armed = Some (example_blocked, Sleeps)"
proof -
  have b: "futex_bucket 0x1B800000 = 0"
    by (simp add: futex_bucket_def FUTEX_BUCKETS_def)
  have "\<not> snd (pending_wake_consume 0x1B800000 (replicate PENDING_WAKES_PER_BUCKET 0))"
    by (auto simp: pending_wake_consume_def position_None_iff split: option.split dest: position_SomeD)
  then show ?thesis
    by (subst futex_wait_unlocked) (simp_all add: b example_spawn_read example_blocked_def)
qed

lemma example_blocked_reachable: "sched_reachable (fst example_spawn, example_blocked)"
  by (rule sched_reachable.step [OF example_armed_reachable sched_step.wait [OF _ _ _ example_wait]]) simp_all

lemma example_blocked_state:
  "NUM_CPUS example_blocked = 2" "FUTEX_LOCKS example_blocked 0" "SWITCHED example_blocked 0"
  "map_option (\<lambda>t. (home_cpu t, state t, futex_addr t, wait_deadline_ns t)) (THREADS example_blocked 0) =
     Some (0, Blocked, 0x1B800000, 5000)"
  "CONT example_blocked 0 = After_Futex"
proof -
  obtain t where t: "THREADS (fst (snd example_spawn)) 0 = Some t" "home_cpu t = 0"
    using example_spawn_state(13) by auto
  show "NUM_CPUS example_blocked = 2" "FUTEX_LOCKS example_blocked 0" "SWITCHED example_blocked 0"
    "map_option (\<lambda>t. (home_cpu t, state t, futex_addr t, wait_deadline_ns t)) (THREADS example_blocked 0) =
       Some (0, Blocked, 0x1B800000, 5000)"
    "CONT example_blocked 0 = After_Futex"
    by (simp_all add: example_blocked_def block_current_def Let_def t switch_to_idle_def)
qed

section \<open>Properties\<close>

text \<open>
  C7: bucket locks are always released.  From every reachable state, running the code after the
  switch on each CPU that has just switched leads to a state in which no futex bucket lock is held,
  and there every operation that takes bucket locks runs to its end: no operation spins on a lock
  that nobody will release.
\<close>

theorem futex_locks_released:
  assumes "sched_reachable (m, s)"
  defines "s' \<equiv> arrive_all [0..<NUM_CPUS s] s"
  shows "sched_step\<^sup>*\<^sup>* (m, s) (m, s') \<and> (\<forall>b. \<not> FUTEX_LOCKS s' b) \<and>
    (\<forall>now c. process_rescues now c s' \<noteq> None \<and> yield_current now c s' \<noteq> None) \<and>
    (\<forall>now c m addr val deadline. futex_wait_until now c m addr val deadline s' \<noteq> None) \<and>
    (\<forall>c addr count. futex_wake c addr count s' \<noteq> None)"
proof -
  have ok: "sched_ok s"
    using sched_reachable_ok [OF assms(1)] by simp
  note a = arrive_all_ok [OF ok, of "[0..<NUM_CPUS s]" m, folded s'_def]
  have free: "\<not> FUTEX_LOCKS s' b" for b
  proof
    assume "FUTEX_LOCKS s' b"
    then obtain c where "PENDING_UNLOCK_BUCKET s' c = Some b"
      using sched_okD(3) [of s'] a by (auto simp: locks_ok_def)
    then have "SWITCHED s' c"
      using sched_okD(3) [of s'] a by (auto simp: locks_ok_def)
    then show False
      using a switched_bound [OF assms(1), of c] by auto
  qed
  then have f: "\<forall>b. \<not> FUTEX_LOCKS s' b"
    by blast
  have "futex_wake c addr count s' \<noteq> None" for c addr count
    using free by (simp add: futex_wake_def Let_def split: prod.split)
  moreover have "futex_wait_until now c m addr val deadline s' \<noteq> None" for now c m addr val deadline
    using wait_enabled [OF f, of now c m addr val deadline] by auto
  moreover have "process_rescues now c s' \<noteq> None \<and> yield_current now c s' \<noteq> None" for now c
    using rescue_enabled [OF f, of now c] yield_enabled [OF f, of now c] by auto
  ultimately show ?thesis
    using a f by auto
qed

theorem futex_locks_released_witness:
  "FUTEX_LOCKS example_blocked 0 \<and> \<not> FUTEX_LOCKS (arrive_all [0, 1] example_blocked) 0 \<and>
   sched_step\<^sup>*\<^sup>* (fst example_spawn, example_blocked) (fst example_spawn, arrive_all [0, 1] example_blocked)"
proof -
  have u: "[0..<NUM_CPUS example_blocked] = [0, 1]"
    by (simp add: example_blocked_state upt_rec)
  show ?thesis
    using futex_locks_released [OF example_blocked_reachable, unfolded u] example_blocked_state(2) by blast
qed

text \<open>
  C13: a wake is exact.  In a reachable state whose bucket lock is free, waking up to \<open>count\<close>
  threads returns the number of threads made ready, which is the smaller of \<open>count\<close> and the number
  of threads blocked on the address; they are the first of those in the order of the thread table,
  each is appended to the run queue of its home CPU, no other thread changes, and the wake is
  recorded as pending exactly when no thread was woken.
\<close>

theorem futex_wake_exact:
  fixes count :: nat
  assumes "sched_reachable (m, s)" and "\<not> FUTEX_LOCKS s (futex_bucket addr)"
  defines "ws \<equiv> take count (waiters s addr)"
  shows "\<exists>s'. futex_wake c addr count s = Some (s', length ws) \<and> length ws = min count (length (waiters s addr)) \<and>
    (\<forall>i. THREADS s' i = (if i \<in> set ws then map_option woken_thread (THREADS s i) else THREADS s i)) \<and>
    (\<forall>d. CPU_QUEUES s' d = (CPU_QUEUES s d)\<lparr>queue := queue (CPU_QUEUES s d) @ homed s d ws\<rparr>) \<and>
    (\<forall>b. PENDING_WAKES s' b =
       (if ws = [] \<and> b = futex_bucket addr then pending_wake_insert addr (PENDING_WAKES s b) else PENDING_WAKES s b))"
proof -
  have ok: "sched_ok s"
    using sched_reachable_ok [OF assms(1)] by simp
  obtain s1 n where r: "wake_list c addr count [0..<MAX_THREADS] 0 s = (s1, n)"
    by fastforce
  have w: "n = 0 + length ws \<and> PENDING_WAKES s1 = PENDING_WAKES s \<and>
      THREADS s1 = (\<lambda>i. if i \<in> set ws then map_option woken_thread (THREADS s i) else THREADS s i) \<and>
      (\<forall>d. CPU_QUEUES s1 d = (CPU_QUEUES s d)\<lparr>queue := queue (CPU_QUEUES s d) @ homed s d ws\<rparr>)"
    by (rule wake_list_spec [OF _ _ _ r]) (use places_okD(3) [OF sched_okD(1) [OF ok]] in \<open>auto simp: ws_def waiters_def\<close>)
  define s' where "s' = (if n = 0 then s1\<lparr>PENDING_WAKES := (PENDING_WAKES s1)(futex_bucket addr :=
      pending_wake_insert addr (PENDING_WAKES s1 (futex_bucket addr)))\<rparr> else s1)"
  have "futex_wake c addr count s = Some (s', n)"
    using assms(2) r by (simp add: futex_wake_def s'_def Let_def)
  moreover have "THREADS s' = THREADS s1" "CPU_QUEUES s' = CPU_QUEUES s1"
    by (simp_all add: s'_def)
  moreover have "PENDING_WAKES s' b =
      (if ws = [] \<and> b = futex_bucket addr then pending_wake_insert addr (PENDING_WAKES s b) else PENDING_WAKES s b)" for b
    using w by (simp add: s'_def)
  moreover have "length ws = min count (length (waiters s addr))"
    by (simp add: ws_def)
  ultimately show ?thesis
    using w by (intro exI [of _ s']) simp
qed

text \<open>The example after its idle CPU has released the lock.\<close>

definition example_asleep :: sched where
  "example_asleep = fst (arrive 0 example_blocked)"

lemma example_asleep_reachable: "sched_reachable (fst example_spawn, example_asleep)"
  unfolding example_asleep_def
  by (rule sched_reachable.step [OF example_blocked_reachable sched_step.arrival]) (simp_all add: example_blocked_state)

lemma example_blocked_runs: "RUNS example_blocked 0 = In_Idle" "PENDING_UNLOCK_BUCKET example_blocked 0 = Some 0"
    "FUTEX_LOCKS example_blocked = (\<lambda>_. False)(0 := True)" "NEXT_TID example_blocked = 2"
    "PENDING_WAKES example_blocked = (\<lambda>_. replicate PENDING_WAKES_PER_BUCKET 0)"
    "THREADS example_blocked 1 = THREADS (fst (snd example_spawn)) 1"
proof -
  obtain t where t: "THREADS (fst (snd example_spawn)) 0 = Some t" "home_cpu t = 0"
    using example_spawn_state(13) by auto
  show "RUNS example_blocked 0 = In_Idle" "PENDING_UNLOCK_BUCKET example_blocked 0 = Some 0"
    "FUTEX_LOCKS example_blocked = (\<lambda>_. False)(0 := True)" "NEXT_TID example_blocked = 2"
    "PENDING_WAKES example_blocked = (\<lambda>_. replicate PENDING_WAKES_PER_BUCKET 0)"
    "THREADS example_blocked 1 = THREADS (fst (snd example_spawn)) 1"
    by (simp_all add: example_blocked_def block_current_def Let_def t switch_to_idle_def futex_bucket_def FUTEX_BUCKETS_def)
qed

lemma example_asleep_state:
  "THREADS example_asleep = THREADS example_blocked" "FUTEX_LOCKS example_asleep = (\<lambda>_. False)"
  "NEXT_TID example_asleep = 2" "PENDING_WAKES example_asleep = (\<lambda>_. replicate PENDING_WAKES_PER_BUCKET 0)"
  "CONT example_asleep 0 = After_Futex"
  by (simp_all add: example_asleep_def arrive_def Let_def release_pending_unlock_def example_blocked_runs
      example_blocked_state fun_eq_iff)

lemma example_asleep_waits: "waits_on example_asleep addr i \<longleftrightarrow> addr = 0x1B800000 \<and> i = 0"
proof -
  have dom: "THREADS example_asleep i \<noteq> None \<longleftrightarrow> i < 2"
    using sched_okD(4) [OF sched_reachable_ok [OF example_asleep_reachable]]
    by (simp add: slots_ok_def example_asleep_state(3) MAX_THREADS_def)
  obtain t where t: "THREADS example_blocked 0 = Some t" "state t = Blocked" "futex_addr t = 0x1B800000"
    using example_blocked_state(4) by auto
  obtain u where u: "THREADS example_blocked 1 = Some u" "state u = Ready"
    using example_spawn_state(7) by (auto simp: example_blocked_runs(6) simp del: One_nat_def)
  consider "i = 0" | "i = 1" | "2 \<le> i"
    by linarith
  then show ?thesis
  proof cases
    case 3
    then show ?thesis
      using dom by (simp add: waits_on_def)
  qed (use t u in \<open>auto simp: waits_on_def example_asleep_state(1)\<close>)
qed

lemma example_asleep_waiters: "waiters example_asleep addr = (if addr = 0x1B800000 then [0] else [])"
proof -
  have "[0..<MAX_THREADS] = 0 # [1..<MAX_THREADS]"
    by (simp add: MAX_THREADS_def upt_conv_Cons)
  then show ?thesis
    by (simp add: waiters_def example_asleep_waits filter_empty_conv)
qed

theorem futex_wake_exact_witness:
  "\<exists>s' t. futex_wake 1 0x1B800000 5 example_asleep = Some (s', 1) \<and> THREADS s' 0 = Some t \<and> state t = Ready \<and>
    0 \<in> set (queue (CPU_QUEUES s' 0))"
proof -
  obtain t where t: "THREADS example_asleep 0 = Some t" "home_cpu t = 0"
    using example_blocked_state(4) by (auto simp: example_asleep_state(1))
  have "\<not> FUTEX_LOCKS example_asleep (futex_bucket 0x1B800000)"
    by (simp add: example_asleep_state)
  from futex_wake_exact [OF example_asleep_reachable this, of 1 5, unfolded example_asleep_waiters] t show ?thesis
    by (auto simp: woken_thread_def homed_def)
qed

text \<open>
  C30: a wake before the wait.  A wake that finds nobody blocked is remembered when the table of the
  bucket already has the address or has a free entry: the next wait on the address returns at once
  with 0.  When the eight entries hold other addresses the wake leaves no trace at all.
\<close>

theorem wake_before_wait:
  assumes "1 < NEXT_TID s" and "\<not> FUTEX_LOCKS s (futex_bucket addr)" and "waiters s addr = []"
  defines "pw \<equiv> PENDING_WAKES s (futex_bucket addr)"
  shows "\<exists>s'. futex_wake c addr count s = Some (s', 0) \<and>
    (if addr \<in> set pw \<or> 0 \<in> set pw
     then \<exists>s''. futex_wait_until now d m addr val deadline s' = Some (s'', Returns 0) \<and> THREADS s'' = THREADS s
     else s' = s)"
proof -
  have none: "wake_list c addr count is 0 s = (s, 0)" if "filter (waits_on s addr) is = []" for "is"
    using that
    by (induction "is") (auto simp: waits_on_def split: option.splits if_splits)
  have wk: "futex_wake c addr count s = Some (s\<lparr>PENDING_WAKES := (PENDING_WAKES s)(futex_bucket addr := pending_wake_insert addr pw)\<rparr>, 0)"
    using assms(2) none [OF assms(3) [unfolded waiters_def]] by (simp add: futex_wake_def pw_def Let_def)
  show ?thesis
  proof (cases "addr \<in> set pw \<or> 0 \<in> set pw")
    case True
    then show ?thesis
      using pending_insert_consume [OF True] assms(1,2) by (simp add: wk futex_wait_unlocked)
  next
    case False
    then have "pending_wake_insert addr pw = pw"
      by (auto simp: pending_wake_insert_def position_Some_iff split: option.split dest: nth_mem)
    then show ?thesis
      using False by (simp add: wk pw_def)
  qed
qed

theorem wake_before_wait_witness:
  "\<exists>s' s''. futex_wake 1 0x1B800010 1 example_asleep = Some (s', 0) \<and>
    futex_wait_until 2000 1 (fst example_spawn) 0x1B800010 0 None s' = Some (s'', Returns 0)"
proof -
  have n: "1 < NEXT_TID example_asleep" "\<not> FUTEX_LOCKS example_asleep (futex_bucket 0x1B800010)" "waiters example_asleep 0x1B800010 = []"
    by (simp_all add: example_asleep_state example_asleep_waiters)
  show ?thesis
    using wake_before_wait [OF n, of 1 1 2000 1 "fst example_spawn" 0 None]
    by (auto simp: example_asleep_state PENDING_WAKES_PER_BUCKET_def)
qed

text \<open>
  C31: timed waits end.  In a reachable state with no bucket lock held, let a thread be blocked with
  a deadline that has passed.  One run of the watchdog on the timer followed by the processing of
  rescue requests on any CPU makes it ready, held by its home CPU and marked as timed out, and when
  a CPU is switched to it its \<open>futex_wait\<close> returns \<open>-ETIMEDOUT\<close>.
\<close>

theorem timed_wait_expires:
  assumes "sched_reachable (m, s)" and "\<forall>b. \<not> FUTEX_LOCKS s b"
    and "THREADS s i = Some t" "state t = Blocked" "futex_addr t \<noteq> 0" "user_accessible (pg m) (futex_addr t) 4"
    and "0 < wait_deadline_ns t" "wait_deadline_ns t \<le> now"
  shows "\<exists>s' t'. process_rescues now c (watchdog_wake now m s) = Some s' \<and> THREADS s' i = Some t' \<and> state t' = Ready \<and>
    i \<in> set (held s' (home_cpu t)) \<and> CONT s' i = CONT s i \<and>
    (\<forall>d s''. RUNS s'' d = In_Thread i \<and> CONT s'' i = After_Futex \<and> THREADS s'' i = Some t' \<longrightarrow>
       snd (arrive d s'') = Some (-110))"
proof -
  have ok: "sched_ok s"
    using sched_reachable_ok [OF assms(1)] by simp
  let ?s = "watchdog_wake now m s"
  have ok1: "sched_ok ?s"
    by (rule sched_ok_cong [of ?s s, THEN iffD2]) (use ok in \<open>simp_all add: watchdog_wake_def Let_def\<close>)
  have i: "i < MAX_THREADS"
    using sched_okD(4) [OF ok] assms(3) by (auto simp: slots_ok_def)
  have w: "wants_rescue now m t"
    using assms(4-8) by (simp add: wants_rescue_def read_user_u32_def)
  have ws: "THREADS ?s = THREADS s" "FUTEX_LOCKS ?s = FUTEX_LOCKS s" "RESCUE_REQUESTED ?s i" "CONT ?s = CONT s"
    using i w assms(3) by (simp_all add: watchdog_wake_def Let_def)
  obtain s' where s': "process_rescues now c ?s = Some s'"
    using rescue_enabled [of ?s now c] assms(2) ws(2) by auto
  have t': "THREADS s' i = Some (rescued_thread now t)"
    using process_rescues_thread [OF s' i ws(3) _ assms(4,5)] ws(1) assms(3) by simp
  have r: "runnable (rescued_thread now t)" "home_cpu (rescued_thread now t) = home_cpu t" "state (rescued_thread now t) = Ready"
      "wait_timed_out (rescued_thread now t)"
    using assms(7,8) by (simp_all add: rescued_thread_def runnable_def)
  have "i \<in> set (held s' (home_cpu t))"
    using places_okD(4) [OF sched_okD(1) [OF process_rescues_ok [OF s' ok1]] t'] r by simp
  moreover have "snd (arrive d s'') = Some (-110)"
    if "RUNS s'' d = In_Thread i \<and> CONT s'' i = After_Futex \<and> THREADS s'' i = Some (rescued_thread now t)" for d s''
    using that r(4) by (simp add: arrive_def Let_def release_pending_unlock_def split: option.split)
  ultimately show ?thesis
    using s' t' r(3) process_rescues_fields [OF s'] ws(4) by auto
qed

theorem timed_wait_expires_witness:
  "\<exists>s' t'. process_rescues 5000 1 (watchdog_wake 5000 (fst example_spawn) example_asleep) = Some s' \<and>
    THREADS s' 0 = Some t' \<and> state t' = Ready \<and> 0 \<in> set (held s' 0) \<and> CONT s' 0 = After_Futex"
proof -
  obtain t where t: "THREADS example_asleep 0 = Some t" "home_cpu t = 0" "state t = Blocked" "futex_addr t = 0x1B800000"
      "wait_deadline_ns t = 5000"
    using example_blocked_state(4) by (auto simp: example_asleep_state(1))
  have "user_accessible (pg (fst example_spawn)) 0x1B800000 4"
    using example_spawn_read by (simp add: read_user_u32_def split: if_splits)
  then show ?thesis
    using timed_wait_expires [OF example_asleep_reachable _ t(1), of 5000 1] t
    by (auto simp: example_asleep_state)
qed

text \<open>
  C10: registers survive.  In every step of every interleaving, the saved registers, TLS base and
  FPU state of a thread that no CPU executes are unchanged, a CPU that starts executing it gets
  exactly them, and a CPU that stops executing a thread saves exactly the registers it had.
\<close>

theorem saved_registers_kept:
  assumes "sched_reachable x" and "sched_step x y"
  shows "contexts_kept (snd x) (snd y)"
  by (rule step_contexts [OF assms(2) sched_reachable_ok [OF assms(1)]])

theorem saved_registers_kept_witness:
  "sched_step (fst example_spawn, example_armed) (fst example_spawn, example_blocked) \<and>
   contexts_kept example_armed example_blocked"
proof -
  have "sched_step (fst example_spawn, example_armed) (fst example_spawn, example_blocked)"
    by (rule sched_step.wait [OF _ _ _ example_wait]) simp_all
  then show ?thesis
    using saved_registers_kept [OF example_armed_reachable] by fastforce
qed

text \<open>
  C32: results of \<open>clone\<close>.  Without a stack it fails with \<open>-EINVAL\<close>; with a free slot it returns
  the index of the new thread, which calls itself by the index plus one; after 31 threads have been
  created the parent gets 0, the value the child is meant to see, and no thread is created.
\<close>

theorem clone_results:
  assumes "sched_reachable (m, s)" and "NEXT_TID s + 1 < 2 ^ 32"
    and "sys_clone c regs entry fx flags stack parent_tid child_tid tlp m s = (m', s', r)"
  shows "if stack = 0 then m' = m \<and> s' = s \<and> r = -22
    else if NEXT_TID s < MAX_THREADS
    then r = int (NEXT_TID s) \<and> THREADS s (NEXT_TID s) = None \<and> THREADS s' (NEXT_TID s) \<noteq> None \<and>
      (\<forall>d s'. current (CPU_QUEUES s' d) = Some (NEXT_TID s) \<longrightarrow> sys_gettid d s' = r + 1)
    else r = 0 \<and> m' = m \<and> THREADS s' = THREADS s"
proof (cases "stack = 0 \<or> \<not> NEXT_TID s < MAX_THREADS")
  case True
  then show ?thesis
    using assms(3) by (auto simp: sys_clone_def spawn_def Let_def)
next
  case False
  then have n: "\<not> MAX_THREADS \<le> NEXT_TID s"
    by simp
  obtain n where sp: "spawn c regs entry fx (fst regs) stack tlp child_tid parent_tid flags m s = (m', s', n)" "r = int n"
    using assms(3) False by (auto simp: sys_clone_def split: prod.splits)
  note e = spawn_eq [where c = c and regs = regs and entry = entry and fx = fx and fnp = "fst regs" and stack = stack and
      tlp = tlp and child_tid = child_tid and parent_tid = parent_tid and flags = flags and m = m, OF n assms(2) refl, unfolded sp(1)]
  have "\<forall>i. THREADS s i \<noteq> None \<longleftrightarrow> i < min (NEXT_TID s) MAX_THREADS"
    using sched_okD(4) [OF sched_reachable_ok [OF assms(1)]] unfolding slots_ok_def snd_conv by blast
  then have "THREADS s (NEXT_TID s) = None"
    by (metis min_less_iff_conj less_irrefl)
  moreover have "n = NEXT_TID s" "THREADS s' (NEXT_TID s) \<noteq> None"
    using e by (simp_all split: if_splits)
  ultimately show ?thesis
    using False sp(2) by (simp add: sys_gettid_def current_idx_def)
qed

theorem clone_results_witness:
  "snd (snd (sys_clone 0 (0, 0) 0x100000 [] 0 0x1B900000 0 0 0 (fst example_spawn) example_asleep)) = 2"
proof -
  have "sys_clone 0 (0, 0) 0x100000 [] 0 0x1B900000 0 0 0 (fst example_spawn) example_asleep =
      (let r = sys_clone 0 (0, 0) 0x100000 [] 0 0x1B900000 0 0 0 (fst example_spawn) example_asleep in
       (fst r, fst (snd r), snd (snd r)))"
    by simp
  from clone_results [OF example_asleep_reachable _ this [unfolded Let_def]] show ?thesis
    by (simp add: example_asleep_state MAX_THREADS_def)
qed

end
