(* ===== verification/Virtqueue.thy ===== *)
theory Virtqueue
  imports Prelude
begin

text \<open>
  The split virtqueue of the VirtIO driver library (\<open>src/virtio-drivers-patched/src/queue.rs\<close>), with
  the kernel's HAL (\<open>src/src/drivers/virtio/hal.rs\<close>): the descriptor table with its trusted shadow
  copy and free list, direct and indirect chains, the available and used rings, and the layout of the
  three parts in DMA memory.

  Descriptor indices and the ring counters are naturals below \<open>2 ^ 16\<close>, wrapped where the code
  wraps; a slice is its address and length.  The fields of \<open>vring\<close> are the memory shared with the
  device.  \<open>None\<close> is a panic (a failed assertion, an index out of range, an \<open>unwrap\<close> of nothing);
  an \<open>Err\<close> is the left summand.
\<close>

unbundle bit_operations_syntax

section \<open>Data\<close>

datatype virtio_error = QueueFull | NotReady | WrongToken | AlreadyUsed | InvalidParam | DmaError | IoError

datatype BufferDirection = DriverToDevice | DeviceToDriver | Both_Directions

type_synonym slice = "nat \<times> nat"

definition NEXT :: "16 word" where "NEXT = 1"
definition WRITE :: "16 word" where "WRITE = 2"
definition INDIRECT :: "16 word" where "INDIRECT = 4"

record descriptor =
  d_addr :: nat
  d_len :: nat
  d_flags :: "16 word"
  d_next :: nat

definition zero_descriptor :: descriptor where
  "zero_descriptor = \<lparr>d_addr = 0, d_len = 0, d_flags = 0, d_next = 0\<rparr>"

definition contains_flag :: "16 word \<Rightarrow> descriptor \<Rightarrow> bool" where
  "contains_flag f d \<longleftrightarrow> d_flags d AND f = f"

definition remove_flag :: "16 word \<Rightarrow> descriptor \<Rightarrow> descriptor" where
  "remove_flag f d = d\<lparr>d_flags := d_flags d AND NOT f\<rparr>"

record vring =
  desc :: "descriptor list"
  avail_flags :: nat
  avail_ring_idx :: nat
  avail_ring :: "nat list"
  used_event :: nat
  used_flags :: nat
  used_idx :: nat
  used_ring :: "(nat \<times> nat) list"
  avail_event :: nat

record vqueue =
  vring :: vring
  queue_idx :: nat
  num_used :: nat
  free_head :: nat
  desc_shadow :: "descriptor list"
  avail_idx :: nat
  last_used_idx :: nat
  event_idx :: bool
  indirect :: bool
  indirect_lists :: "(nat \<times> descriptor list) option list"

text \<open>The constant \<open>SIZE\<close> of the queue's type.\<close>

definition queue_size :: "vqueue \<Rightarrow> nat" where
  "queue_size q = length (desc_shadow q)"

section \<open>The HAL\<close>

text \<open>\<open>TynHal\<close>: memory is identity-mapped, DMA pages come from a counter and are never freed.\<close>

definition PAGE_SIZE :: nat where "PAGE_SIZE = 0x1000"

definition dma_alloc :: "nat \<Rightarrow> nat \<Rightarrow> nat \<times> nat" where
  "dma_alloc pages dma_paddr = (dma_paddr, wrap64 (dma_paddr + PAGE_SIZE * pages))"

definition share :: "slice \<Rightarrow> BufferDirection \<Rightarrow> nat" where
  "share b dir = fst b"

definition dma_new :: "nat \<Rightarrow> nat \<Rightarrow> (virtio_error + nat) \<times> nat" where
  "dma_new pages dma_paddr =
     (let (paddr, dma_paddr') = dma_alloc pages dma_paddr
      in if paddr = 0 then (Inl DmaError, dma_paddr') else (Inr paddr, dma_paddr'))"

section \<open>Layout\<close>

definition virtio_align_up :: "nat \<Rightarrow> nat" where
  "virtio_align_up n = (n + PAGE_SIZE) div PAGE_SIZE * PAGE_SIZE"

definition pages_for :: "nat \<Rightarrow> nat" where
  "pages_for n = (n + PAGE_SIZE - 1) div PAGE_SIZE"

definition queue_part_sizes :: "nat \<Rightarrow> nat \<times> nat \<times> nat" where
  "queue_part_sizes n = (16 * n, 2 * (3 + n), 2 * 3 + 8 * n)"

datatype vq_layout =
    Legacy (lay_dma: nat) (lay_pages: nat) (lay_avail: nat) (lay_used: nat)
  | Modern (lay_driver_dma: nat) (lay_device_dma: nat) (lay_avail_m: nat)

definition allocate_legacy :: "nat \<Rightarrow> nat \<Rightarrow> (virtio_error + vq_layout) \<times> nat" where
  "allocate_legacy n dma =
     (let (dsc, avl, usd) = queue_part_sizes n;
          total_len = virtio_align_up (dsc + avl) + virtio_align_up usd
      in case dma_new (total_len div PAGE_SIZE) dma of
           (Inl e, dma') \<Rightarrow> (Inl e, dma')
         | (Inr p, dma') \<Rightarrow> (Inr (Legacy p (total_len div PAGE_SIZE) dsc (virtio_align_up (dsc + avl))), dma'))"

definition allocate_flexible :: "nat \<Rightarrow> nat \<Rightarrow> (virtio_error + vq_layout) \<times> nat" where
  "allocate_flexible n dma =
     (let (dsc, avl, usd) = queue_part_sizes n in
      case dma_new (pages_for (dsc + avl)) dma of
        (Inl e, dma1) \<Rightarrow> (Inl e, dma1)
      | (Inr p, dma1) \<Rightarrow>
          (case dma_new (pages_for usd) dma1 of
             (Inl e, dma2) \<Rightarrow> (Inl e, dma2)
           | (Inr u, dma2) \<Rightarrow> (Inr (Modern p u dsc), dma2)))"

fun descriptors_paddr :: "vq_layout \<Rightarrow> nat" where
  "descriptors_paddr (Legacy dma pages avail_offset used_offset) = dma"
| "descriptors_paddr (Modern driver_to_device device_to_driver avail_offset) = driver_to_device"

fun driver_area_paddr :: "vq_layout \<Rightarrow> nat" where
  "driver_area_paddr (Legacy dma pages avail_offset used_offset) = dma + avail_offset"
| "driver_area_paddr (Modern driver_to_device device_to_driver avail_offset) = driver_to_device + avail_offset"

fun device_area_paddr :: "vq_layout \<Rightarrow> nat" where
  "device_area_paddr (Legacy dma pages avail_offset used_offset) = dma + used_offset"
| "device_area_paddr (Modern driver_to_device device_to_driver avail_offset) = device_to_driver"

section \<open>Creation\<close>

text \<open>
  What the queue asks and tells its transport: the answers of \<open>queue_used\<close>, \<open>max_queue_size\<close> and
  \<open>requires_legacy_layout\<close>, the arguments of the calls of \<open>queue_set\<close> and the queues notified.
\<close>

record transport =
  queue_used :: "nat \<Rightarrow> bool"
  max_queue_size :: "nat \<Rightarrow> nat"
  requires_legacy_layout :: bool
  queues_set :: "(nat \<times> nat \<times> nat \<times> nat \<times> nat) list"
  notified :: "nat list"

primrec link_descriptors :: "nat list \<Rightarrow> descriptor list \<Rightarrow> descriptor list" where
  "link_descriptors [] ds = ds"
| "link_descriptors (i # is) ds = link_descriptors is (ds[i := (ds ! i)\<lparr>d_next := i + 1\<rparr>])"

text \<open>\<open>VirtQueue::new\<close> for a queue of \<open>n\<close> entries; \<open>mem\<close> is what the DMA pages hold.\<close>

definition vq_new ::
  "nat \<Rightarrow> nat \<Rightarrow> bool \<Rightarrow> bool \<Rightarrow> vring \<Rightarrow> nat \<Rightarrow> transport \<Rightarrow> (virtio_error + vqueue) \<times> nat \<times> transport" where
  "vq_new n idx ind ev mem dma tr =
     (if queue_used tr idx then (Inl AlreadyUsed, dma, tr)
      else if max_queue_size tr idx < n then (Inl InvalidParam, dma, tr)
      else
        (case (if requires_legacy_layout tr then allocate_legacy n dma else allocate_flexible n dma) of
           (Inl e, dma') \<Rightarrow> (Inl e, dma', tr)
         | (Inr l, dma') \<Rightarrow>
             (Inr \<lparr>vring = mem\<lparr>desc := link_descriptors [0..<n - 1] (desc mem)\<rparr>, queue_idx = idx, num_used = 0,
                   free_head = 0, desc_shadow = link_descriptors [0..<n - 1] (replicate n zero_descriptor),
                   avail_idx = 0, last_used_idx = 0, event_idx = ev, indirect = ind,
                   indirect_lists = replicate n None\<rparr>,
              dma',
              tr\<lparr>queues_set := queues_set tr @ [(idx, n, descriptors_paddr l, driver_area_paddr l, device_area_paddr l)]\<rparr>)))"

section \<open>Adding buffers\<close>

definition set_buf :: "slice \<Rightarrow> BufferDirection \<Rightarrow> 16 word \<Rightarrow> descriptor \<Rightarrow> descriptor option" where
  "set_buf b dir extra_flags d =
     (if 2 ^ 32 \<le> snd b then None
      else
        (case dir of
           DeviceToDriver \<Rightarrow> Some (d\<lparr>d_addr := share b dir, d_len := snd b, d_flags := extra_flags OR WRITE\<rparr>)
         | DriverToDevice \<Rightarrow> Some (d\<lparr>d_addr := share b dir, d_len := snd b, d_flags := extra_flags OR 0\<rparr>)
         | Both_Directions \<Rightarrow> None))"

definition unset_buf :: "descriptor \<Rightarrow> descriptor" where
  "unset_buf d = d\<lparr>d_addr := 0, d_len := 0\<rparr>"

definition descriptor_next :: "descriptor \<Rightarrow> nat option" where
  "descriptor_next d = (if contains_flag NEXT d then Some (d_next d) else None)"

definition input_output_iter :: "slice list \<Rightarrow> slice list \<Rightarrow> (slice \<times> BufferDirection) list" where
  "input_output_iter inputs outputs = map (\<lambda>b. (b, DriverToDevice)) inputs @ map (\<lambda>b. (b, DeviceToDriver)) outputs"

definition write_desc :: "nat \<Rightarrow> vqueue \<Rightarrow> vqueue" where
  "write_desc i q = q\<lparr>vring := (vring q)\<lparr>desc := (desc (vring q))[i := desc_shadow q ! i]\<rparr>\<rparr>"

text \<open>The loop of \<open>add_direct\<close>.\<close>

primrec add_bufs :: "(slice \<times> BufferDirection) list \<Rightarrow> nat \<Rightarrow> vqueue \<Rightarrow> (vqueue \<times> nat) option" where
  "add_bufs [] lst q = Some (q, lst)"
| "add_bufs (x # xs) lst q =
     (let i = free_head q in
      if snd (fst x) = 0 then None
      else if queue_size q \<le> i then None
      else
        (case set_buf (fst x) (snd x) NEXT (desc_shadow q ! i) of
           None \<Rightarrow> None
         | Some d \<Rightarrow>
             add_bufs xs i (write_desc i (q\<lparr>desc_shadow := (desc_shadow q)[i := d], free_head := d_next d\<rparr>))))"

definition add_direct :: "slice list \<Rightarrow> slice list \<Rightarrow> vqueue \<Rightarrow> (vqueue \<times> nat) option" where
  "add_direct inputs outputs q =
     (let head = free_head q in
      case add_bufs (input_output_iter inputs outputs) (free_head q) q of
        None \<Rightarrow> None
      | Some (q1, lst) \<Rightarrow>
          if queue_size q1 \<le> lst then None
          else
            (let q2 = write_desc lst (q1\<lparr>desc_shadow := (desc_shadow q1)[lst := remove_flag NEXT (desc_shadow q1 ! lst)]\<rparr>)
             in Some (q2\<lparr>num_used := (num_used q2 + (length inputs + length outputs)) mod 2 ^ 16\<rparr>, head)))"

text \<open>The descriptors of an indirect list; \<open>i\<close> is the index of the first.\<close>

primrec indirect_descs :: "(slice \<times> BufferDirection) list \<Rightarrow> nat \<Rightarrow> descriptor list option" where
  "indirect_descs [] i = Some []"
| "indirect_descs (x # xs) i =
     (case set_buf (fst x) (snd x) NEXT zero_descriptor of
        None \<Rightarrow> None
      | Some d \<Rightarrow>
          (case indirect_descs xs (i + 1) of
             None \<Rightarrow> None
           | Some ds \<Rightarrow> Some (d\<lparr>d_next := (i + 1) mod 2 ^ 16\<rparr> # ds)))"

text \<open>\<open>add_indirect\<close>; \<open>ptr\<close> is the address of the box allocated for the list.\<close>

definition add_indirect :: "nat \<Rightarrow> slice list \<Rightarrow> slice list \<Rightarrow> vqueue \<Rightarrow> (vqueue \<times> nat) option" where
  "add_indirect ptr inputs outputs q =
     (let head = free_head q in
      case indirect_descs (input_output_iter inputs outputs) 0 of
        None \<Rightarrow> None
      | Some [] \<Rightarrow> None
      | Some ds \<Rightarrow>
          (let lst = butlast ds @ [remove_flag NEXT (last ds)] in
           if queue_size q \<le> head \<or> indirect_lists q ! head \<noteq> None then None
           else
             (case set_buf (ptr, 16 * length lst) DriverToDevice INDIRECT (desc_shadow q ! head) of
                None \<Rightarrow> None
              | Some d \<Rightarrow>
                  (let q1 = write_desc head (q\<lparr>indirect_lists := (indirect_lists q)[head := Some (ptr, lst)],
                              free_head := d_next (desc_shadow q ! head), desc_shadow := (desc_shadow q)[head := d]\<rparr>)
                   in Some (q1\<lparr>num_used := (num_used q1 + 1) mod 2 ^ 16\<rparr>, head)))))"

definition vq_add :: "nat \<Rightarrow> slice list \<Rightarrow> slice list \<Rightarrow> vqueue \<Rightarrow> (vqueue \<times> (virtio_error + nat)) option" where
  "vq_add ptr inputs outputs q =
     (if inputs = [] \<and> outputs = [] then Some (q, Inl InvalidParam)
      else
        (let needed = length inputs + length outputs in
         if queue_size q < num_used q + 1 \<or> queue_size q < needed \<or>
            (\<not> indirect q \<and> queue_size q < num_used q + needed)
         then Some (q, Inl QueueFull)
         else
           (case (if indirect q \<and> 1 < needed then add_indirect ptr inputs outputs q else add_direct inputs outputs q) of
              None \<Rightarrow> None
            | Some (q1, head) \<Rightarrow>
                (let slot = avail_idx q1 AND (queue_size q1 - 1);
                     i = (avail_idx q1 + 1) mod 2 ^ 16
                 in Some (q1\<lparr>vring := (vring q1)\<lparr>avail_ring := (avail_ring (vring q1))[slot := head], avail_ring_idx := i\<rparr>,
                              avail_idx := i\<rparr>, Inr head)))))"

section \<open>Notifications and the used ring\<close>

definition set_dev_notify :: "bool \<Rightarrow> vqueue \<Rightarrow> vqueue" where
  "set_dev_notify enable q =
     (if \<not> event_idx q then q\<lparr>vring := (vring q)\<lparr>avail_flags := (if enable then 0 else 1)\<rparr>\<rparr> else q)"

definition should_notify :: "vqueue \<Rightarrow> bool" where
  "should_notify q =
     (if event_idx q then (avail_event (vring q) + 1) mod 2 ^ 16 \<le> avail_idx q
      else used_flags (vring q) mod 2 = 0)"

definition can_pop :: "vqueue \<Rightarrow> bool" where
  "can_pop q \<longleftrightarrow> last_used_idx q \<noteq> used_idx (vring q)"

definition last_used_slot :: "vqueue \<Rightarrow> nat" where
  "last_used_slot q = last_used_idx q AND (queue_size q - 1)"

definition peek_used :: "vqueue \<Rightarrow> nat option" where
  "peek_used q = (if can_pop q then Some (fst (used_ring (vring q) ! last_used_slot q) mod 2 ^ 16) else None)"

definition available_desc :: "vqueue \<Rightarrow> nat" where
  "available_desc q =
     (if indirect q then (if num_used q = queue_size q then 0 else queue_size q) else queue_size q - num_used q)"

section \<open>Taking buffers back\<close>

definition dec16 :: "nat \<Rightarrow> nat" where
  "dec16 n = (n + (2 ^ 16 - 1)) mod 2 ^ 16"

text \<open>The loop of \<open>recycle_descriptors\<close> over a direct chain; \<open>nxt\<close> is the variable \<open>next\<close>.\<close>

primrec recycle_bufs ::
  "nat \<Rightarrow> (slice \<times> BufferDirection) list \<Rightarrow> nat option \<Rightarrow> vqueue \<Rightarrow> (vqueue \<times> nat option) option" where
  "recycle_bufs original_free_head [] nxt q = Some (q, nxt)"
| "recycle_bufs original_free_head (x # xs) nxt q =
     (if snd (fst x) = 0 then None
      else
        (case nxt of
           None \<Rightarrow> None
         | Some i \<Rightarrow>
             if queue_size q \<le> i then None
             else
               (let d = unset_buf (desc_shadow q ! i);
                    nxt' = descriptor_next d;
                    d' = (if nxt' = None then d\<lparr>d_next := original_free_head\<rparr> else d)
                in recycle_bufs original_free_head xs nxt'
                     (write_desc i (q\<lparr>desc_shadow := (desc_shadow q)[i := d'], num_used := dec16 (num_used q)\<rparr>)))))"

definition recycle_descriptors :: "nat \<Rightarrow> slice list \<Rightarrow> slice list \<Rightarrow> vqueue \<Rightarrow> vqueue option" where
  "recycle_descriptors head inputs outputs q =
     (let original_free_head = free_head q; q1 = q\<lparr>free_head := head\<rparr> in
      if queue_size q1 \<le> head then None
      else if contains_flag INDIRECT (desc_shadow q1 ! head) then
        (case indirect_lists q1 ! head of
           None \<Rightarrow> None
         | Some (ptr, lst) \<Rightarrow>
             if length lst \<noteq> length inputs + length outputs \<or> (\<exists>x\<in>set (input_output_iter inputs outputs). snd (fst x) = 0)
             then None
             else Some (q1\<lparr>indirect_lists := (indirect_lists q1)[head := None],
                     desc_shadow := (desc_shadow q1)[head := (unset_buf (desc_shadow q1 ! head))\<lparr>d_next := original_free_head\<rparr>],
                     num_used := dec16 (num_used q1)\<rparr>))
      else
        (case recycle_bufs original_free_head (input_output_iter inputs outputs) (Some head) q1 of
           None \<Rightarrow> None
         | Some (q2, nxt) \<Rightarrow> if nxt \<noteq> None then None else Some q2))"

definition pop_used :: "nat \<Rightarrow> slice list \<Rightarrow> slice list \<Rightarrow> vqueue \<Rightarrow> (vqueue \<times> (virtio_error + nat)) option" where
  "pop_used token inputs outputs q =
     (if \<not> can_pop q then Some (q, Inl NotReady)
      else
        (let (i, n) = used_ring (vring q) ! last_used_slot q in
         if i mod 2 ^ 16 \<noteq> token then Some (q, Inl WrongToken)
         else
           (case recycle_descriptors (i mod 2 ^ 16) inputs outputs q of
              None \<Rightarrow> None
            | Some q1 \<Rightarrow>
                (let j = (last_used_idx q1 + 1) mod 2 ^ 16;
                     q2 = q1\<lparr>last_used_idx := j\<rparr>;
                     q3 = (if event_idx q2 then q2\<lparr>vring := (vring q2)\<lparr>used_event := j\<rparr>\<rparr> else q2)
                 in Some (q3, Inr n)))))"

end
