(* ===== verification/Virtio_Net.thy ===== *)
theory Virtio_Net
  imports Virtqueue "HOL-Library.Monad_Syntax"
begin

text \<open>
  The network driver on the virtqueues: the raw driver and the buffered driver of the VirtIO library
  (\<open>dev_raw.rs\<close>, \<open>dev.rs\<close>, \<open>net_buf.rs\<close> and \<open>mod.rs\<close> of
  \<open>src/virtio-drivers-patched/src/device/net\<close>), the owning queue
  (\<open>src/virtio-drivers-patched/src/queue/owning.rs\<close>), and the kernel's device for its TCP/IP stack
  (\<open>src/src/net/device.rs\<close>).

  An operation that panics has the value \<open>None\<close>; an \<open>Err\<close> is the left summand.  A chain of one
  buffer never needs an indirect list, so \<open>vq_add\<close> is given the address 0 for it.
\<close>

section \<open>Headers and buffers\<close>

definition MIN_BUFFER_LEN :: nat where "MIN_BUFFER_LEN = 1526"
definition QUEUE_RECEIVE :: nat where "QUEUE_RECEIVE = 0"
definition QUEUE_TRANSMIT :: nat where "QUEUE_TRANSMIT = 1"

text \<open>The sizes of \<open>VirtioNetHdrLegacy\<close> and \<open>VirtioNetHdr\<close>.\<close>

definition hdr_size :: "bool \<Rightarrow> nat" where
  "hdr_size legacy_header = (if legacy_header then 10 else 12)"

record rx_buffer =
  rx_addr :: nat
  rx_len :: nat
  packet_len :: nat
  rx_idx :: nat

text \<open>\<open>RxBuffer::new\<close>: a vector of 8-byte words, at the address \<open>a\<close>.\<close>

definition rx_buffer_new :: "nat \<Rightarrow> nat \<Rightarrow> nat \<Rightarrow> rx_buffer option" where
  "rx_buffer_new a i buf_len =
     (if 2 ^ 16 \<le> i then None else Some \<lparr>rx_addr = a, rx_len = buf_len div 8 * 8, packet_len = 0, rx_idx = i\<rparr>)"

definition rx_bytes :: "rx_buffer \<Rightarrow> slice" where
  "rx_bytes b = (rx_addr b, rx_len b)"

definition set_packet_len :: "nat \<Rightarrow> rx_buffer \<Rightarrow> rx_buffer" where
  "set_packet_len n b = b\<lparr>packet_len := n\<rparr>"

text \<open>\<open>packet\<close>: the slice after the header, a panic when it exceeds the buffer.\<close>

definition rx_packet :: "bool \<Rightarrow> memory \<Rightarrow> rx_buffer \<Rightarrow> bytes option" where
  "rx_packet legacy mem b =
     (if rx_len b < hdr_size legacy + packet_len b then None
      else Some (mem_read mem (rx_addr b + hdr_size legacy) (packet_len b)))"

section \<open>The raw driver\<close>

record net_raw =
  transport :: transport
  mac :: bytes
  recv_queue :: vqueue
  send_queue :: vqueue
  legacy_header :: bool

definition transport_notify :: "nat \<Rightarrow> transport \<Rightarrow> transport" where
  "transport_notify i tr = tr\<lparr>notified := notified tr @ [i]\<rparr>"

text \<open>
  \<open>VirtIONetRaw::new\<close> for queues of \<open>n\<close> entries, after the negotiation of features: \<open>ind\<close>, \<open>ev\<close>,
  \<open>v1\<close> and \<open>mrg\<close> say whether \<open>RING_INDIRECT_DESC\<close>, \<open>RING_EVENT_IDX\<close>, \<open>VERSION_1\<close> and \<open>MRG_RXBUF\<close>
  were negotiated.
\<close>

definition net_raw_new ::
  "nat \<Rightarrow> bool \<Rightarrow> bool \<Rightarrow> bool \<Rightarrow> bool \<Rightarrow> bytes \<Rightarrow> vring \<Rightarrow> vring \<Rightarrow> nat \<Rightarrow> transport \<Rightarrow> (virtio_error + net_raw) \<times> nat" where
  "net_raw_new n ind ev v1 mrg mac_addr send_mem recv_mem dma tr =
     (case vq_new n QUEUE_TRANSMIT ind ev send_mem dma tr of
        (Inl e, dma1, tr1) \<Rightarrow> (Inl e, dma1)
      | (Inr sq, dma1, tr1) \<Rightarrow>
          (case vq_new n QUEUE_RECEIVE ind ev recv_mem dma1 tr1 of
             (Inl e, dma2, tr2) \<Rightarrow> (Inl e, dma2)
           | (Inr rq, dma2, tr2) \<Rightarrow>
               (Inr \<lparr>transport = tr2, mac = mac_addr, recv_queue = rq, send_queue = sq, legacy_header = (\<not> v1 \<and> \<not> mrg)\<rparr>, dma2)))"

definition disable_interrupts :: "net_raw \<Rightarrow> net_raw" where
  "disable_interrupts r = r\<lparr>send_queue := set_dev_notify False (send_queue r), recv_queue := set_dev_notify False (recv_queue r)\<rparr>"

definition enable_interrupts :: "net_raw \<Rightarrow> net_raw" where
  "enable_interrupts r = r\<lparr>send_queue := set_dev_notify True (send_queue r), recv_queue := set_dev_notify True (recv_queue r)\<rparr>"

definition can_send :: "net_raw \<Rightarrow> bool" where
  "can_send r \<longleftrightarrow> 2 \<le> available_desc (send_queue r)"

definition fill_buffer_header :: "net_raw \<Rightarrow> bytes \<Rightarrow> virtio_error + (bytes \<times> nat)" where
  "fill_buffer_header r buf =
     (let n = hdr_size (legacy_header r)
      in if length buf < n then Inl InvalidParam else Inr (replicate n 0 @ drop n buf, n))"

definition transmit_begin :: "slice \<Rightarrow> net_raw \<Rightarrow> (net_raw \<times> (virtio_error + nat)) option" where
  "transmit_begin tx_buf r =
     (if snd tx_buf < hdr_size (legacy_header r) then Some (r, Inl InvalidParam)
      else
        (case vq_add 0 [tx_buf] [] (send_queue r) of
           None \<Rightarrow> None
         | Some (q, Inl e) \<Rightarrow> Some (r\<lparr>send_queue := q\<rparr>, Inl e)
         | Some (q, Inr token) \<Rightarrow>
             Some (r\<lparr>send_queue := q,
                     transport := (if should_notify q then transport_notify QUEUE_TRANSMIT (transport r) else transport r)\<rparr>,
                   Inr token)))"

definition poll_transmit :: "net_raw \<Rightarrow> nat option" where
  "poll_transmit r = peek_used (send_queue r)"

definition transmit_complete :: "nat \<Rightarrow> slice \<Rightarrow> net_raw \<Rightarrow> (net_raw \<times> (virtio_error + nat)) option" where
  "transmit_complete token tx_buf r =
     (case pop_used token [tx_buf] [] (send_queue r) of
        None \<Rightarrow> None
      | Some (q, res) \<Rightarrow> Some (r\<lparr>send_queue := q\<rparr>, res))"

definition receive_begin :: "slice \<Rightarrow> net_raw \<Rightarrow> (net_raw \<times> (virtio_error + nat)) option" where
  "receive_begin rx_buf r =
     (if snd rx_buf < MIN_BUFFER_LEN then Some (r, Inl InvalidParam)
      else
        (case vq_add 0 [] [rx_buf] (recv_queue r) of
           None \<Rightarrow> None
         | Some (q, Inl e) \<Rightarrow> Some (r\<lparr>recv_queue := q\<rparr>, Inl e)
         | Some (q, Inr token) \<Rightarrow>
             Some (r\<lparr>recv_queue := q,
                     transport := (if should_notify q then transport_notify QUEUE_RECEIVE (transport r) else transport r)\<rparr>,
                   Inr token)))"

definition poll_receive :: "net_raw \<Rightarrow> nat option" where
  "poll_receive r = peek_used (recv_queue r)"

definition receive_complete :: "nat \<Rightarrow> slice \<Rightarrow> net_raw \<Rightarrow> (net_raw \<times> (virtio_error + (nat \<times> nat))) option" where
  "receive_complete token rx_buf r =
     (case pop_used token [] [rx_buf] (recv_queue r) of
        None \<Rightarrow> None
      | Some (q, Inl e) \<Rightarrow> Some (r\<lparr>recv_queue := q\<rparr>, Inl e)
      | Some (q, Inr n) \<Rightarrow>
          Some (r\<lparr>recv_queue := q\<rparr>,
                if n < hdr_size (legacy_header r) then Inl IoError
                else Inr (hdr_size (legacy_header r), n - hdr_size (legacy_header r))))"

text \<open>
  \<open>add_notify_wait_pop\<close>: \<open>dev\<close> is what the device does to the shared memory during one turn of the
  waiting loop.  The outer option is \<open>None\<close> when the loop does not end.
\<close>

partial_function (option) wait_can_pop :: "(vring \<Rightarrow> vring) \<Rightarrow> vqueue \<Rightarrow> vqueue option" where
  "wait_can_pop dev q = (if can_pop q then Some q else wait_can_pop dev (q\<lparr>vring := dev (vring q)\<rparr>))"

definition add_notify_wait_pop ::
  "nat \<Rightarrow> (vring \<Rightarrow> vring) \<Rightarrow> slice list \<Rightarrow> slice list \<Rightarrow> transport \<Rightarrow> vqueue \<Rightarrow>
   ((transport \<times> vqueue) \<times> (virtio_error + nat)) option option" where
  "add_notify_wait_pop ptr dev inputs outputs tr q =
     (case vq_add ptr inputs outputs q of
        None \<Rightarrow> Some None
      | Some (q1, Inl e) \<Rightarrow> Some (Some ((tr, q1), Inl e))
      | Some (q1, Inr token) \<Rightarrow>
          (let tr1 = (if should_notify q1 then transport_notify (queue_idx q1) tr else tr) in
           do {
             q2 \<leftarrow> wait_can_pop dev q1;
             Some (map_option (\<lambda>(q3, res). ((tr1, q3), res)) (pop_used token inputs outputs q2))
           }))"

text \<open>\<open>send\<close>: the header lives at the address \<open>h\<close>; an empty packet is sent as the header alone.\<close>

definition net_raw_send :: "nat \<Rightarrow> nat \<Rightarrow> (vring \<Rightarrow> vring) \<Rightarrow> slice \<Rightarrow> net_raw \<Rightarrow> (net_raw \<times> (virtio_error + unit)) option option" where
  "net_raw_send ptr h dev tx_buf r =
     map_option (map_option (\<lambda>((tr, q), res). (r\<lparr>transport := tr, send_queue := q\<rparr>, map_sum id (\<lambda>_. ()) res)))
       (add_notify_wait_pop ptr dev
          (if snd tx_buf = 0 then [(h, hdr_size (legacy_header r))] else [(h, hdr_size (legacy_header r)), tx_buf]) []
          (transport r) (send_queue r))"

definition receive_wait :: "(vring \<Rightarrow> vring) \<Rightarrow> slice \<Rightarrow> net_raw \<Rightarrow> (net_raw \<times> (virtio_error + (nat \<times> nat))) option option" where
  "receive_wait dev rx_buf r =
     (case receive_begin rx_buf r of
        None \<Rightarrow> Some None
      | Some (r1, Inl e) \<Rightarrow> Some (Some (r1, Inl e))
      | Some (r1, Inr token) \<Rightarrow>
          do {
            q \<leftarrow> wait_can_pop dev (recv_queue r1);
            Some (receive_complete token rx_buf (r1\<lparr>recv_queue := q\<rparr>))
          })"

section \<open>The buffered driver\<close>

record virtio_net =
  raw :: net_raw
  rx_buffers :: "rx_buffer option list"

text \<open>The loop of \<open>VirtIONet::new\<close> over the free places; \<open>addrs\<close> are the addresses of the buffers.\<close>

primrec fill_rx :: "nat \<Rightarrow> nat list \<Rightarrow> nat \<Rightarrow> virtio_net \<Rightarrow> (virtio_error + virtio_net) option" where
  "fill_rx buf_len [] i d = Some (Inr d)"
| "fill_rx buf_len (a # addrs) i d =
     (case rx_buffer_new a i buf_len of
        None \<Rightarrow> None
      | Some b \<Rightarrow>
          (case receive_begin (rx_bytes b) (raw d) of
             None \<Rightarrow> None
           | Some (r, Inl e) \<Rightarrow> Some (Inl e)
           | Some (r, Inr token) \<Rightarrow>
               if token \<noteq> i mod 2 ^ 16 then None
               else fill_rx buf_len addrs (i + 1) \<lparr>raw = r, rx_buffers = (rx_buffers d)[i := Some b]\<rparr>))"

definition virtio_net_new :: "nat \<Rightarrow> nat list \<Rightarrow> net_raw \<Rightarrow> (virtio_error + virtio_net) option" where
  "virtio_net_new buf_len addrs r = fill_rx buf_len addrs 0 \<lparr>raw = r, rx_buffers = replicate (length addrs) None\<rparr>"

definition can_recv :: "virtio_net \<Rightarrow> bool" where
  "can_recv d \<longleftrightarrow> poll_receive (raw d) \<noteq> None"

text \<open>The buffer leaves its place before the checks, and is dropped when one of them fails.\<close>

definition net_receive :: "virtio_net \<Rightarrow> (virtio_net \<times> (virtio_error + rx_buffer)) option" where
  "net_receive d =
     (case poll_receive (raw d) of
        None \<Rightarrow> Some (d, Inl NotReady)
      | Some token \<Rightarrow>
          if length (rx_buffers d) \<le> token then None
          else
            (case rx_buffers d ! token of
               None \<Rightarrow> Some (d, Inl WrongToken)
             | Some b \<Rightarrow>
                 (let d1 = d\<lparr>rx_buffers := (rx_buffers d)[token := None]\<rparr> in
                  if token \<noteq> rx_idx b then Some (d1, Inl WrongToken)
                  else
                    (case receive_complete token (rx_bytes b) (raw d1) of
                       None \<Rightarrow> None
                     | Some (r, Inl e) \<Rightarrow> Some (d1\<lparr>raw := r\<rparr>, Inl e)
                     | Some (r, Inr (hdr_len, pkt_len)) \<Rightarrow> Some (d1\<lparr>raw := r\<rparr>, Inr (set_packet_len pkt_len b))))))"

definition recycle_rx_buffer :: "rx_buffer \<Rightarrow> virtio_net \<Rightarrow> (virtio_net \<times> (virtio_error + unit)) option" where
  "recycle_rx_buffer b d =
     (case receive_begin (rx_bytes b) (raw d) of
        None \<Rightarrow> None
      | Some (r, Inl e) \<Rightarrow> Some (d\<lparr>raw := r\<rparr>, Inl e)
      | Some (r, Inr token) \<Rightarrow>
          if length (rx_buffers d) \<le> token then None
          else if rx_buffers d ! token \<noteq> None then Some (d\<lparr>raw := r\<rparr>, Inl WrongToken)
          else Some (\<lparr>raw = r, rx_buffers = (rx_buffers d)[token := Some (b\<lparr>rx_idx := token\<rparr>)]\<rparr>, Inr ()))"

section \<open>The kernel's device\<close>

record net_device =
  inner :: virtio_net
  pending_tx :: "(nat \<times> slice) list"

definition net_device_new :: "virtio_net \<Rightarrow> net_device" where
  "net_device_new d = \<lparr>inner = d, pending_tx = []\<rparr>"

text \<open>
  \<open>drain_completed_tx\<close>.  The outer option is \<open>None\<close> when the loop does not end, the inner one when it
  panics.  The result of \<open>transmit_complete\<close> is ignored.  The used ring does not change during the loop:
  what the device completes meanwhile is found by the next call.
\<close>

partial_function (option) drain_completed_tx :: "net_device \<Rightarrow> net_device option option" where
  "drain_completed_tx d =
     (case poll_transmit (raw (inner d)) of
        None \<Rightarrow> Some (Some d)
      | Some token \<Rightarrow>
          (case position (\<lambda>p. fst p = token) (pending_tx d) of
             None \<Rightarrow> drain_completed_tx d
           | Some i \<Rightarrow>
               (case transmit_complete token (snd (pending_tx d ! i)) (raw (inner d)) of
                  None \<Rightarrow> Some None
                | Some (r, res) \<Rightarrow>
                    drain_completed_tx \<lparr>inner = (inner d)\<lparr>raw := r\<rparr>, pending_tx = take i (pending_tx d) @ drop (Suc i) (pending_tx d)\<rparr>)))"

text \<open>\<open>Device::receive\<close>: the packet is copied out and the buffer goes back to the queue.\<close>

definition device_receive :: "memory \<Rightarrow> net_device \<Rightarrow> (net_device \<times> bytes option) option" where
  "device_receive mem d =
     (case net_receive (inner d) of
        None \<Rightarrow> None
      | Some (n, Inl e) \<Rightarrow> Some (d\<lparr>inner := n\<rparr>, None)
      | Some (n, Inr b) \<Rightarrow>
          (case rx_packet (legacy_header (raw n)) mem b of
             None \<Rightarrow> None
           | Some packet \<Rightarrow>
               (case recycle_rx_buffer b n of
                  None \<Rightarrow> None
                | Some (n', Inl e) \<Rightarrow> None
                | Some (n', Inr _) \<Rightarrow> Some (d\<lparr>inner := n'\<rparr>, Some packet))))"

text \<open>
  \<open>TxToken::consume\<close>: \<open>frame\<close> is what the closure writes, \<open>a\<close> the address of the vector that holds the
  header and the frame.  The result gives the memory with that vector in it.
\<close>

definition device_transmit :: "nat \<Rightarrow> bytes \<Rightarrow> memory \<Rightarrow> net_device \<Rightarrow> (memory \<times> net_device) option option" where
  "device_transmit a frame mem d =
     do {
       drained \<leftarrow> drain_completed_tx d;
       Some (case drained of
           None \<Rightarrow> None
         | Some d1 \<Rightarrow>
             (let r = raw (inner d1);
                  hdr_len = (case fill_buffer_header r (replicate 32 0) of Inl e \<Rightarrow> 12 | Inr (bs, n) \<Rightarrow> n);
                  buf = replicate (hdr_len + length frame) 0
              in case fill_buffer_header r buf of
                   Inl e \<Rightarrow> None
                 | Inr (buf', n) \<Rightarrow>
                     (let bs = take hdr_len buf' @ frame;
                          mem' = mem_write mem a bs
                      in case transmit_begin (a, length bs) r of
                           None \<Rightarrow> None
                         | Some (r', Inl e) \<Rightarrow> Some (mem', d1\<lparr>inner := (inner d1)\<lparr>raw := r'\<rparr>\<rparr>)
                         | Some (r', Inr token) \<Rightarrow>
                             Some (mem', \<lparr>inner = (inner d1)\<lparr>raw := r'\<rparr>, pending_tx = pending_tx d1 @ [(token, (a, length bs))]\<rparr>))))
     }"

section \<open>The owning queue\<close>

text \<open>\<open>OwningQueue\<close>: one buffer of \<open>BUFFER_SIZE\<close> bytes for each descriptor; \<open>buffers\<close> are their addresses.\<close>

record owning_queue =
  oq_queue :: vqueue
  buffers :: "nat list"
  buffer_size :: nat

primrec owning_fill :: "nat \<Rightarrow> nat list \<Rightarrow> nat \<Rightarrow> vqueue \<Rightarrow> (virtio_error + vqueue) option" where
  "owning_fill bsize [] i q = Some (Inr q)"
| "owning_fill bsize (a # as) i q =
     (case vq_add 0 [] [(a, bsize)] q of
        None \<Rightarrow> None
      | Some (q', Inl e) \<Rightarrow> Some (Inl e)
      | Some (q', Inr token) \<Rightarrow> if token \<noteq> i then None else owning_fill bsize as (i + 1) q')"

definition owning_new :: "nat \<Rightarrow> nat list \<Rightarrow> vqueue \<Rightarrow> (virtio_error + owning_queue) option" where
  "owning_new bsize addrs q =
     (case owning_fill bsize addrs 0 q of
        None \<Rightarrow> None
      | Some (Inl e) \<Rightarrow> Some (Inl e)
      | Some (Inr q') \<Rightarrow> Some (Inr \<lparr>oq_queue = q', buffers = addrs, buffer_size = bsize\<rparr>))"

definition add_buffer_to_queue :: "nat \<Rightarrow> transport \<Rightarrow> owning_queue \<Rightarrow> ((transport \<times> owning_queue) \<times> (virtio_error + unit)) option" where
  "add_buffer_to_queue i tr oq =
     (if length (buffers oq) \<le> i then Some ((tr, oq), Inl WrongToken)
      else
        (case vq_add 0 [] [(buffers oq ! i, buffer_size oq)] (oq_queue oq) of
           None \<Rightarrow> None
         | Some (q, Inl e) \<Rightarrow> Some ((tr, oq\<lparr>oq_queue := q\<rparr>), Inl e)
         | Some (q, Inr new_token) \<Rightarrow>
             if new_token \<noteq> i then None
             else Some ((if should_notify q then transport_notify (queue_idx q) tr else tr, oq\<lparr>oq_queue := q\<rparr>), Inr ())))"

definition owning_pop :: "memory \<Rightarrow> owning_queue \<Rightarrow> (owning_queue \<times> (virtio_error + (bytes \<times> nat) option)) option" where
  "owning_pop mem oq =
     (case peek_used (oq_queue oq) of
        None \<Rightarrow> Some (oq, Inr None)
      | Some token \<Rightarrow>
          if length (buffers oq) \<le> token then None
          else
            (case pop_used token [] [(buffers oq ! token, buffer_size oq)] (oq_queue oq) of
               None \<Rightarrow> None
             | Some (q, Inl e) \<Rightarrow> Some (oq\<lparr>oq_queue := q\<rparr>, Inl e)
             | Some (q, Inr n) \<Rightarrow>
                 if buffer_size oq < n then None
                 else Some (oq\<lparr>oq_queue := q\<rparr>, Inr (Some (mem_read mem (buffers oq ! token) n, token)))))"

definition owning_poll ::
  "(bytes \<Rightarrow> virtio_error + 'a option) \<Rightarrow> memory \<Rightarrow> transport \<Rightarrow> owning_queue \<Rightarrow>
   ((transport \<times> owning_queue) \<times> (virtio_error + 'a option)) option" where
  "owning_poll handler mem tr oq =
     (case owning_pop mem oq of
        None \<Rightarrow> None
      | Some (o1, Inl e) \<Rightarrow> Some ((tr, o1), Inl e)
      | Some (o1, Inr None) \<Rightarrow> Some ((tr, o1), Inr None)
      | Some (o1, Inr (Some (buffer, token))) \<Rightarrow>
          (let result = handler buffer in
           case add_buffer_to_queue token tr o1 of
             None \<Rightarrow> None
           | Some ((tr', o2), Inl e) \<Rightarrow> Some ((tr', o2), Inl e)
           | Some ((tr', o2), Inr _) \<Rightarrow> Some ((tr', o2), result)))"

end
