(* ===== verification/Virtqueue_Invariant.thy ===== *)
theory Virtqueue_Invariant
  imports Virtqueue
begin

text \<open>
  The ownership invariant of a virtqueue: at any time the descriptors are divided among the free
  list and the chains of the buffers that are with the device.  The invariant speaks of the trusted
  shadow table only, so whatever the device writes to the shared memory keeps it.
\<close>

section \<open>Flags\<close>

definition buf_flags :: "BufferDirection \<Rightarrow> 16 word" where
  "buf_flags dir = (if dir = DeviceToDriver then WRITE else 0)"

lemma flag_bits:
  "(NEXT OR buf_flags dir) AND NEXT = NEXT" "(0 OR buf_flags dir) AND NEXT \<noteq> NEXT"
  "(NEXT OR buf_flags dir) AND NOT NEXT = buf_flags dir"
  "(NEXT OR buf_flags dir) AND INDIRECT \<noteq> INDIRECT" "buf_flags dir AND INDIRECT \<noteq> INDIRECT"
  "buf_flags dir AND NEXT \<noteq> NEXT" "INDIRECT AND INDIRECT = INDIRECT" "INDIRECT AND NEXT \<noteq> NEXT"
  "(NEXT OR buf_flags dir) AND WRITE = buf_flags dir" "buf_flags dir AND WRITE = buf_flags dir"
  by (simp_all add: buf_flags_def NEXT_def WRITE_def INDIRECT_def)

definition filled :: "slice \<times> BufferDirection \<Rightarrow> 16 word \<Rightarrow> descriptor \<Rightarrow> descriptor" where
  "filled x f d = d\<lparr>d_addr := fst (fst x), d_len := snd (fst x), d_flags := f OR buf_flags (snd x)\<rparr>"

definition valid_bufs :: "(slice \<times> BufferDirection) list \<Rightarrow> bool" where
  "valid_bufs xs \<longleftrightarrow> (\<forall>x\<in>set xs. 0 < snd (fst x) \<and> snd (fst x) < 2 ^ 32 \<and> snd x \<noteq> Both_Directions)"

lemma valid_bufs_Cons [simp]:
  "valid_bufs (x # xs) \<longleftrightarrow> 0 < snd (fst x) \<and> snd (fst x) < 2 ^ 32 \<and> snd x \<noteq> Both_Directions \<and> valid_bufs xs"
  by (auto simp: valid_bufs_def)

lemma set_buf_filled: "snd (fst x) < 2 ^ 32 \<Longrightarrow> snd x \<noteq> Both_Directions \<Longrightarrow> set_buf (fst x) (snd x) f d = Some (filled x f d)"
  by (cases "snd x") (simp_all add: set_buf_def filled_def buf_flags_def share_def)

lemma filled_next [simp]: "d_next (filled x f d) = d_next d"
  by (simp add: filled_def)

lemma input_output_iter_valid:
  "valid_bufs (input_output_iter ins outs) \<longleftrightarrow> (\<forall>b\<in>set (ins @ outs). 0 < snd b \<and> snd b < 2 ^ 32)"
  by (simp add: valid_bufs_def input_output_iter_def ball_Un)

lemma input_output_iter_length [simp]: "length (input_output_iter ins outs) = length ins + length outs"
  by (simp add: input_output_iter_def)

section \<open>Linked descriptors\<close>

fun linked :: "descriptor list \<Rightarrow> nat list \<Rightarrow> bool" where
  "linked ds (i # j # is) \<longleftrightarrow> d_next (ds ! i) = j \<and> linked ds (j # is)"
| "linked ds _ \<longleftrightarrow> True"

lemma linked_tl: "linked ds (i # is) \<Longrightarrow> linked ds is"
  by (cases "is") simp_all

lemma linked_hd: "linked ds (i # is) \<Longrightarrow> is \<noteq> [] \<Longrightarrow> d_next (ds ! i) = hd is"
  by (cases "is") simp_all

lemma linked_cong: "(\<And>i. i \<in> set is \<Longrightarrow> d_next (ds' ! i) = d_next (ds ! i)) \<Longrightarrow> linked ds' is = linked ds is"
  by (induction ds "is" rule: linked.induct) simp_all

lemma linked_append:
  "linked ds (xs @ ys) \<longleftrightarrow> linked ds xs \<and> linked ds ys \<and> (xs \<noteq> [] \<longrightarrow> ys \<noteq> [] \<longrightarrow> d_next (ds ! last xs) = hd ys)"
  by (induction ds xs rule: linked.induct; cases ys) auto

text \<open>A chain of descriptors that describes a list of buffers.\<close>

definition described :: "slice \<times> BufferDirection \<Rightarrow> bool \<Rightarrow> descriptor \<Rightarrow> bool" where
  "described x cont d \<longleftrightarrow>
     d_addr d = fst (fst x) \<and> d_len d = snd (fst x) \<and> d_flags d = (if cont then NEXT else 0) OR buf_flags (snd x)"

fun chain_ok :: "descriptor list \<Rightarrow> nat list \<Rightarrow> (slice \<times> BufferDirection) list \<Rightarrow> bool" where
  "chain_ok ds [i] [x] \<longleftrightarrow> described x False (ds ! i)"
| "chain_ok ds (i # j # is) (x # xs) \<longleftrightarrow> described x True (ds ! i) \<and> d_next (ds ! i) = j \<and> chain_ok ds (j # is) xs"
| "chain_ok ds _ _ \<longleftrightarrow> False"

lemma chain_ok_length: "chain_ok ds c xs \<Longrightarrow> length c = length xs \<and> c \<noteq> []"
  by (induction ds c xs rule: chain_ok.induct) auto

lemma chain_ok_linked: "chain_ok ds c xs \<Longrightarrow> linked ds c"
  by (induction ds c xs rule: chain_ok.induct) auto

lemma chain_ok_cong: "(\<And>i. i \<in> set c \<Longrightarrow> ds' ! i = ds ! i) \<Longrightarrow> chain_ok ds' c xs = chain_ok ds c xs"
  by (induction ds c xs rule: chain_ok.induct) auto

lemma chain_okI:
  "length c = length xs \<Longrightarrow> c \<noteq> [] \<Longrightarrow> linked ds c \<Longrightarrow>
   (\<And>k. k < length c \<Longrightarrow> described (xs ! k) (Suc k < length c) (ds ! (c ! k))) \<Longrightarrow> chain_ok ds c xs"
proof (induction ds c xs rule: chain_ok.induct)
  case (2 ds i j "is" x xs)
  have "described x True (ds ! i)"
    using 2(5) [of 0] by simp
  moreover have "chain_ok ds (j # is) xs"
  proof (rule 2(1))
    show "described (xs ! k) (Suc k < length (j # is)) (ds ! ((j # is) ! k))" if "k < length (j # is)" for k
      using 2(5) [of "Suc k"] that by simp
  qed (use 2 in simp_all)
  ultimately show ?case
    using 2(4) by simp
qed auto

lemma chain_ok_head: "chain_ok ds c xs \<Longrightarrow> \<not> contains_flag INDIRECT (ds ! hd c)"
  by (cases "(ds, c, xs)" rule: chain_ok.cases) (auto simp: described_def contains_flag_def flag_bits)

section \<open>The loops\<close>

lemma add_bufs_chain:
  "valid_bufs xs \<Longrightarrow> linked (desc_shadow q) (c @ rest) \<Longrightarrow> distinct (c @ rest) \<Longrightarrow> (\<forall>i\<in>set c. i < queue_size q) \<Longrightarrow>
   length c = length xs \<Longrightarrow> (c @ rest \<noteq> [] \<longrightarrow> free_head q = hd (c @ rest)) \<Longrightarrow>
   length (desc (vring q)) = queue_size q \<Longrightarrow>
   \<exists>ds' fh' dm'. add_bufs xs lst q =
       Some (q\<lparr>desc_shadow := ds', free_head := fh', vring := (vring q)\<lparr>desc := dm'\<rparr>\<rparr>, last (lst # c)) \<and>
     length ds' = queue_size q \<and> length dm' = queue_size q \<and>
     (\<forall>i. i \<notin> set c \<longrightarrow> ds' ! i = desc_shadow q ! i \<and> dm' ! i = desc (vring q) ! i) \<and>
     (\<forall>i\<in>set c. dm' ! i = ds' ! i) \<and>
     (\<forall>k<length c. ds' ! (c ! k) = filled (xs ! k) NEXT (desc_shadow q ! (c ! k))) \<and>
     (rest \<noteq> [] \<longrightarrow> fh' = hd rest)"
proof (induction xs arbitrary: c lst q)
  case Nil
  then show ?case
    by (intro exI [of _ "desc_shadow q"] exI [of _ "free_head q"] exI [of _ "desc (vring q)"]) (simp add: queue_size_def)
next
  case (Cons x xs)
  then obtain i c' where c: "c = i # c'"
    by (cases c) auto
  have i: "i = free_head q" "i < queue_size q" "i \<notin> set c'"
    using Cons.prems(3,4,6) by (simp_all add: c)
  define d where "d = filled x NEXT (desc_shadow q ! i)"
  define q1 where "q1 = write_desc i (q\<lparr>desc_shadow := (desc_shadow q)[i := d], free_head := d_next d\<rparr>)"
  have run: "add_bufs (x # xs) lst q = add_bufs xs i q1"
    using Cons.prems(1) i by (simp add: q1_def d_def set_buf_filled Let_def)
  have q1: "desc_shadow q1 = (desc_shadow q)[i := d]" "desc (vring q1) = (desc (vring q))[i := d]" "free_head q1 = d_next (desc_shadow q ! i)"
      "queue_size q1 = queue_size q"
    using i by (simp_all add: q1_def write_desc_def d_def queue_size_def)
  have keep: "desc_shadow q1 ! j = desc_shadow q ! j" if "j \<noteq> i" for j
    using that by (simp add: q1)
  have l: "linked (desc_shadow q1) (c' @ rest)"
  proof -
    have "d_next (desc_shadow q1 ! j) = d_next (desc_shadow q ! j)" if "j \<in> set (c' @ rest)" for j
    proof -
      have "j \<noteq> i"
        using that Cons.prems(3) by (auto simp: c)
      then show ?thesis
        by (simp add: keep)
    qed
    then show ?thesis
      using linked_cong [of "c' @ rest" "desc_shadow q1" "desc_shadow q"] linked_tl Cons.prems(2) by (simp add: c)
  qed
  have fh: "c' @ rest \<noteq> [] \<longrightarrow> free_head q1 = hd (c' @ rest)"
    using linked_hd [of "desc_shadow q" i "c' @ rest"] Cons.prems(2) by (simp add: c q1)
  have "\<exists>ds' fh' dm'. add_bufs xs i q1 =
       Some (q1\<lparr>desc_shadow := ds', free_head := fh', vring := (vring q1)\<lparr>desc := dm'\<rparr>\<rparr>, last (i # c')) \<and>
     length ds' = queue_size q1 \<and> length dm' = queue_size q1 \<and>
     (\<forall>j. j \<notin> set c' \<longrightarrow> ds' ! j = desc_shadow q1 ! j \<and> dm' ! j = desc (vring q1) ! j) \<and>
     (\<forall>j\<in>set c'. dm' ! j = ds' ! j) \<and>
     (\<forall>k<length c'. ds' ! (c' ! k) = filled (xs ! k) NEXT (desc_shadow q1 ! (c' ! k))) \<and>
     (rest \<noteq> [] \<longrightarrow> fh' = hd rest)"
    by (rule Cons.IH [OF _ l _ _ _ fh]) (use Cons.prems in \<open>simp_all add: c q1\<close>)
  then obtain ds' fh' dm' where r0: "add_bufs xs i q1 =
       Some (q1\<lparr>desc_shadow := ds', free_head := fh', vring := (vring q1)\<lparr>desc := dm'\<rparr>\<rparr>, last (i # c'))"
     "length ds' = queue_size q1" "length dm' = queue_size q1"
     "\<forall>j. j \<notin> set c' \<longrightarrow> ds' ! j = desc_shadow q1 ! j \<and> dm' ! j = desc (vring q1) ! j"
     "\<forall>j\<in>set c'. dm' ! j = ds' ! j"
     "\<forall>k<length c'. ds' ! (c' ! k) = filled (xs ! k) NEXT (desc_shadow q1 ! (c' ! k))"
     "rest \<noteq> [] \<longrightarrow> fh' = hd rest"
    by blast
  note r = r0(1-3) r0(4-6) [rule_format] r0(7)
  have ne: "c' ! k \<noteq> i" if "k < length c'" for k
    using that i(3) nth_mem by metis
  have di: "ds' ! i = d" "dm' ! i = d"
    using r(4) [OF i(3)] i(2) Cons.prems(7) by (simp_all add: q1 queue_size_def)
  have f1: "ds' ! (c ! k) = filled ((x # xs) ! k) NEXT (desc_shadow q ! (c ! k))" if "k < length c" for k
  proof (cases k)
    case 0
    then show ?thesis
      by (simp add: c di d_def)
  next
    case (Suc k')
    then show ?thesis
      using r(6) [of k'] ne [of k'] keep that by (simp add: c)
  qed
  have f2: "q1\<lparr>desc_shadow := ds', free_head := fh', vring := (vring q1)\<lparr>desc := dm'\<rparr>\<rparr> =
      q\<lparr>desc_shadow := ds', free_head := fh', vring := (vring q)\<lparr>desc := dm'\<rparr>\<rparr>"
    by (simp add: q1_def write_desc_def)
  have f3: "ds' ! j = desc_shadow q ! j \<and> dm' ! j = desc (vring q) ! j" if "j \<notin> set c" for j
    using r(4) [of j] that by (simp add: c q1)
  have f4: "dm' ! j = ds' ! j" if "j \<in> set c" for j
    using r(5) [of j] that di by (cases "j = i") (simp_all add: c)
  have "add_bufs (x # xs) lst q =
      Some (q\<lparr>desc_shadow := ds', free_head := fh', vring := (vring q)\<lparr>desc := dm'\<rparr>\<rparr>, last (lst # c))"
    unfolding run r(1) f2 c by simp
  with r(2,3,7) f1 f3 f4 show ?case
    unfolding q1(4) by metis
qed

lemma dec16_pos: "0 < n \<Longrightarrow> n < 2 ^ 16 \<Longrightarrow> dec16 n = n - 1"
proof -
  assume "0 < n" "n < 2 ^ 16"
  then have "n + (2 ^ 16 - 1) = (n - 1) + 2 ^ 16" "n - 1 < 2 ^ 16"
    by simp_all
  then show ?thesis
    unfolding dec16_def by (metis mod_add_self2 mod_less)
qed

lemma recycle_chain:
  "chain_ok (desc_shadow q) c xs \<Longrightarrow> valid_bufs xs \<Longrightarrow> distinct c \<Longrightarrow> (\<forall>i\<in>set c. i < queue_size q) \<Longrightarrow>
   length c \<le> num_used q \<Longrightarrow> num_used q < 2 ^ 16 \<Longrightarrow>
   \<exists>ds' dm'. recycle_bufs orig xs (Some (hd c)) q =
       Some (q\<lparr>desc_shadow := ds', num_used := num_used q - length c, vring := (vring q)\<lparr>desc := dm'\<rparr>\<rparr>, None) \<and>
     length ds' = queue_size q \<and> length dm' = length (desc (vring q)) \<and>
     (\<forall>i. i \<notin> set c \<longrightarrow> ds' ! i = desc_shadow q ! i) \<and> linked ds' c \<and> d_next (ds' ! last c) = orig"
proof (induction xs arbitrary: c q)
  case Nil
  then show ?case
    by (cases c) auto
next
  case (Cons x xs)
  then obtain i c' where c: "c = i # c'"
    by (cases c) auto
  have i: "i < queue_size q" "i \<notin> set c'" "length c' = length xs"
    using Cons.prems(3,4) chain_ok_length [OF Cons.prems(1)] by (simp_all add: c)
  define cont where "cont = (c' \<noteq> [])"
  have dsc: "described x cont (desc_shadow q ! i)"
    using Cons.prems(1) by (cases c'; cases xs) (simp_all add: c cont_def)
  have nx: "descriptor_next (unset_buf (desc_shadow q ! i)) = (if cont then Some (hd c') else None)"
  proof -
    have "contains_flag NEXT (unset_buf (desc_shadow q ! i)) \<longleftrightarrow> cont"
      using dsc by (simp add: contains_flag_def unset_buf_def described_def flag_bits)
    moreover have "d_next (desc_shadow q ! i) = hd c'" if cont
      using chain_ok_linked [OF Cons.prems(1)] that linked_hd by (simp add: c cont_def)
    ultimately show ?thesis
      by (simp add: descriptor_next_def unset_buf_def)
  qed
  define d where "d = (if cont then unset_buf (desc_shadow q ! i) else (unset_buf (desc_shadow q ! i))\<lparr>d_next := orig\<rparr>)"
  define q1 where "q1 = write_desc i (q\<lparr>desc_shadow := (desc_shadow q)[i := d], num_used := num_used q - 1\<rparr>)"
  have run: "recycle_bufs orig (x # xs) (Some (hd c)) q = recycle_bufs orig xs (if cont then Some (hd c') else None) q1"
    using Cons.prems(2,5,6) i(1) dec16_pos [of "num_used q"] by (simp add: c nx q1_def d_def Let_def)
  have q1: "desc_shadow q1 = (desc_shadow q)[i := d]" "num_used q1 = num_used q - 1" "queue_size q1 = queue_size q"
      "length (desc (vring q1)) = length (desc (vring q))"
    by (simp_all add: q1_def write_desc_def queue_size_def)
  show ?case
  proof (cases cont)
    case False
    then have e: "c' = []" "xs = []"
      using i(3) by (simp_all add: cont_def)
    show ?thesis
      unfolding run using False i(1)
      by (intro exI [of _ "(desc_shadow q)[i := d]"] exI [of _ "(desc (vring q))[i := d]"])
         (simp add: e c q1_def write_desc_def queue_size_def d_def)
  next
    case True
    have ch: "chain_ok (desc_shadow q1) c' xs"
    proof -
      have "chain_ok (desc_shadow q) c' xs"
        using Cons.prems(1) True by (cases c') (simp_all add: c cont_def)
      then show ?thesis
        using chain_ok_cong [of c' "desc_shadow q1" "desc_shadow q" xs] i(2) by (metis nth_list_update_neq q1(1))
    qed
    have "\<exists>ds' dm'. recycle_bufs orig xs (Some (hd c')) q1 =
       Some (q1\<lparr>desc_shadow := ds', num_used := num_used q1 - length c', vring := (vring q1)\<lparr>desc := dm'\<rparr>\<rparr>, None) \<and>
     length ds' = queue_size q1 \<and> length dm' = length (desc (vring q1)) \<and>
     (\<forall>i. i \<notin> set c' \<longrightarrow> ds' ! i = desc_shadow q1 ! i) \<and> linked ds' c' \<and> d_next (ds' ! last c') = orig"
      by (rule Cons.IH [OF ch]) (use Cons.prems in \<open>auto simp: c q1\<close>)
    then obtain ds' dm' where r: "recycle_bufs orig xs (Some (hd c')) q1 =
       Some (q1\<lparr>desc_shadow := ds', num_used := num_used q1 - length c', vring := (vring q1)\<lparr>desc := dm'\<rparr>\<rparr>, None)"
       "length ds' = queue_size q1" "length dm' = length (desc (vring q1))"
       "\<forall>i. i \<notin> set c' \<longrightarrow> ds' ! i = desc_shadow q1 ! i" "linked ds' c'" "d_next (ds' ! last c') = orig"
      by blast
    have "d_next (ds' ! i) = hd c'"
    proof -
      have "ds' ! i = d"
        using r(4) i by (simp add: q1 queue_size_def)
      then show ?thesis
        using chain_ok_linked [OF Cons.prems(1)] True linked_hd [of "desc_shadow q" i c']
        by (simp add: d_def unset_buf_def c cont_def)
    qed
    then have "linked ds' c"
      using r(5) True by (cases c') (simp_all add: c cont_def)
    moreover have "q1\<lparr>desc_shadow := ds', num_used := num_used q1 - length c', vring := (vring q1)\<lparr>desc := dm'\<rparr>\<rparr> =
        q\<lparr>desc_shadow := ds', num_used := num_used q - length c, vring := (vring q)\<lparr>desc := dm'\<rparr>\<rparr>"
      by (simp add: q1_def write_desc_def c)
    moreover have "ds' ! j = desc_shadow q ! j" if "j \<notin> set c" for j
      using r(4) that by (simp add: c q1)
    ultimately show ?thesis
      unfolding run using r(1,2,3,6) True q1 by (intro exI [of _ ds'] exI [of _ dm']) (simp add: c cont_def)
  qed
qed

section \<open>The invariant\<close>

definition vq_shape :: "vqueue \<Rightarrow> bool" where
  "vq_shape q \<longleftrightarrow> (\<exists>k. queue_size q = 2 ^ k) \<and> queue_size q < 2 ^ 16 \<and> length (indirect_lists q) = queue_size q \<and>
     length (desc (vring q)) = queue_size q \<and> length (avail_ring (vring q)) = queue_size q \<and>
     length (used_ring (vring q)) = queue_size q \<and> avail_idx q < 2 ^ 16 \<and> last_used_idx q < 2 ^ 16"

text \<open>
  A chain that is with the device: linked descriptors of the table, or one descriptor that refers to
  an indirect list.
\<close>

definition held_chain :: "vqueue \<Rightarrow> nat list \<Rightarrow> (slice \<times> BufferDirection) list \<Rightarrow> bool" where
  "held_chain q c xs \<longleftrightarrow>
     chain_ok (desc_shadow q) c xs \<and> indirect_lists q ! hd c = None \<or>
     (\<exists>h ptr lst. c = [h] \<and> indirect_lists q ! h = Some (ptr, lst) \<and> length lst = length xs \<and> chain_ok lst [0..<length xs] xs \<and>
        d_flags (desc_shadow q ! h) = INDIRECT \<and> d_addr (desc_shadow q ! h) = ptr \<and> d_len (desc_shadow q ! h) = 16 * length lst)"

lemma held_chain_cong:
  assumes "\<And>i. i \<in> set c \<Longrightarrow> desc_shadow q' ! i = desc_shadow q ! i" "indirect_lists q' ! hd c = indirect_lists q ! hd c"
  shows "held_chain q' c xs = held_chain q c xs"
proof -
  have "chain_ok (desc_shadow q') c xs = chain_ok (desc_shadow q) c xs"
    by (rule chain_ok_cong) (rule assms(1))
  then show ?thesis
    using assms by (auto simp: held_chain_def)
qed

type_synonym outstanding = "nat \<Rightarrow> (slice list \<times> slice list) option"

text \<open>
  \<open>out\<close> gives the buffers behind each token, \<open>fl\<close> the free list and \<open>ch\<close> the chain of each token.
\<close>

definition vq_inv :: "vqueue \<Rightarrow> outstanding \<Rightarrow> nat list \<Rightarrow> (nat \<Rightarrow> nat list) \<Rightarrow> bool" where
  "vq_inv q out fl ch \<longleftrightarrow>
     vq_shape q \<and> linked (desc_shadow q) fl \<and> (fl \<noteq> [] \<longrightarrow> free_head q = hd fl) \<and> distinct fl \<and>
     num_used q + length fl = queue_size q \<and>
     (\<forall>t. out t = None \<longrightarrow> ch t = []) \<and>
     (\<forall>t ins outs. out t = Some (ins, outs) \<longrightarrow> ch t \<noteq> [] \<and> hd (ch t) = t \<and> distinct (ch t) \<and>
        held_chain q (ch t) (input_output_iter ins outs) \<and> valid_bufs (input_output_iter ins outs)) \<and>
     (\<forall>t<queue_size q. out t = None \<longrightarrow> indirect_lists q ! t = None) \<and>
     (\<forall>t. set fl \<inter> set (ch t) = {}) \<and> (\<forall>t u. t \<noteq> u \<longrightarrow> set (ch t) \<inter> set (ch u) = {}) \<and>
     set fl \<union> (\<Union>t. set (ch t)) = {..<queue_size q}"

lemma vq_invD:
  assumes "vq_inv q out fl ch"
  shows "vq_shape q" "linked (desc_shadow q) fl" "fl \<noteq> [] \<Longrightarrow> free_head q = hd fl" "distinct fl"
    "num_used q + length fl = queue_size q" "out t = None \<Longrightarrow> ch t = []"
    "out t = Some (ins, outs) \<Longrightarrow> ch t \<noteq> [] \<and> hd (ch t) = t \<and> distinct (ch t) \<and>
       held_chain q (ch t) (input_output_iter ins outs) \<and> valid_bufs (input_output_iter ins outs)"
    "t < queue_size q \<Longrightarrow> out t = None \<Longrightarrow> indirect_lists q ! t = None"
    "set fl \<inter> set (ch t) = {}" "t \<noteq> u \<Longrightarrow> set (ch t) \<inter> set (ch u) = {}"
    "set fl \<union> (\<Union>t. set (ch t)) = {..<queue_size q}"
  using assms unfolding vq_inv_def by simp_all

lemma vq_inv_less:
  assumes "vq_inv q out fl ch" shows "i \<in> set fl \<Longrightarrow> i < queue_size q" "i \<in> set (ch t) \<Longrightarrow> i < queue_size q"
  using vq_invD(11) [OF assms] by blast+

lemma vq_inv_free: "vq_inv q out fl ch \<Longrightarrow> i \<in> set fl \<Longrightarrow> out i = None"
  using vq_invD(7,9) by (metis disjoint_iff hd_in_set not_None_eq prod.exhaust)

lemma vq_inv_chain_length:
  assumes "vq_inv q out fl ch" "out t = Some (ins, outs)"
  shows "length (ch t) \<le> num_used q"
proof -
  note D = vq_invD [OF assms(1)]
  have "set fl \<union> set (ch t) \<subseteq> {..<queue_size q}"
    using D(11) by blast
  then have "card (set fl \<union> set (ch t)) \<le> queue_size q"
    using card_mono [of "{..<queue_size q}" "set fl \<union> set (ch t)"] by simp
  moreover have "card (set fl \<union> set (ch t)) = length fl + length (ch t)"
    using D(4) D(7) [OF assms(2)] D(9) by (simp add: card_Un_disjoint distinct_card)
  ultimately show ?thesis
    using D(5) by simp
qed

text \<open>Descriptors move from the free list to a chain, and back.\<close>

lemma vq_inv_give:
  assumes inv: "vq_inv q out (c @ rest) ch" and c: "c \<noteq> []"
    and q': "vq_shape q'" "queue_size q' = queue_size q" "num_used q' = num_used q + length c"
      "rest \<noteq> [] \<Longrightarrow> free_head q' = hd rest"
    and keep: "\<And>i. i \<notin> set c \<Longrightarrow> desc_shadow q' ! i = desc_shadow q ! i"
      "\<And>i. i \<noteq> hd c \<Longrightarrow> indirect_lists q' ! i = indirect_lists q ! i"
    and held: "held_chain q' c (input_output_iter ins outs)" "valid_bufs (input_output_iter ins outs)"
  shows "vq_inv q' (out(hd c \<mapsto> (ins, outs))) rest (ch(hd c := c))"
proof -
  note D = vq_invD [OF inv]
  have h: "hd c \<in> set c" "out (hd c) = None"
    using c vq_inv_free [OF inv] by auto
  have dis: "set c \<inter> set (ch t) = {}" "set rest \<inter> set (ch t) = {}" "set c \<inter> set rest = {}" for t
    using D(9) [of t] D(4) by auto
  have "linked (desc_shadow q') rest"
  proof -
    have "d_next (desc_shadow q' ! i) = d_next (desc_shadow q ! i)" if "i \<in> set rest" for i
      using keep(1) [of i] that dis(3) by (metis disjoint_iff)
    then show ?thesis
      using linked_cong [of rest "desc_shadow q'" "desc_shadow q"] D(2) by (simp add: linked_append)
  qed
  moreover have "held_chain q' (ch t) (input_output_iter ins' outs')" if t: "out t = Some (ins', outs')" "t \<noteq> hd c" for t ins' outs'
  proof -
    have "desc_shadow q' ! i = desc_shadow q ! i" if "i \<in> set (ch t)" for i
      using keep(1) [of i] that dis(1) [of t] by (metis disjoint_iff)
    then show ?thesis
      using held_chain_cong [of "ch t" q' q] keep(2) [of t] D(7) [OF t(1)] t(2) by simp
  qed
  moreover have "indirect_lists q' ! t = None" if "t < queue_size q'" "(out(hd c \<mapsto> (ins, outs))) t = None" for t
    using keep(2) [of t] D(8) [of t] that q'(2) by (auto split: if_splits)
  moreover have "set rest \<union> (\<Union>t. set ((ch(hd c := c)) t)) = {..<queue_size q'}"
  proof -
    have "(\<Union>t. set ((ch(hd c := c)) t)) = set c \<union> (\<Union>t. set (ch t))"
      using D(6) [OF h(2)] by (auto split: if_splits) (metis empty_iff list.set(1))
    then show ?thesis
      using D(11) q'(2) by auto
  qed
  moreover have "set rest \<inter> set ((ch(hd c := c)) t) = {}" for t
    using dis(2) [of t] dis(3) by auto
  moreover have "set ((ch(hd c := c)) t) \<inter> set ((ch(hd c := c)) u) = {}" if "t \<noteq> u" for t u
    using D(10) [OF that] dis(1) [of t] dis(1) [of u] that by auto
  ultimately show ?thesis
    unfolding vq_inv_def using D(4-7) q' c held by (auto split: if_splits)
qed

lemma vq_inv_take:
  assumes inv: "vq_inv q out fl ch" and t: "out t = Some (ins, outs)" and c: "c = ch t"
    and q': "vq_shape q'" "queue_size q' = queue_size q" "num_used q' = num_used q - length c" "free_head q' = t"
    and keep: "\<And>i. i \<notin> set c \<Longrightarrow> desc_shadow q' ! i = desc_shadow q ! i"
      "\<And>i. i \<noteq> t \<Longrightarrow> indirect_lists q' ! i = indirect_lists q ! i" "indirect_lists q' ! t = None"
    and lnk: "linked (desc_shadow q') c" "d_next (desc_shadow q' ! last c) = free_head q"
  shows "vq_inv q' (out(t := None)) (c @ fl) (ch(t := []))"
proof -
  note D = vq_invD [OF inv]
  have ct: "c \<noteq> []" "hd c = t" "distinct c"
    using D(7) [OF t] by (simp_all add: c)
  have dis: "set fl \<inter> set c = {}" "\<And>u. u \<noteq> t \<Longrightarrow> set c \<inter> set (ch u) = {}"
    using D(9) [of t] D(10) [of t] by (auto simp: c)
  have "linked (desc_shadow q') fl"
  proof -
    have "d_next (desc_shadow q' ! i) = d_next (desc_shadow q ! i)" if "i \<in> set fl" for i
      using keep(1) [of i] that dis(1) by (metis disjoint_iff)
    then show ?thesis
      using linked_cong [of fl "desc_shadow q'" "desc_shadow q"] D(2) by simp
  qed
  then have "linked (desc_shadow q') (c @ fl)"
    using lnk D(3) by (simp add: linked_append)
  moreover have "held_chain q' (ch u) (input_output_iter ins' outs')" if u: "out u = Some (ins', outs')" "u \<noteq> t" for u ins' outs'
  proof -
    have "desc_shadow q' ! i = desc_shadow q ! i" if "i \<in> set (ch u)" for i
      using keep(1) [of i] that dis(2) [OF u(2)] by (metis disjoint_iff)
    then show ?thesis
      using held_chain_cong [of "ch u" q' q] keep(2) [of u] D(7) [OF u(1)] u(2) by simp
  qed
  moreover have "indirect_lists q' ! u = None" if "u < queue_size q'" "(out(t := None)) u = None" for u
    using keep(2) [of u] keep(3) D(8) [of u] that q'(2) by (cases "u = t") simp_all
  moreover have "set (c @ fl) \<union> (\<Union>u. set ((ch(t := [])) u)) = {..<queue_size q'}"
  proof -
    have "(\<Union>u. set (ch u)) = set c \<union> (\<Union>u. set ((ch(t := [])) u))"
      by (auto simp: c split: if_splits)
    then show ?thesis
      using D(11) q'(2) by auto
  qed
  moreover have "num_used q' + length (c @ fl) = queue_size q'"
    using vq_inv_chain_length [OF inv t] D(5) q'(2,3) by (simp add: c)
  moreover have "set (c @ fl) \<inter> set ((ch(t := [])) u) = {}" for u
    using dis(2) [of u] D(9) [of u] by auto
  ultimately show ?thesis
    unfolding vq_inv_def using D q'(1,4) ct dis(1) by (auto split: if_splits)
qed

end
