(* ===== verification/Virtqueue_Properties.thy ===== *)
theory Virtqueue_Properties
  imports Virtqueue_Invariant
begin

text \<open>
  Every operation on a virtqueue keeps the ownership invariant, whatever the device does to the
  shared memory; what the device finds when it follows a chain; and the layout in DMA memory.
\<close>

section \<open>What the device reads\<close>

definition device_view :: "slice \<times> BufferDirection \<Rightarrow> nat \<times> nat \<times> bool" where
  "device_view x = (fst (fst x), snd (fst x), snd x = DeviceToDriver)"

primrec device_walk :: "descriptor list \<Rightarrow> nat \<Rightarrow> nat \<Rightarrow> (nat \<times> nat \<times> bool) list option" where
  "device_walk ds 0 i = None"
| "device_walk ds (Suc n) i =
     (if length ds \<le> i then None
      else
        (let d = ds ! i; v = (d_addr d, d_len d, contains_flag WRITE d) in
         case descriptor_next d of
           None \<Rightarrow> Some [v]
         | Some j \<Rightarrow> map_option ((#) v) (device_walk ds n j)))"

text \<open>
  The buffers of the chain with a given head, in the device's view: a walk of the table of at most
  as many steps as it has entries, or of the indirect list the head refers to.
\<close>

definition device_read :: "vqueue \<Rightarrow> nat \<Rightarrow> (nat \<times> nat \<times> bool) list option" where
  "device_read q h =
     (let ds = desc (vring q); d = ds ! h in
      if length ds \<le> h then None
      else if contains_flag INDIRECT d then
        (case indirect_lists q ! h of
           None \<Rightarrow> None
         | Some (ptr, lst) \<Rightarrow> if d_addr d = ptr \<and> d_len d = 16 * length lst then device_walk lst (length lst) 0 else None)
      else device_walk ds (length ds) h)"

lemma described_view: "described x cont d \<Longrightarrow> (d_addr d, d_len d, contains_flag WRITE d) = device_view x"
proof -
  have "d_flags d = (if cont then NEXT else 0) OR buf_flags (snd x) \<Longrightarrow> contains_flag WRITE d \<longleftrightarrow> snd x = DeviceToDriver"
    by (cases cont; cases "snd x = DeviceToDriver") (simp_all add: contains_flag_def buf_flags_def WRITE_def NEXT_def)
  then show "described x cont d \<Longrightarrow> ?thesis"
    by (auto simp: described_def device_view_def)
qed

lemma described_next: "described x cont d \<Longrightarrow> descriptor_next d = (if cont then Some (d_next d) else None)"
  by (simp add: described_def descriptor_next_def contains_flag_def flag_bits)

lemma device_walk_chain:
  "chain_ok ds c xs \<Longrightarrow> (\<forall>i\<in>set c. i < length ds) \<Longrightarrow> length c \<le> n \<Longrightarrow>
   device_walk ds n (hd c) = Some (map device_view xs)"
proof (induction ds c xs arbitrary: n rule: chain_ok.induct)
  case (1 ds i x)
  then show ?case
    using described_view [of x False] described_next [of x False] by (cases n) simp_all
next
  case (2 ds i j "is" x xs)
  then show ?case
    using described_view [of x True] described_next [of x True] by (cases n) simp_all
qed simp_all

lemma chain_ok_upt:
  assumes "length ds = length xs" "xs \<noteq> []"
    and "\<And>k. k < length xs \<Longrightarrow> described (xs ! k) (Suc k < length xs) (ds ! k) \<and> (Suc k < length xs \<longrightarrow> d_next (ds ! k) = Suc k)"
  shows "chain_ok ds [0..<length xs] xs"
proof (rule chain_okI)
  have "linked ds [m..<n]" if "n \<le> length xs" for m n
    using that
  proof (induction "n - m" arbitrary: m)
    case (Suc d)
    then have mn: "m < n"
      by simp
    show ?case
    proof (cases "Suc m < n")
      case True
      then have "[m..<n] = m # Suc m # [Suc (Suc m)..<n]" "[Suc m..<n] = Suc m # [Suc (Suc m)..<n]"
        using mn by (simp_all add: upt_conv_Cons)
      then show ?thesis
        using Suc.hyps(1) [of "Suc m"] Suc.hyps(2) Suc.prems assms(3) [of m] True by simp
    next
      case False
      then have "[m..<n] = [m]"
        using mn by (simp add: upt_conv_Cons)
      then show ?thesis
        by simp
    qed
  qed simp
  then show "linked ds [0..<length xs]"
    by simp
qed (use assms in simp_all)

lemma indirect_descs_spec:
  "valid_bufs xs \<Longrightarrow> \<exists>ds. indirect_descs xs i = Some ds \<and> length ds = length xs \<and>
     (\<forall>k<length xs. ds ! k = (filled (xs ! k) NEXT zero_descriptor)\<lparr>d_next := (i + k + 1) mod 2 ^ 16\<rparr>)"
proof (induction xs arbitrary: i)
  case (Cons x xs)
  then obtain ds where ds: "indirect_descs xs (i + 1) = Some ds" "length ds = length xs"
      "\<forall>k<length xs. ds ! k = (filled (xs ! k) NEXT zero_descriptor)\<lparr>d_next := (i + 1 + k + 1) mod 2 ^ 16\<rparr>"
    by (metis valid_bufs_Cons)
  let ?d = "(filled x NEXT zero_descriptor)\<lparr>d_next := (i + 1) mod 2 ^ 16\<rparr>"
  have "(?d # ds) ! k = (filled ((x # xs) ! k) NEXT zero_descriptor)\<lparr>d_next := (i + k + 1) mod 2 ^ 16\<rparr>"
    if "k < length (x # xs)" for k
    using ds(3) that by (cases k) simp_all
  then show ?case
    using Cons.prems ds(1,2) by (intro exI [of _ "?d # ds"]) (simp add: set_buf_filled)
qed simp

section \<open>Adding\<close>

lemma remove_flag_fields [simp]:
  "d_addr (remove_flag f d) = d_addr d" "d_len (remove_flag f d) = d_len d" "d_next (remove_flag f d) = d_next d"
  "d_flags (remove_flag f d) = d_flags d AND NOT f"
  by (simp_all add: remove_flag_def)

lemma described_filled:
  "described x True (filled x NEXT d)" "described x False (remove_flag NEXT (filled x NEXT d))"
  "described x True ((filled x NEXT d)\<lparr>d_next := n\<rparr>)" "described x False (remove_flag NEXT ((filled x NEXT d)\<lparr>d_next := n\<rparr>))"
  by (simp_all add: described_def filled_def flag_bits)

text \<open>A filled chain whose last \<open>NEXT\<close> flag has been removed.\<close>

lemma chain_ok_filled:
  assumes c: "distinct c" "c \<noteq> []" "length c = length xs" "\<forall>i\<in>set c. i < length ds"
    and l: "linked ds c" and ds': "length ds' = length ds" "\<And>k. k < length c \<Longrightarrow> ds' ! (c ! k) = filled (xs ! k) NEXT (ds ! (c ! k))"
  shows "chain_ok (ds'[last c := remove_flag NEXT (ds' ! last c)]) c xs"
proof (rule chain_okI [OF c(3,2)])
  let ?ds = "ds'[last c := remove_flag NEXT (ds' ! last c)]"
  have last: "last c = c ! (length c - 1)" "last c < length ds'"
    using c(2,4) ds'(1) by (simp_all add: last_conv_nth)
  have at: "?ds ! (c ! k) = (if Suc k < length c then ds' ! (c ! k) else remove_flag NEXT (ds' ! (c ! k)))" if "k < length c" for k
  proof (cases "Suc k < length c")
    case True
    then have "c ! k \<noteq> c ! (length c - 1)"
      using c(1) that by (simp add: nth_eq_iff_index_eq)
    then show ?thesis
      using True last(1) by simp
  next
    case False
    then have "k = length c - 1"
      using that by simp
    then show ?thesis
      using False last by simp
  qed
  show "described (xs ! k) (Suc k < length c) (?ds ! (c ! k))" if "k < length c" for k
    unfolding at [OF that] ds'(2) [OF that] by (simp add: described_filled)
  have "d_next (?ds ! i) = d_next (ds ! i)" if i: "i \<in> set c" for i
  proof -
    obtain k where "k < length c" "i = c ! k"
      using i by (auto simp: in_set_conv_nth)
    then show ?thesis
      using at [of k] ds'(2) [of k] by simp
  qed
  then show "linked ?ds c"
    using linked_cong [of c ?ds ds] l by simp
qed

lemma vq_shape_less: "vq_shape q \<Longrightarrow> n \<le> queue_size q \<Longrightarrow> n mod 2 ^ 16 = n"
  by (simp add: vq_shape_def)

lemma add_direct_ok:
  assumes inv: "vq_inv q out fl ch" and xs: "xs = input_output_iter ins outs" "valid_bufs xs" "xs \<noteq> []" "length xs \<le> length fl"
    and c: "c = take (length xs) fl" and rest: "rest = drop (length xs) fl"
  shows "\<exists>ds' fh' dm'. add_direct ins outs q =
      Some (q\<lparr>desc_shadow := ds', free_head := fh', vring := (vring q)\<lparr>desc := dm'\<rparr>, num_used := num_used q + length c\<rparr>, hd fl) \<and>
    length ds' = queue_size q \<and> length dm' = queue_size q \<and> (\<forall>i. i \<notin> set c \<longrightarrow> ds' ! i = desc_shadow q ! i) \<and>
    (\<forall>i\<in>set c. dm' ! i = ds' ! i) \<and> chain_ok ds' c xs \<and> (rest \<noteq> [] \<longrightarrow> fh' = hd rest)"
proof -
  note D = vq_invD [OF inv]
  have fl: "fl = c @ rest" "length c = length xs" "c \<noteq> []"
    using xs(3,4) by (auto simp: c rest)
  have less: "\<forall>i\<in>set c. i < queue_size q"
    using vq_inv_less(1) [OF inv] by (auto simp: fl(1))
  have hd: "free_head q = hd fl" "hd fl = hd c"
    using D(3) fl(1,3) by auto
  have sz: "length (desc (vring q)) = queue_size q"
    using D(1) by (simp add: vq_shape_def)
  obtain ds' fh' dm' where r: "add_bufs xs (free_head q) q =
       Some (q\<lparr>desc_shadow := ds', free_head := fh', vring := (vring q)\<lparr>desc := dm'\<rparr>\<rparr>, last (free_head q # c))"
     "length ds' = queue_size q" "length dm' = queue_size q"
     "\<forall>i. i \<notin> set c \<longrightarrow> ds' ! i = desc_shadow q ! i \<and> dm' ! i = desc (vring q) ! i"
     "\<forall>i\<in>set c. dm' ! i = ds' ! i"
     "\<forall>k<length c. ds' ! (c ! k) = filled (xs ! k) NEXT (desc_shadow q ! (c ! k))"
     "rest \<noteq> [] \<longrightarrow> fh' = hd rest"
    using add_bufs_chain [of xs q c rest "free_head q"] xs(2) D(2,4) fl hd less sz by auto
  let ?l = "last c"
  have l: "?l \<in> set c" "?l < queue_size q" "last (free_head q # c) = ?l"
    using fl(3) less by auto
  let ?d = "remove_flag NEXT (ds' ! ?l)"
  have nu: "(num_used q + (length ins + length outs)) mod 2 ^ 16 = num_used q + length c"
  proof -
    have "num_used q + length c \<le> queue_size q" "length ins + length outs = length c"
      using D(5) fl xs(1) by simp_all
    then show ?thesis
      using vq_shape_less [OF D(1)] by simp
  qed
  have run: "add_direct ins outs q = Some (q\<lparr>desc_shadow := ds'[?l := ?d], free_head := fh',
      vring := (vring q)\<lparr>desc := dm'[?l := ?d]\<rparr>, num_used := num_used q + length c\<rparr>, hd fl)"
    unfolding add_direct_def Let_def xs(1) [symmetric] r(1) l(3)
    using l(2) r(2) nu by (simp add: write_desc_def queue_size_def hd(1))
  have "chain_ok (ds'[?l := ?d]) c xs"
    by (rule chain_ok_filled [of _ _ "desc_shadow q"])
       (use fl D(2,4) less r(2,6) in \<open>simp_all add: linked_append queue_size_def\<close>)
  moreover have "dm'[?l := ?d] ! i = ds'[?l := ?d] ! i" if "i \<in> set c" for i
    using r(2,3,5) that l(2) by (cases "i = ?l") simp_all
  moreover have "ds'[?l := ?d] ! i = desc_shadow q ! i" if "i \<notin> set c" for i
    using r(4) that l(1) by (metis nth_list_update_neq)
  ultimately show ?thesis
    using run r(2,3,7) by (intro exI [of _ "ds'[?l := ?d]"] exI [of _ fh'] exI [of _ "dm'[?l := ?d]"]) simp
qed

lemma add_indirect_ok:
  assumes inv: "vq_inv q out fl ch" and xs: "xs = input_output_iter ins outs" "valid_bufs xs" "xs \<noteq> []" "length xs \<le> queue_size q"
    and fl: "fl = h # rest"
  shows "\<exists>d lst. add_indirect ptr ins outs q =
      Some (q\<lparr>desc_shadow := (desc_shadow q)[h := d], free_head := d_next (desc_shadow q ! h),
        vring := (vring q)\<lparr>desc := (desc (vring q))[h := d]\<rparr>, num_used := num_used q + 1,
        indirect_lists := (indirect_lists q)[h := Some (ptr, lst)]\<rparr>, h) \<and>
    d_flags d = INDIRECT \<and> d_addr d = ptr \<and> d_len d = 16 * length lst \<and> length lst = length xs \<and> chain_ok lst [0..<length xs] xs"
proof -
  note D = vq_invD [OF inv]
  have h: "free_head q = h" "h < queue_size q" "out h = None"
    using D(3) vq_inv_less(1) [OF inv, of h] vq_inv_free [OF inv, of h] by (auto simp: fl)
  obtain ds where ds: "indirect_descs xs 0 = Some ds" "length ds = length xs"
      "\<forall>k<length xs. ds ! k = (filled (xs ! k) NEXT zero_descriptor)\<lparr>d_next := (0 + k + 1) mod 2 ^ 16\<rparr>"
    using indirect_descs_spec [OF xs(2), of 0] by blast
  have ne: "ds \<noteq> []"
    using ds(2) xs(3) by auto
  define lst where "lst = butlast ds @ [remove_flag NEXT (last ds)]"
  have len: "length lst = length xs"
    using xs(3) ds(2) by (cases xs) (simp_all add: lst_def)
  have small: "length xs < 2 ^ 16"
    using xs(4) D(1) by (simp add: vq_shape_def)
  have at: "lst ! k = (if Suc k < length xs then ds ! k else remove_flag NEXT (ds ! k))" if "k < length xs" for k
    using that ds(2) ne by (auto simp: lst_def nth_append nth_butlast last_conv_nth less_Suc_eq intro: arg_cong [of _ _ "\<lambda>k. remove_flag NEXT (ds ! k)"])
  have "chain_ok lst [0..<length xs] xs"
  proof (rule chain_ok_upt [OF len xs(3)], intro conjI impI)
    fix k assume k: "k < length xs"
    show "described (xs ! k) (Suc k < length xs) (lst ! k)"
      unfolding at [OF k] using ds(3) k by (simp add: described_filled)
    show "d_next (lst ! k) = Suc k" if "Suc k < length xs"
      unfolding at [OF k] using ds(3) k that small by simp
  qed
  moreover have "add_indirect ptr ins outs q =
      Some (q\<lparr>desc_shadow := (desc_shadow q)[h := filled ((ptr, 16 * length lst), DriverToDevice) INDIRECT (desc_shadow q ! h)],
        free_head := d_next (desc_shadow q ! h),
        vring := (vring q)\<lparr>desc := (desc (vring q))[h := filled ((ptr, 16 * length lst), DriverToDevice) INDIRECT (desc_shadow q ! h)]\<rparr>,
        num_used := num_used q + 1, indirect_lists := (indirect_lists q)[h := Some (ptr, lst)]\<rparr>, h)"
  proof -
    have sb: "set_buf (ptr, 16 * length lst) DriverToDevice INDIRECT (desc_shadow q ! h) =
        Some (filled ((ptr, 16 * length lst), DriverToDevice) INDIRECT (desc_shadow q ! h))"
      using set_buf_filled [of "((ptr, 16 * length lst), DriverToDevice)" INDIRECT "desc_shadow q ! h"] small len by simp
    have "num_used q + 1 \<le> queue_size q"
      using D(5) by (simp add: fl)
    then have nu: "(num_used q + 1) mod 2 ^ 16 = num_used q + 1"
      by (rule vq_shape_less [OF D(1)])
    have "indirect_lists q ! h = None"
      by (rule D(8) [OF h(2,3)])
    then have ok: "\<not> (queue_size q \<le> h \<or> indirect_lists q ! h \<noteq> None)"
      using h(2) by simp
    obtain a as where ds0: "ds = a # as"
      using ne by (cases ds) auto
    have l: "butlast (a # as) @ [remove_flag NEXT (last (a # as))] = lst"
      unfolding lst_def ds0 ..
    have len_h: "h < length (desc_shadow q)"
      using h(2) by (simp add: queue_size_def)
    show ?thesis
      unfolding add_indirect_def Let_def xs(1) [symmetric] ds(1) ds0 option.case list.case l h(1) if_not_P [OF ok] sb
      using nu len_h by (simp add: write_desc_def)
  qed
  ultimately show ?thesis
    using len by (intro exI [of _ "filled ((ptr, 16 * length lst), DriverToDevice) INDIRECT (desc_shadow q ! h)"] exI [of _ lst])
      (simp add: filled_def buf_flags_def)
qed

text \<open>The invariant reads only the private part of the queue.\<close>

lemma held_chain_same:
  "desc_shadow q' = desc_shadow q \<Longrightarrow> indirect_lists q' = indirect_lists q \<Longrightarrow> held_chain q' c xs = held_chain q c xs"
  by (simp add: held_chain_def)

lemma vq_inv_cong:
  assumes "vq_inv q out fl ch" "vq_shape q'" "desc_shadow q' = desc_shadow q" "free_head q' = free_head q" "num_used q' = num_used q"
    "indirect_lists q' = indirect_lists q"
  shows "vq_inv q' out fl ch"
proof -
  have "queue_size q' = queue_size q"
    by (simp add: queue_size_def assms(3))
  then show ?thesis
    using assms(1,2) unfolding vq_inv_def held_chain_same [OF assms(3,6)] assms(3-6) by simp
qed

lemma slot_less:
  assumes "vq_shape q" shows "n AND (queue_size q - 1) < queue_size q"
proof -
  obtain k where k: "queue_size q = 2 ^ k"
    using assms by (auto simp: vq_shape_def)
  have "n AND (2 ^ k - 1) = take_bit k n"
    by (simp add: take_bit_eq_mask mask_eq_exp_minus_1)
  then show ?thesis
    unfolding k by (metis take_bit_nat_less_exp)
qed

definition vq_fits :: "vqueue \<Rightarrow> nat \<Rightarrow> bool" where
  "vq_fits q n \<longleftrightarrow> (if indirect q then num_used q < queue_size q \<and> n \<le> queue_size q else num_used q + n \<le> queue_size q)"

text \<open>The number of descriptors of the table that a chain of \<open>n\<close> buffers takes.\<close>

definition vq_takes :: "vqueue \<Rightarrow> nat \<Rightarrow> nat" where
  "vq_takes q n = (if indirect q \<and> 1 < n then 1 else n)"

text \<open>The part of \<open>add\<close> before the available ring.\<close>

lemma add_chain_ok:
  assumes inv: "vq_inv q out fl ch" and n: "n = length ins + length outs" "0 < n" "vq_fits q n"
    and v: "valid_bufs (input_output_iter ins outs)" and m: "m = vq_takes q n"
  shows "\<exists>q1 ds' dm' il. (if indirect q \<and> 1 < n then add_indirect ptr ins outs q else add_direct ins outs q) = Some (q1, hd fl) \<and>
    q1 = q\<lparr>desc_shadow := ds', free_head := free_head q1, vring := (vring q)\<lparr>desc := dm'\<rparr>, num_used := num_used q + m, indirect_lists := il\<rparr> \<and>
    vq_inv q1 (out(hd fl \<mapsto> (ins, outs))) (drop m fl) (ch(hd fl := take m fl)) \<and> queue_size q1 = queue_size q \<and>
    device_read q1 (hd fl) = Some (map device_view (input_output_iter ins outs)) \<and> m \<le> length fl \<and> 0 < m"
proof -
  note D = vq_invD [OF inv]
  let ?xs = "input_output_iter ins outs"
  have xs: "length ?xs = n" "?xs \<noteq> []"
    using n by (auto simp: input_output_iter_def)
  have m_fl: "m \<le> length fl" "0 < m"
    using n(2,3) D(5) by (auto simp: m vq_fits_def vq_takes_def split: if_splits)
  have sh: "length (desc (vring q)) = queue_size q" "length (indirect_lists q) = queue_size q"
    using D(1) by (simp_all add: vq_shape_def)
  show ?thesis
  proof (cases "indirect q \<and> 1 < n")
    case True
    then have m1: "m = 1" "n \<le> queue_size q"
      using n(3) by (simp_all add: m vq_takes_def vq_fits_def)
    then obtain h rest where fl: "fl = h # rest"
      using m_fl by (cases fl) auto
    have h: "h < queue_size q"
      using vq_inv_less(1) [OF inv, of h] by (simp add: fl)
    have "length ?xs \<le> queue_size q"
      using m1(2) xs(1) by simp
    then obtain d lst where r: "add_indirect ptr ins outs q =
        Some (q\<lparr>desc_shadow := (desc_shadow q)[h := d], free_head := d_next (desc_shadow q ! h),
          vring := (vring q)\<lparr>desc := (desc (vring q))[h := d]\<rparr>, num_used := num_used q + 1,
          indirect_lists := (indirect_lists q)[h := Some (ptr, lst)]\<rparr>, h)"
      and d: "d_flags d = INDIRECT" "d_addr d = ptr" "d_len d = 16 * length lst" "length lst = length ?xs"
        "chain_ok lst [0..<length ?xs] ?xs"
      using add_indirect_ok [OF inv refl v xs(2) _ fl, of ptr] by auto
    define q1 where "q1 = q\<lparr>desc_shadow := (desc_shadow q)[h := d], free_head := d_next (desc_shadow q ! h),
          vring := (vring q)\<lparr>desc := (desc (vring q))[h := d]\<rparr>, num_used := num_used q + 1,
          indirect_lists := (indirect_lists q)[h := Some (ptr, lst)]\<rparr>"
    have q1: "queue_size q1 = queue_size q"
      by (simp add: q1_def queue_size_def)
    have "held_chain q1 [h] ?xs"
      unfolding held_chain_def using d h sh by (intro disjI2) (simp add: q1_def queue_size_def)
    then have "vq_inv q1 (out(hd [h] \<mapsto> (ins, outs))) rest (ch(hd [h] := [h]))"
      by (intro vq_inv_give [of q out "[h]" rest])
         (use inv fl D(1,2) v linked_hd [of "desc_shadow q" h rest] in
           \<open>simp_all add: q1_def vq_shape_def queue_size_def\<close>)
    moreover have "device_read q1 h = Some (map device_view ?xs)"
    proof -
      have "device_walk lst (length lst) (hd [0..<length ?xs]) = Some (map device_view ?xs)"
        by (rule device_walk_chain [OF d(5)]) (simp_all add: d(4))
      moreover have "hd [0..<length ?xs] = 0"
        using xs n(2) by (simp add: hd_upt)
      ultimately show ?thesis
        using h sh d(1-3) by (simp add: device_read_def q1_def contains_flag_def flag_bits)
    qed
    moreover have "q1 = q\<lparr>desc_shadow := desc_shadow q1, free_head := free_head q1, vring := (vring q)\<lparr>desc := desc (vring q1)\<rparr>,
        num_used := num_used q + m, indirect_lists := indirect_lists q1\<rparr>"
      by (simp add: q1_def m1)
    moreover have "add_indirect ptr ins outs q = Some (q1, h)"
      unfolding q1_def by (rule r)
    ultimately show ?thesis
      using True m_fl q1 by (intro exI [of _ q1] exI [of _ "desc_shadow q1"] exI [of _ "desc (vring q1)"]
        exI [of _ "indirect_lists q1"]) (simp add: fl m1)
  next
    case False
    then have mn: "m = n"
      by (simp add: m vq_takes_def)
    then have le: "length ?xs \<le> length fl"
      using m_fl xs by simp
    let ?c = "take m fl" and ?rest = "drop m fl"
    obtain ds' fh' dm' where r: "add_direct ins outs q =
        Some (q\<lparr>desc_shadow := ds', free_head := fh', vring := (vring q)\<lparr>desc := dm'\<rparr>, num_used := num_used q + length ?c\<rparr>, hd fl)"
      and d: "length ds' = queue_size q" "length dm' = queue_size q" "\<And>i. i \<notin> set ?c \<Longrightarrow> ds' ! i = desc_shadow q ! i"
        "\<forall>i\<in>set ?c. dm' ! i = ds' ! i" "chain_ok ds' ?c ?xs" "?rest \<noteq> [] \<longrightarrow> fh' = hd ?rest"
      using add_direct_ok [OF inv refl v xs(2) le refl refl] xs(1) mn by auto
    define q1 where "q1 = q\<lparr>desc_shadow := ds', free_head := fh', vring := (vring q)\<lparr>desc := dm'\<rparr>, num_used := num_used q + length ?c\<rparr>"
    have q1: "queue_size q1 = queue_size q"
      using d(1) by (simp add: q1_def queue_size_def)
    have "fl \<noteq> []"
      using m_fl by auto
    then have c: "?c \<noteq> []" "hd ?c = hd fl" "length ?c = m" "hd fl \<in> set fl"
      using m_fl by (auto simp: hd_take)
    have hf: "hd fl < queue_size q" "out (hd fl) = None"
      using vq_inv_less(1) [OF inv c(4)] vq_inv_free [OF inv c(4)] by simp_all
    have hn: "indirect_lists q ! hd fl = None"
      by (rule D(8) [OF hf])
    have "vq_inv q1 (out(hd ?c \<mapsto> (ins, outs))) ?rest (ch(hd ?c := ?c))"
      by (rule vq_inv_give [of q out ?c ?rest])
         (use inv c(1) D(1) d q1 v hn c(2) in \<open>simp_all add: q1_def vq_shape_def held_chain_def\<close>)
    moreover have "device_read q1 (hd fl) = Some (map device_view ?xs)"
    proof -
      have less: "\<forall>i\<in>set ?c. i < length dm'"
        using vq_inv_less(1) [OF inv] d(2) by (auto dest: in_set_takeD)
      have ch: "chain_ok dm' ?c ?xs"
        using chain_ok_cong [of ?c dm' ds'] d(4,5) by simp
      have "length ?c \<le> length dm'"
        using D(5) d(2) m_fl by simp
      then have "device_walk dm' (length dm') (hd ?c) = Some (map device_view ?xs)"
        by (rule device_walk_chain [OF ch less])
      then show ?thesis
        using chain_ok_head [OF ch] c(2) hf(1) d(2) by (simp add: device_read_def q1_def)
    qed
    moreover have "q1 = q\<lparr>desc_shadow := ds', free_head := free_head q1, vring := (vring q)\<lparr>desc := dm'\<rparr>,
        num_used := num_used q + m, indirect_lists := indirect_lists q\<rparr>"
      using c(3) by (simp add: q1_def)
    moreover have "add_direct ins outs q = Some (q1, hd fl)"
      unfolding q1_def by (rule r)
    ultimately show ?thesis
      unfolding if_not_P [OF False] using m_fl q1 c(2) by metis
  qed
qed

text \<open>What \<open>add\<close> does to the rings and the counters, and what it leaves alone.\<close>

definition vq_published :: "nat \<Rightarrow> vqueue \<Rightarrow> vqueue \<Rightarrow> bool" where
  "vq_published h q q' \<longleftrightarrow>
     avail_ring (vring q') = (avail_ring (vring q))[avail_idx q AND (queue_size q - 1) := h] \<and>
     avail_idx q' = (avail_idx q + 1) mod 2 ^ 16 \<and> avail_ring_idx (vring q') = avail_idx q' \<and>
     queue_size q' = queue_size q \<and> indirect q' = indirect q \<and> event_idx q' = event_idx q \<and> queue_idx q' = queue_idx q \<and>
     last_used_idx q' = last_used_idx q \<and> used_idx (vring q') = used_idx (vring q) \<and> used_ring (vring q') = used_ring (vring q)"

lemma vq_add_full: "0 < length ins + length outs \<Longrightarrow> \<not> vq_fits q (length ins + length outs) \<Longrightarrow> vq_add ptr ins outs q = Some (q, Inl QueueFull)"
  by (auto simp: vq_add_def vq_fits_def Let_def split: if_splits)

lemma vq_add_ok:
  assumes inv: "vq_inv q out fl ch" and n: "n = length ins + length outs" "0 < n" "vq_fits q n"
    and v: "valid_bufs (input_output_iter ins outs)" and m: "m = vq_takes q n"
  shows "\<exists>q'. vq_add ptr ins outs q = Some (q', Inr (hd fl)) \<and> vq_published (hd fl) q q' \<and>
    vq_inv q' (out(hd fl \<mapsto> (ins, outs))) (drop m fl) (ch(hd fl := take m fl)) \<and>
    device_read q' (hd fl) = Some (map device_view (input_output_iter ins outs)) \<and> m \<le> length fl \<and> 0 < m"
proof -
  obtain q1 ds' dm' il where r: "(if indirect q \<and> 1 < n then add_indirect ptr ins outs q else add_direct ins outs q) = Some (q1, hd fl)"
    and e: "q1 = q\<lparr>desc_shadow := ds', free_head := free_head q1, vring := (vring q)\<lparr>desc := dm'\<rparr>, num_used := num_used q + m, indirect_lists := il\<rparr>"
    and inv1: "vq_inv q1 (out(hd fl \<mapsto> (ins, outs))) (drop m fl) (ch(hd fl := take m fl))" and sz: "queue_size q1 = queue_size q"
    and dr: "device_read q1 (hd fl) = Some (map device_view (input_output_iter ins outs))" and mfl: "m \<le> length fl" "0 < m"
    using add_chain_ok [OF inv n v m, of ptr] by blast
  have q1: "avail_idx q1 = avail_idx q" "indirect q1 = indirect q" "event_idx q1 = event_idx q" "last_used_idx q1 = last_used_idx q"
      "queue_idx q1 = queue_idx q" "avail_ring (vring q1) = avail_ring (vring q)" "used_idx (vring q1) = used_idx (vring q)"
      "used_ring (vring q1) = used_ring (vring q)"
    by (subst e, simp)+
  define slot where "slot = avail_idx q AND (queue_size q - 1)"
  define i where "i = (avail_idx q + 1) mod 2 ^ 16"
  define q' where "q' = q1\<lparr>vring := (vring q1)\<lparr>avail_ring := (avail_ring (vring q1))[slot := hd fl], avail_ring_idx := i\<rparr>, avail_idx := i\<rparr>"
  have ne: "\<not> (ins = [] \<and> outs = [])"
    using n by auto
  have room: "\<not> (queue_size q < num_used q + 1 \<or> queue_size q < n \<or> \<not> indirect q \<and> queue_size q < num_used q + n)"
    using n(2,3) by (auto simp: vq_fits_def split: if_splits)
  have "vq_add ptr ins outs q = Some (q', Inr (hd fl))"
    unfolding vq_add_def if_not_P [OF ne] Let_def n(1) [symmetric] if_not_P [OF room] r
    by (simp add: q'_def slot_def i_def q1 sz)
  moreover have "vq_published (hd fl) q q'"
    using sz by (simp add: vq_published_def q'_def slot_def i_def q1 queue_size_def)
  moreover have "vq_inv q' (out(hd fl \<mapsto> (ins, outs))) (drop m fl) (ch(hd fl := take m fl))"
    by (rule vq_inv_cong [OF inv1])
       (use vq_invD(1) [OF inv1] in \<open>simp_all add: q'_def vq_shape_def queue_size_def i_def\<close>)
  moreover have "device_read q' (hd fl) = device_read q1 (hd fl)"
    by (simp add: device_read_def q'_def Let_def)
  ultimately show ?thesis
    using dr mfl by auto
qed

section \<open>Taking back\<close>

lemma recycle_ok:
  assumes inv: "vq_inv q out fl ch" and t: "out t = Some (ins, outs)"
  shows "\<exists>ds' dm' il. recycle_descriptors t ins outs q =
      Some (q\<lparr>free_head := t, desc_shadow := ds', num_used := num_used q - length (ch t), vring := (vring q)\<lparr>desc := dm'\<rparr>, indirect_lists := il\<rparr>) \<and>
    vq_inv (q\<lparr>free_head := t, desc_shadow := ds', num_used := num_used q - length (ch t), vring := (vring q)\<lparr>desc := dm'\<rparr>, indirect_lists := il\<rparr>)
      (out(t := None)) (ch t @ fl) (ch(t := [])) \<and> length ds' = queue_size q"
proof -
  note D = vq_invD [OF inv]
  let ?xs = "input_output_iter ins outs" and ?c = "ch t" and ?q = "q\<lparr>free_head := t\<rparr>"
  have ct: "?c \<noteq> []" "hd ?c = t" "distinct ?c" "held_chain q ?c ?xs" "valid_bufs ?xs"
    using D(7) [OF t] by simp_all
  have less: "\<forall>i\<in>set ?c. i < queue_size q"
    using vq_inv_less(2) [OF inv] by blast
  have tl: "t < queue_size q"
    using less ct(1,2) by (metis hd_in_set)
  have sz: "queue_size ?q = queue_size q"
    by (simp add: queue_size_def)
  have nu: "length ?c \<le> num_used q" "num_used q < 2 ^ 16"
    using vq_inv_chain_length [OF inv t] D(1,5) by (simp_all add: vq_shape_def)
  have sh: "length (desc (vring q)) = queue_size q" "length (indirect_lists q) = queue_size q"
    using D(1) by (simp_all add: vq_shape_def)
  consider (direct) "chain_ok (desc_shadow q) ?c ?xs" "indirect_lists q ! t = None"
    | (indir) ptr lst where "?c = [t]" "indirect_lists q ! t = Some (ptr, lst)" "length lst = length ?xs"
        "d_flags (desc_shadow q ! t) = INDIRECT"
    using ct(2,4) unfolding held_chain_def by auto
  then show ?thesis
  proof cases
    case direct
    have nf: "\<not> contains_flag INDIRECT (desc_shadow q ! t)"
      using chain_ok_head [OF direct(1)] ct(2) by simp
    obtain ds' dm' where r: "recycle_bufs (free_head q) ?xs (Some (hd ?c)) ?q =
         Some (?q\<lparr>desc_shadow := ds', num_used := num_used q - length ?c, vring := (vring q)\<lparr>desc := dm'\<rparr>\<rparr>, None)"
       "length ds' = queue_size q" "length dm' = queue_size q" "\<forall>i. i \<notin> set ?c \<longrightarrow> ds' ! i = desc_shadow q ! i"
       "linked ds' ?c" "d_next (ds' ! last ?c) = free_head q"
      using recycle_chain [of ?q ?c ?xs "free_head q"] direct(1) ct(3,5) less nu sh(1) by (auto simp: sz)
    define q' where "q' = q\<lparr>free_head := t, desc_shadow := ds', num_used := num_used q - length ?c, vring := (vring q)\<lparr>desc := dm'\<rparr>,
        indirect_lists := indirect_lists q\<rparr>"
    have "recycle_descriptors t ins outs q = Some q'"
      unfolding recycle_descriptors_def Let_def using nf tl r(1) ct(2) by (simp add: queue_size_def q'_def)
    moreover have "vq_inv q' (out(t := None)) (?c @ fl) (ch(t := []))"
      by (rule vq_inv_take [OF inv t refl])
         (use D(1) r direct(2) in \<open>simp_all add: q'_def vq_shape_def queue_size_def\<close>)
    ultimately show ?thesis
      unfolding q'_def using r(2) by blast
  next
    case (indir ptr lst)
    have cf: "contains_flag INDIRECT (desc_shadow q ! t)"
      using indir(4) by (simp add: contains_flag_def)
    have nz: "\<not> (\<exists>x\<in>set ?xs. snd (fst x) = 0)"
      using ct(5) by (auto simp: valid_bufs_def)
    define ds' where "ds' = (desc_shadow q)[t := (unset_buf (desc_shadow q ! t))\<lparr>d_next := free_head q\<rparr>]"
    define q' where "q' = q\<lparr>free_head := t, desc_shadow := ds', num_used := num_used q - length ?c, vring := (vring q)\<lparr>desc := desc (vring q)\<rparr>,
        indirect_lists := (indirect_lists q)[t := None]\<rparr>"
    have len: "length lst = length ins + length outs"
      using indir(3) by simp
    have "dec16 (num_used q) = num_used q - 1"
      using nu indir(1) by (intro dec16_pos) simp_all
    then have "recycle_descriptors t ins outs q = Some q'"
      unfolding recycle_descriptors_def Let_def
      using cf tl indir(1,2) nz len by (simp add: queue_size_def q'_def ds'_def)
    moreover have "vq_inv q' (out(t := None)) (?c @ fl) (ch(t := []))"
      by (rule vq_inv_take [OF inv t refl])
         (use D(1) tl sh(2) indir(1) in \<open>simp_all add: q'_def ds'_def vq_shape_def queue_size_def\<close>)
    moreover have "length ds' = queue_size q"
      by (simp add: ds'_def queue_size_def)
    ultimately show ?thesis
      unfolding q'_def by blast
  qed
qed

lemma pop_used_errors:
  "\<not> can_pop q \<Longrightarrow> pop_used t ins outs q = Some (q, Inl NotReady)"
  "can_pop q \<Longrightarrow> peek_used q \<noteq> Some t \<Longrightarrow> pop_used t ins outs q = Some (q, Inl WrongToken)"
  by (auto simp: pop_used_def peek_used_def split: prod.split)

lemma pop_used_ok:
  assumes inv: "vq_inv q out fl ch" and t: "out t = Some (ins, outs)" and p: "peek_used q = Some t"
  shows "\<exists>q'. pop_used t ins outs q = Some (q', Inr (snd (used_ring (vring q) ! last_used_slot q))) \<and>
      vq_inv q' (out(t := None)) (ch t @ fl) (ch(t := [])) \<and> queue_size q' = queue_size q \<and> indirect q' = indirect q \<and>
      event_idx q' = event_idx q \<and> queue_idx q' = queue_idx q \<and> last_used_idx q' = (last_used_idx q + 1) mod 2 ^ 16 \<and>
      avail_idx q' = avail_idx q \<and> used_idx (vring q') = used_idx (vring q) \<and> used_ring (vring q') = used_ring (vring q)"
proof -
  obtain i n where u: "used_ring (vring q) ! last_used_slot q = (i, n)"
    by fastforce
  have cp: "can_pop q" "i mod 2 ^ 16 = t"
    using p u by (simp_all add: peek_used_def split: if_splits)
  obtain ds' dm' il where r: "recycle_descriptors t ins outs q =
      Some (q\<lparr>free_head := t, desc_shadow := ds', num_used := num_used q - length (ch t), vring := (vring q)\<lparr>desc := dm'\<rparr>, indirect_lists := il\<rparr>)"
    and inv1: "vq_inv (q\<lparr>free_head := t, desc_shadow := ds', num_used := num_used q - length (ch t), vring := (vring q)\<lparr>desc := dm'\<rparr>, indirect_lists := il\<rparr>)
      (out(t := None)) (ch t @ fl) (ch(t := []))" and len: "length ds' = queue_size q"
    using recycle_ok [OF inv t] by blast
  define q1 where "q1 = q\<lparr>free_head := t, desc_shadow := ds', num_used := num_used q - length (ch t), vring := (vring q)\<lparr>desc := dm'\<rparr>, indirect_lists := il\<rparr>"
  define j where "j = (last_used_idx q + 1) mod 2 ^ 16"
  define q' where "q' = (if event_idx q then q1\<lparr>last_used_idx := j, vring := (vring q1)\<lparr>used_event := j\<rparr>\<rparr> else q1\<lparr>last_used_idx := j\<rparr>)"
  have "pop_used t ins outs q = Some (q', Inr n)"
    unfolding pop_used_def using cp r by (simp add: u q'_def q1_def j_def Let_def)
  moreover have "vq_inv q' (out(t := None)) (ch t @ fl) (ch(t := []))"
    by (rule vq_inv_cong [OF inv1 [folded q1_def]])
       (use vq_invD(1) [OF inv1 [folded q1_def]] in \<open>simp_all add: q'_def vq_shape_def queue_size_def j_def\<close>)
  moreover have "queue_size q' = queue_size q"
    using len by (simp add: q'_def q1_def queue_size_def)
  ultimately show ?thesis
    unfolding u snd_conv by (intro exI [of _ q']) (simp add: q'_def q1_def j_def)
qed

section \<open>Creation\<close>

definition ring_size :: "nat \<Rightarrow> vring \<Rightarrow> bool" where
  "ring_size n r \<longleftrightarrow> length (desc r) = n \<and> length (avail_ring r) = n \<and> length (used_ring r) = n"

lemma link_descriptors_length [simp]: "length (link_descriptors is ds) = length ds"
  by (induction "is" arbitrary: ds) simp_all

lemma link_descriptors_nth:
  "distinct is \<Longrightarrow> (\<forall>i\<in>set is. i < length ds) \<Longrightarrow>
   link_descriptors is ds ! j = (if j \<in> set is then (ds ! j)\<lparr>d_next := j + 1\<rparr> else ds ! j)"
proof (induction "is" arbitrary: ds)
  case (Cons i "is")
  then show ?case
    by (cases "j = i") simp_all
qed simp

lemma linked_upt:
  "(\<And>i. m \<le> i \<Longrightarrow> Suc i < n \<Longrightarrow> d_next (ds ! i) = Suc i) \<Longrightarrow> linked ds [m..<n]"
proof (induction "n - m" arbitrary: m)
  case (Suc d)
  then have mn: "m < n"
    by simp
  show ?case
  proof (cases "Suc m < n")
    case True
    then have "[m..<n] = m # Suc m # [Suc (Suc m)..<n]" "[Suc m..<n] = Suc m # [Suc (Suc m)..<n]"
      using mn by (simp_all add: upt_conv_Cons)
    then show ?thesis
      using Suc.hyps(1) [of "Suc m"] Suc.hyps(2) Suc.prems True by simp
  next
    case False
    then have "[m..<n] = [m]"
      using mn by (simp add: upt_conv_Cons)
    then show ?thesis
      by simp
  qed
qed simp

lemma vq_new_ok:
  assumes "fst (vq_new n idx ind ev mem dma tr) = Inr q" and n: "n = 2 ^ k" "n < 2 ^ 16" and mem: "ring_size n mem"
  shows "vq_inv q (\<lambda>_. None) [0..<n] (\<lambda>_. [])" "queue_size q = n" "indirect q = ind" "event_idx q = ev"
proof -
  define ds where "ds = link_descriptors [0..<n - 1] (replicate n zero_descriptor)"
  have q: "desc_shadow q = ds" "free_head q = 0" "num_used q = 0" "indirect_lists q = replicate n None" "avail_idx q = 0"
      "last_used_idx q = 0" "vring q = mem\<lparr>desc := link_descriptors [0..<n - 1] (desc mem)\<rparr>" "indirect q = ind" "event_idx q = ev"
    using assms(1) by (auto simp: vq_new_def ds_def split: if_splits prod.splits sum.splits)
  have sz: "queue_size q = n"
    by (simp add: queue_size_def q ds_def)
  have "d_next (ds ! i) = Suc i" if "Suc i < n" for i
    unfolding ds_def by (subst link_descriptors_nth) (use that in auto)
  then have "linked ds [0..<n]"
    by (intro linked_upt) simp
  then show "vq_inv q (\<lambda>_. None) [0..<n] (\<lambda>_. [])"
    unfolding vq_inv_def vq_shape_def sz using mem n by (auto simp: q ring_size_def hd_upt)
  show "queue_size q = n" "indirect q = ind" "event_idx q = ev"
    by (simp_all add: sz q)
qed

section \<open>Runs\<close>

text \<open>
  What can happen to a queue: its creation, buffers added and popped by a driver that keeps to the
  contract of \<open>add\<close> and \<open>pop_used\<close>, a change of the notification setting, and any change at all of
  the shared memory by the device.
\<close>

inductive vq_reachable :: "vqueue \<Rightarrow> outstanding \<Rightarrow> bool" where
  created: "fst (vq_new n idx ind ev mem dma tr) = Inr q \<Longrightarrow> n = 2 ^ k \<Longrightarrow> n < 2 ^ 16 \<Longrightarrow> ring_size n mem \<Longrightarrow>
    vq_reachable q (\<lambda>_. None)"
| added: "vq_reachable q out \<Longrightarrow> valid_bufs (input_output_iter ins outs) \<Longrightarrow> vq_add ptr ins outs q = Some (q', Inr t) \<Longrightarrow>
    vq_reachable q' (out(t \<mapsto> (ins, outs)))"
| popped: "vq_reachable q out \<Longrightarrow> out t = Some (ins, outs) \<Longrightarrow> pop_used t ins outs q = Some (q', Inr n) \<Longrightarrow>
    vq_reachable q' (out(t := None))"
| notify: "vq_reachable q out \<Longrightarrow> vq_reachable (set_dev_notify enable q) out"
| device: "vq_reachable q out \<Longrightarrow> ring_size (queue_size q) r \<Longrightarrow> vq_reachable (q\<lparr>vring := r\<rparr>) out"

lemma vq_inv_vring:
  assumes "vq_inv q out fl ch" "ring_size (queue_size q) r" shows "vq_inv (q\<lparr>vring := r\<rparr>) out fl ch"
  by (rule vq_inv_cong [OF assms(1)])
     (use vq_invD(1) [OF assms(1)] assms(2) in \<open>simp_all add: vq_shape_def ring_size_def queue_size_def\<close>)

lemma vq_inv_ring_size: "vq_inv q out fl ch \<Longrightarrow> ring_size (queue_size q) (vring q)"
  using vq_invD(1) by (simp add: vq_shape_def ring_size_def)

lemma vq_add_empty: "vq_add ptr [] [] q = Some (q, Inl InvalidParam)"
  by (simp add: vq_add_def)

lemma vq_add_fits:
  assumes "vq_add ptr ins outs q = Some (q', Inr t)"
  shows "0 < length ins + length outs" "vq_fits q (length ins + length outs)"
proof -
  show n: "0 < length ins + length outs"
    using assms vq_add_empty by fastforce
  show "vq_fits q (length ins + length outs)"
    using assms vq_add_full [OF n, of q ptr] by (cases "vq_fits q (length ins + length outs)") simp_all
qed

lemma vq_reachable_inv: "vq_reachable q out \<Longrightarrow> \<exists>fl ch. vq_inv q out fl ch"
proof (induction rule: vq_reachable.induct)
  case (created n idx ind ev mem dma tr q k)
  then show ?case
    using vq_new_ok(1) by blast
next
  case (added q out ins outs ptr q' t)
  then obtain fl ch where inv: "vq_inv q out fl ch"
    by blast
  note n = vq_add_fits [OF added.hyps(3)]
  obtain q1 where q1: "vq_add ptr ins outs q = Some (q1, Inr (hd fl))"
      "vq_inv q1 (out(hd fl \<mapsto> (ins, outs))) (drop (vq_takes q (length ins + length outs)) fl)
         (ch(hd fl := take (vq_takes q (length ins + length outs)) fl))"
    using vq_add_ok [OF inv refl n added.hyps(2) refl] by blast
  then have "q' = q1" "t = hd fl"
    using added.hyps(3) by simp_all
  then show ?case
    using q1(2) by blast
next
  case (popped q out t ins outs q' n)
  then obtain fl ch where inv: "vq_inv q out fl ch"
    by blast
  have p: "peek_used q = Some t"
    using popped.hyps(3) pop_used_errors [of q t ins outs] by (cases "can_pop q") auto
  obtain q1 n1 where "pop_used t ins outs q = Some (q1, Inr n1)" "vq_inv q1 (out(t := None)) (ch t @ fl) (ch(t := []))"
    using pop_used_ok [OF inv popped.hyps(2) p] by blast
  then show ?case
    using popped.hyps(3) by (metis Pair_inject option.inject)
next
  case (notify q out enable)
  then obtain fl ch where inv: "vq_inv q out fl ch"
    by blast
  have "vq_inv (set_dev_notify enable q) out fl ch"
    using vq_inv_vring [OF inv, of "(vring q)\<lparr>avail_flags := (if enable then 0 else 1)\<rparr>"] vq_inv_ring_size [OF inv] inv
    by (simp add: set_dev_notify_def ring_size_def)
  then show ?case
    by blast
next
  case (device q out r)
  then show ?case
    using vq_inv_vring by blast
qed

section \<open>Properties\<close>

text \<open>A queue of four entries with indirect descriptors, in zeroed memory.\<close>

definition example_vring :: vring where
  "example_vring = \<lparr>desc = replicate 4 zero_descriptor, avail_flags = 0, avail_ring_idx = 0, avail_ring = replicate 4 0, used_event = 0,
     used_flags = 0, used_idx = 0, used_ring = replicate 4 (0, 0), avail_event = 0\<rparr>"

definition example_transport :: transport where
  "example_transport = \<lparr>queue_used = (\<lambda>_. False), max_queue_size = (\<lambda>_. 256), requires_legacy_layout = False, queues_set = [], notified = []\<rparr>"

definition example_queue :: vqueue where
  "example_queue = projr (fst (vq_new 4 0 True False example_vring 0x4000000 example_transport))"

lemma example_queue_new: "fst (vq_new 4 0 True False example_vring 0x4000000 example_transport) = Inr example_queue"
  by (simp add: example_queue_def vq_new_def example_transport_def allocate_flexible_def queue_part_sizes_def dma_new_def dma_alloc_def
      PAGE_SIZE_def pages_for_def wrap64_def Let_def)

lemma example_queue_reachable: "vq_reachable example_queue (\<lambda>_. None)"
  by (rule vq_reachable.created [OF example_queue_new, of 2]) (simp_all add: ring_size_def example_vring_def)

lemma example_queue_inv: "vq_inv example_queue (\<lambda>_. None) [0..<4] (\<lambda>_. [])" "queue_size example_queue = 4" "indirect example_queue"
proof -
  have "ring_size 4 example_vring"
    by (simp add: ring_size_def example_vring_def)
  then show "vq_inv example_queue (\<lambda>_. None) [0..<4] (\<lambda>_. [])" "queue_size example_queue = 4" "indirect example_queue"
    using vq_new_ok [OF example_queue_new, of 2] by simp_all
qed

lemma example_queue_fits: "vq_fits example_queue (Suc (Suc 0))" "valid_bufs (input_output_iter [(0x5000, 12)] [(0x6000, 1526)])"
proof -
  have "num_used example_queue + length [0..<4] = queue_size example_queue"
    by (rule vq_invD(5) [OF example_queue_inv(1)])
  then show "vq_fits example_queue (Suc (Suc 0))"
    by (simp add: vq_fits_def example_queue_inv(2,3))
  show "valid_bufs (input_output_iter [(0x5000, 12)] [(0x6000, 1526)])"
    by (simp add: input_output_iter_def)  (simp add: valid_bufs_def)
qed

text \<open>
  C3: ownership of descriptors.  Whatever the device writes to the shared memory, at any time the
  descriptors are divided, without overlap or loss, among the free list and one chain for each
  outstanding token, which still describes that token's buffers.  So no \<open>add\<close> of non-empty buffers
  and no \<open>pop_used\<close> of an outstanding token panics, \<open>add\<close> fails only when the queue is full, a new
  token is not one that is outstanding, and a token is popped only when the device returned it.
\<close>

theorem virtqueue_ownership:
  assumes "vq_reachable q out"
  shows "(\<exists>fl ch. vq_inv q out fl ch) \<and>
    (valid_bufs (input_output_iter ins outs) \<and> (ins \<noteq> [] \<or> outs \<noteq> []) \<longrightarrow>
       (if vq_fits q (length ins + length outs)
        then \<exists>q' t. vq_add ptr ins outs q = Some (q', Inr t) \<and> t < queue_size q \<and> out t = None
        else vq_add ptr ins outs q = Some (q, Inl QueueFull))) \<and>
    (\<forall>t ins' outs'. out t = Some (ins', outs') \<longrightarrow>
       (if \<not> can_pop q then pop_used t ins' outs' q = Some (q, Inl NotReady)
        else if peek_used q \<noteq> Some t then pop_used t ins' outs' q = Some (q, Inl WrongToken)
        else \<exists>q' n. pop_used t ins' outs' q = Some (q', Inr n)))"
proof (intro conjI allI impI)
  show "\<exists>fl ch. vq_inv q out fl ch"
    by (rule vq_reachable_inv [OF assms])
  then obtain fl ch where inv: "vq_inv q out fl ch"
    by blast
  show "if vq_fits q (length ins + length outs)
      then \<exists>q' t. vq_add ptr ins outs q = Some (q', Inr t) \<and> t < queue_size q \<and> out t = None
      else vq_add ptr ins outs q = Some (q, Inl QueueFull)"
    if v: "valid_bufs (input_output_iter ins outs) \<and> (ins \<noteq> [] \<or> outs \<noteq> [])"
  proof (cases "vq_fits q (length ins + length outs)")
    case True
    have n: "0 < length ins + length outs"
      using v by auto
    obtain q' where q': "vq_add ptr ins outs q = Some (q', Inr (hd fl))" "vq_takes q (length ins + length outs) \<le> length fl"
        "0 < vq_takes q (length ins + length outs)"
      using vq_add_ok [OF inv refl n True _ refl, of ptr] v by blast
    then have "hd fl \<in> set fl"
      by (intro hd_in_set) auto
    then show ?thesis
      using True q'(1) vq_inv_less(1) [OF inv] vq_inv_free [OF inv] by simp
  next
    case False
    then show ?thesis
      using vq_add_full v by auto
  qed
  show "if \<not> can_pop q then pop_used t ins' outs' q = Some (q, Inl NotReady)
      else if peek_used q \<noteq> Some t then pop_used t ins' outs' q = Some (q, Inl WrongToken)
      else \<exists>q' n. pop_used t ins' outs' q = Some (q', Inr n)" if "out t = Some (ins', outs')" for t ins' outs'
    using pop_used_errors [of q t ins' outs'] pop_used_ok [OF inv that] by auto
qed

theorem virtqueue_ownership_witness:
  "\<exists>q' t. vq_add 0x9000 [(0x5000, 12)] [(0x6000, 1526)] example_queue = Some (q', Inr t) \<and> t < 4"
  using virtqueue_ownership [OF example_queue_reachable, of "[(0x5000, 12)]" "[(0x6000, 1526)]" "0x9000"]
    example_queue_fits by (simp add: example_queue_inv(2))

text \<open>
  C11: a chain is published as it was given.  A successful \<open>add\<close> puts the new token in the next
  entry of the available ring, advances the ring index by one modulo \<open>2 ^ 16\<close>, and the device that
  follows the token finds exactly the buffers, in order, with their addresses, lengths and
  directions, in a direct chain or in an indirect list.
\<close>

theorem virtqueue_add_published:
  assumes "vq_reachable q out" and "valid_bufs (input_output_iter ins outs)" and "vq_add ptr ins outs q = Some (q', Inr t)"
  shows "device_read q' t = Some (map device_view (input_output_iter ins outs)) \<and>
    avail_ring (vring q') ! (avail_idx q mod queue_size q) = t \<and>
    avail_ring_idx (vring q') = (avail_idx q + 1) mod 2 ^ 16 \<and> avail_idx q' = avail_ring_idx (vring q')"
proof -
  obtain fl ch where inv: "vq_inv q out fl ch"
    using vq_reachable_inv [OF assms(1)] by blast
  note n = vq_add_fits [OF assms(3)]
  have sh: "vq_shape q"
    by (rule vq_invD(1) [OF inv])
  then obtain k where k: "queue_size q = 2 ^ k"
    by (auto simp: vq_shape_def)
  have slot: "avail_idx q AND (queue_size q - 1) = avail_idx q mod queue_size q"
    unfolding k take_bit_eq_mod [symmetric] by (simp add: take_bit_eq_mask mask_eq_exp_minus_1)
  have "avail_idx q mod queue_size q < length (avail_ring (vring q))"
    using slot_less [OF sh, of "avail_idx q"] sh by (simp add: vq_shape_def slot)
  moreover obtain q1 where "vq_add ptr ins outs q = Some (q1, Inr (hd fl))" "vq_published (hd fl) q q1"
      "device_read q1 (hd fl) = Some (map device_view (input_output_iter ins outs))"
    using vq_add_ok [OF inv refl n assms(2) refl, of ptr] by blast
  moreover from this have "q' = q1" "t = hd fl"
    using assms(3) by simp_all
  ultimately show ?thesis
    unfolding vq_published_def slot by simp
qed

theorem virtqueue_add_published_witness:
  "\<exists>q'. vq_add 0x9000 [(0x5000, 12)] [(0x6000, 1526)] example_queue = Some (q', Inr 0) \<and>
    device_read q' 0 = Some [(0x5000, 12, False), (0x6000, 1526, True)] \<and> avail_ring_idx (vring q') = avail_idx q'"
proof -
  have "vq_fits example_queue (length [(0x5000, 12)] + length [(0x6000, 1526)])"
    using example_queue_fits(1) by simp
  then obtain q' where q': "vq_add 0x9000 [(0x5000, 12)] [(0x6000, 1526)] example_queue = Some (q', Inr (hd [0..<4]))"
    using vq_add_ok [OF example_queue_inv(1) refl _ _ example_queue_fits(2) refl, of "0x9000"] by auto
  have "hd [0..<4] = (0::nat)"
    by (simp add: hd_upt)
  then show ?thesis
    using virtqueue_add_published [OF example_queue_reachable example_queue_fits(2) q'] q'
    by (simp add: input_output_iter_def device_view_def)
qed

text \<open>Sizes in whole pages.\<close>

lemma pages_bounds: "x \<le> PAGE_SIZE * pages_for x" "PAGE_SIZE * pages_for x \<le> x + PAGE_SIZE"
  by (simp_all add: pages_for_def PAGE_SIZE_def)

lemma virtio_align_bounds: "x \<le> virtio_align_up x" "virtio_align_up x \<le> x + PAGE_SIZE" "virtio_align_up x mod PAGE_SIZE = 0"
  by (simp_all add: virtio_align_up_def PAGE_SIZE_def)

lemma page_aligned: "a mod PAGE_SIZE = 0 \<Longrightarrow> a mod 16 = 0 \<and> a mod 2 = 0 \<and> a mod 4 = 0"
proof -
  assume "a mod PAGE_SIZE = 0"
  then have "4096 dvd a"
    by (simp add: PAGE_SIZE_def dvd_eq_mod_eq_0)
  then have "16 dvd a" "2 dvd a" "4 dvd a"
    by (auto elim: dvd_trans [rotated])
  then show ?thesis
    by (simp add: dvd_eq_mod_eq_0)
qed

text \<open>
  C33: the layout of a queue.  For a queue of \<open>n\<close> entries and DMA memory that does not reach the end
  of the address space, the descriptor table, the available ring and the used ring do not overlap,
  lie inside the pages taken from the allocator, and are aligned as the specification of the
  rings demands (16, 2 and 4 bytes), in the legacy as in the modern layout.
\<close>

theorem virtqueue_layout_ok:
  assumes "0 < dma" "dma mod PAGE_SIZE = 0" "dma + 64 * n + 4 * PAGE_SIZE < 2 ^ 64" "n < 2 ^ 16"
    and "(if legacy then allocate_legacy n dma else allocate_flexible n dma) = (r, dma')"
  shows "\<exists>l. r = Inr l \<and> dma \<le> descriptors_paddr l \<and> descriptors_paddr l + 16 * n \<le> driver_area_paddr l \<and>
    driver_area_paddr l + (6 + 2 * n) \<le> device_area_paddr l \<and> device_area_paddr l + (6 + 8 * n) \<le> dma' \<and>
    descriptors_paddr l mod 16 = 0 \<and> driver_area_paddr l mod 2 = 0 \<and> device_area_paddr l mod 4 = 0"
proof (cases legacy)
  case True
  let ?a = "virtio_align_up (16 * n + (6 + 2 * n))" and ?u = "virtio_align_up (6 + 8 * n)"
  have "PAGE_SIZE dvd ?a + ?u"
    using virtio_align_bounds(3) by (intro dvd_add) (simp_all add: dvd_eq_mod_eq_0)
  then have small: "dma + PAGE_SIZE * ((?a + ?u) div PAGE_SIZE) = dma + ?a + ?u" "dma + ?a + ?u < 2 ^ 64"
    using virtio_align_bounds [of "16 * n + (6 + 2 * n)"] virtio_align_bounds [of "6 + 8 * n"] assms(3)
    by (simp_all only: dvd_mult_div_cancel add.assoc) (simp add: PAGE_SIZE_def)
  then have r: "r = Inr (Legacy dma ((?a + ?u) div PAGE_SIZE) (16 * n) ?a)" "dma' = dma + ?a + ?u"
    using assms(1,5) True
    by (auto simp: allocate_legacy_def queue_part_sizes_def dma_new_def dma_alloc_def Let_def wrap64_def algebra_simps)
  have "(dma + ?a) mod PAGE_SIZE = 0" "(dma + 16 * n) mod 2 = 0"
    using assms(2) virtio_align_bounds(3) page_aligned [OF assms(2)] by (simp_all add: mod_add_eq [symmetric])
  then show ?thesis
    using virtio_align_bounds [of "16 * n + (6 + 2 * n)"] virtio_align_bounds [of "6 + 8 * n"] page_aligned [OF assms(2)]
      page_aligned [of "dma + ?a"] by (simp add: r)
next
  case False
  let ?a = "PAGE_SIZE * pages_for (16 * n + (6 + 2 * n))" and ?u = "PAGE_SIZE * pages_for (6 + 8 * n)"
  have small: "dma + ?a + ?u < 2 ^ 64" "dma + ?a < 2 ^ 64"
    using pages_bounds(2) [of "16 * n + (6 + 2 * n)"] pages_bounds(2) [of "6 + 8 * n"] assms(3)
    by (simp_all add: PAGE_SIZE_def)
  then have r: "r = Inr (Modern dma (dma + ?a) (16 * n))" "dma' = dma + ?a + ?u"
    using assms(1,5) False
    by (auto simp: allocate_flexible_def queue_part_sizes_def dma_new_def dma_alloc_def Let_def wrap64_def algebra_simps)
  have "(dma + ?a) mod PAGE_SIZE = 0" "(dma + 16 * n) mod 2 = 0"
    using assms(2) page_aligned [OF assms(2)] by (simp_all add: mod_add_eq [symmetric])
  then show ?thesis
    using pages_bounds [of "16 * n + (6 + 2 * n)"] pages_bounds [of "6 + 8 * n"] page_aligned [OF assms(2)]
      page_aligned [of "dma + ?a"] by (simp add: r)
qed

theorem virtqueue_layout_ok_witness:
  "\<exists>l. fst (allocate_flexible 64 0x4000000) = Inr l \<and> descriptors_paddr l + 1024 \<le> driver_area_paddr l \<and>
    driver_area_paddr l + 134 \<le> device_area_paddr l"
  using virtqueue_layout_ok [of "0x4000000" 64 False "fst (allocate_flexible 64 0x4000000)" "snd (allocate_flexible 64 0x4000000)"]
  by (auto simp: PAGE_SIZE_def)

end
