(* ===== verification/Virtio_Net_Properties.thy ===== *)
theory Virtio_Net_Properties
  imports Virtio_Net Virtqueue_Properties
begin

text \<open>
  The network driver over its queues: the contract it relies on as a locale, interpreted by the
  virtqueue used with chains of one buffer in either direction; reception with a device that may
  misbehave; completion of transmissions; the owning queue.
\<close>

section \<open>Queues of single buffers\<close>

text \<open>
  A client sees tokens that are outstanding with a buffer, and a stack of free tokens: a token that
  has just been popped is the next one handed out.
\<close>

locale token_queue =
  fixes tq_inv :: "'q \<Rightarrow> (nat \<Rightarrow> slice option) \<Rightarrow> nat list \<Rightarrow> bool"
    and tq_add :: "slice \<Rightarrow> 'q \<Rightarrow> ('q \<times> (virtio_error + nat)) option"
    and tq_pop :: "nat \<Rightarrow> slice \<Rightarrow> 'q \<Rightarrow> ('q \<times> (virtio_error + nat)) option"
    and tq_peek :: "'q \<Rightarrow> nat option"
    and tq_len :: "'q \<Rightarrow> nat"
  assumes add_free: "tq_inv q out (t # fl) \<Longrightarrow> 0 < snd b \<Longrightarrow> snd b < 2 ^ 32 \<Longrightarrow>
      \<exists>q'. tq_add b q = Some (q', Inr t) \<and> tq_inv q' (out(t \<mapsto> b)) fl"
    and add_full: "tq_inv q out [] \<Longrightarrow> tq_add b q = Some (q, Inl QueueFull)"
    and pop_next: "tq_inv q out fl \<Longrightarrow> out t = Some b \<Longrightarrow> tq_peek q = Some t \<Longrightarrow>
      \<exists>q'. tq_pop t b q = Some (q', Inr (tq_len q)) \<and> tq_inv q' (out(t := None)) (t # fl)"
begin

lemma pop_add:
  assumes "tq_inv q out fl" "out t = Some b" "tq_peek q = Some t" "0 < snd b'" "snd b' < 2 ^ 32"
  shows "\<exists>q1 q2. tq_pop t b q = Some (q1, Inr (tq_len q)) \<and> tq_inv q1 (out(t := None)) (t # fl) \<and>
    tq_add b' q1 = Some (q2, Inr t) \<and> tq_inv q2 (out(t \<mapsto> b')) fl"
proof -
  obtain q1 where q1: "tq_pop t b q = Some (q1, Inr (tq_len q))" "tq_inv q1 (out(t := None)) (t # fl)"
    using pop_next [OF assms(1-3)] by blast
  then obtain q2 where "tq_add b' q1 = Some (q2, Inr t)" "tq_inv q2 (out(t \<mapsto> b')) fl"
    using add_free [OF q1(2) assms(4,5)] by auto
  with q1 show ?thesis
    by blast
qed

end

definition single_inv :: "(slice \<Rightarrow> slice list \<times> slice list) \<Rightarrow> vqueue \<Rightarrow> (nat \<Rightarrow> slice option) \<Rightarrow> nat list \<Rightarrow> bool" where
  "single_inv f q out fl \<longleftrightarrow> (\<exists>ch. vq_inv q (\<lambda>t. map_option f (out t)) fl ch)"

definition used_len :: "vqueue \<Rightarrow> nat" where
  "used_len q = snd (used_ring (vring q) ! last_used_slot q)"

lemma single_invI:
  assumes "vq_inv q ((\<lambda>u. map_option f (out u))(t := map_option f x)) fl ch" shows "single_inv f q (out(t := x)) fl"
proof -
  have "(\<lambda>u. map_option f (out u))(t := map_option f x) = (\<lambda>u. map_option f ((out(t := x)) u))"
    by auto
  then show ?thesis
    using assms by (auto simp: single_inv_def)
qed

lemma single_chain:
  assumes "vq_inv q out fl ch" "out t = Some (ins, outs)" "length ins + length outs = 1"
  shows "ch t = [t]"
proof -
  have "length (ch t) = 1" "hd (ch t) = t"
    using vq_invD(7) [OF assms(1,2)] assms(3) chain_ok_length [of "desc_shadow q" "ch t" "input_output_iter ins outs"]
    by (auto simp: held_chain_def)
  then show ?thesis
    by (cases "ch t") auto
qed

lemma single_fits: "vq_fits q (Suc 0) \<longleftrightarrow> num_used q < queue_size q" "vq_takes q (Suc 0) = 1"
  by (auto simp: vq_fits_def vq_takes_def)

lemma single_add:
  assumes inv: "single_inv f q out (t # fl)" and f: "f b = (ins, outs)" "length ins + length outs = 1" "valid_bufs (input_output_iter ins outs)"
  shows "\<exists>q'. vq_add 0 ins outs q = Some (q', Inr t) \<and> single_inv f q' (out(t \<mapsto> b)) fl \<and> vq_published t q q' \<and>
    device_read q' t = Some (map device_view (input_output_iter ins outs))"
proof -
  obtain ch where i: "vq_inv q (\<lambda>t. map_option f (out t)) (t # fl) ch"
    using inv by (auto simp: single_inv_def)
  have "vq_fits q (length ins + length outs)"
    using vq_invD(5) [OF i] by (simp add: f(2) single_fits)
  then obtain q' where "vq_add 0 ins outs q = Some (q', Inr t)" "vq_published t q q'"
      "vq_inv q' ((\<lambda>u. map_option f (out u))(t \<mapsto> (ins, outs))) fl (ch(t := [t]))"
      "device_read q' t = Some (map device_view (input_output_iter ins outs))"
    using vq_add_ok [OF i refl _ _ f(3) refl, of 0] by (auto simp: f(2) single_fits)
  then show ?thesis
    using single_invI [of q' f out t "Some b"] f(1) by auto
qed

lemma single_full:
  assumes "single_inv f q out []" "length ins + length outs = 1"
  shows "vq_add 0 ins outs q = Some (q, Inl QueueFull)"
proof -
  obtain ch where i: "vq_inv q (\<lambda>t. map_option f (out t)) [] ch"
    using assms(1) by (auto simp: single_inv_def)
  have "\<not> vq_fits q (length ins + length outs)"
    using vq_invD(5) [OF i] unfolding assms(2) by (simp add: single_fits)
  then show ?thesis
    using vq_add_full [of ins outs q 0] assms(2) by simp
qed

lemma single_pop:
  assumes inv: "single_inv f q out fl" and t: "out t = Some b" "f b = (ins, outs)" "length ins + length outs = 1" and p: "peek_used q = Some t"
  shows "\<exists>q'. pop_used t ins outs q = Some (q', Inr (used_len q)) \<and> single_inv f q' (out(t := None)) (t # fl) \<and>
    queue_size q' = queue_size q \<and> last_used_idx q' = (last_used_idx q + 1) mod 2 ^ 16 \<and>
    used_idx (vring q') = used_idx (vring q) \<and> used_ring (vring q') = used_ring (vring q)"
proof -
  obtain ch where i: "vq_inv q (\<lambda>t. map_option f (out t)) fl ch"
    using inv by (auto simp: single_inv_def)
  have ot: "map_option f (out t) = Some (ins, outs)"
    using t by simp
  have "ch t = [t]"
    by (rule single_chain [OF i ot t(3)])
  then obtain q' where q': "pop_used t ins outs q = Some (q', Inr (used_len q))"
      "vq_inv q' ((\<lambda>u. map_option f (out u))(t := map_option f None)) (t # fl) (ch(t := []))"
      "queue_size q' = queue_size q" "last_used_idx q' = (last_used_idx q + 1) mod 2 ^ 16"
      "used_idx (vring q') = used_idx (vring q)" "used_ring (vring q') = used_ring (vring q)"
    using pop_used_ok [OF i ot p] unfolding used_len_def by auto
  then show ?thesis
    using single_invI [OF q'(2)] by blast
qed

abbreviation "rx_inv \<equiv> single_inv (\<lambda>b. ([], [b]))"
abbreviation "tx_inv \<equiv> single_inv (\<lambda>b. ([b], []))"

interpretation rxq: token_queue rx_inv "\<lambda>b. vq_add 0 [] [b]" "\<lambda>t b. pop_used t [] [b]" peek_used used_len
proof
  show "\<exists>q'. vq_add 0 [] [b] q = Some (q', Inr t) \<and> rx_inv q' (out(t \<mapsto> b)) fl"
    if "rx_inv q out (t # fl)" "0 < snd b" "snd b < 2 ^ 32" for q out t fl b
    using single_add [OF that(1), of b "[]" "[b]"] that(2,3) by (auto simp: input_output_iter_def valid_bufs_def)
  show "vq_add 0 [] [b] q = Some (q, Inl QueueFull)" if "rx_inv q out []" for q out b
    using single_full [OF that, of "[]" "[b]"] by simp
  show "\<exists>q'. pop_used t [] [b] q = Some (q', Inr (used_len q)) \<and> rx_inv q' (out(t := None)) (t # fl)"
    if "rx_inv q out fl" "out t = Some b" "peek_used q = Some t" for q out fl t b
    using single_pop [OF that(1,2), of "[]" "[b]"] that(3) by auto
qed

interpretation txq: token_queue tx_inv "\<lambda>b. vq_add 0 [b] []" "\<lambda>t b. pop_used t [b] []" peek_used used_len
proof
  show "\<exists>q'. vq_add 0 [b] [] q = Some (q', Inr t) \<and> tx_inv q' (out(t \<mapsto> b)) fl"
    if "tx_inv q out (t # fl)" "0 < snd b" "snd b < 2 ^ 32" for q out t fl b
    using single_add [OF that(1), of b "[b]" "[]"] that(2,3) by (auto simp: input_output_iter_def valid_bufs_def)
  show "vq_add 0 [b] [] q = Some (q, Inl QueueFull)" if "tx_inv q out []" for q out b
    using single_full [OF that, of "[b]" "[]"] by simp
  show "\<exists>q'. pop_used t [b] [] q = Some (q', Inr (used_len q)) \<and> tx_inv q' (out(t := None)) (t # fl)"
    if "tx_inv q out fl" "out t = Some b" "peek_used q = Some t" for q out fl t b
    using single_pop [OF that(1,2), of "[b]" "[]"] that(3) by auto
qed

section \<open>Reception\<close>

definition rx_out :: "virtio_net \<Rightarrow> nat \<Rightarrow> slice option" where
  "rx_out d t = (if t < length (rx_buffers d) then map_option rx_bytes (rx_buffers d ! t) else None)"

text \<open>
  The buffers that are in their places are exactly those in the receive queue, under their own
  tokens; \<open>fl\<close> are the tokens without a buffer.
\<close>

definition rx_ok :: "virtio_net \<Rightarrow> nat list \<Rightarrow> bool" where
  "rx_ok d fl \<longleftrightarrow> length (rx_buffers d) = queue_size (recv_queue (raw d)) \<and> rx_inv (recv_queue (raw d)) (rx_out d) fl \<and>
     (\<forall>t<length (rx_buffers d). \<forall>b. rx_buffers d ! t = Some b \<longrightarrow> rx_idx b = t \<and> MIN_BUFFER_LEN \<le> rx_len b \<and> rx_len b < 2 ^ 32)"

lemma rx_out_update:
  "t < length (rx_buffers d) \<Longrightarrow> rx_out (d\<lparr>raw := r, rx_buffers := (rx_buffers d)[t := x]\<rparr>) = (rx_out d)(t := map_option rx_bytes x)"
  by (auto simp: rx_out_def fun_eq_iff nth_list_update)

lemma rx_ok_update:
  assumes "rx_ok d fl" "t < length (rx_buffers d)" "rx_inv q ((rx_out d)(t := map_option rx_bytes x)) fl'"
    "queue_size q = queue_size (recv_queue (raw d))"
    "\<And>b. x = Some b \<Longrightarrow> rx_idx b = t \<and> MIN_BUFFER_LEN \<le> rx_len b \<and> rx_len b < 2 ^ 32" "recv_queue r = q"
  shows "rx_ok (d\<lparr>raw := r, rx_buffers := (rx_buffers d)[t := x]\<rparr>) fl'"
  using assms unfolding rx_ok_def rx_out_update [OF assms(2)] by (auto simp: nth_list_update)

lemma rx_ok_buffer:
  assumes "rx_ok d fl" "t < length (rx_buffers d)" "rx_buffers d ! t = Some b"
  shows "rx_idx b = t" "MIN_BUFFER_LEN \<le> rx_len b" "rx_len b < 2 ^ 32" "rx_out d t = Some (rx_bytes b)"
  using assms by (auto simp: rx_ok_def rx_out_def)

lemma rx_bytes_valid: "MIN_BUFFER_LEN \<le> rx_len b \<Longrightarrow> rx_len b < 2 ^ 32 \<Longrightarrow> 0 < snd (rx_bytes b) \<and> snd (rx_bytes b) < 2 ^ 32"
  by (simp add: rx_bytes_def MIN_BUFFER_LEN_def)

lemma receive_begin_ok:
  assumes "rx_inv (recv_queue r) out (t # fl)" "MIN_BUFFER_LEN \<le> snd b" "snd b < 2 ^ 32"
  shows "\<exists>q' tr'. receive_begin b r = Some (r\<lparr>recv_queue := q', transport := tr'\<rparr>, Inr t) \<and> rx_inv q' (out(t \<mapsto> b)) fl \<and>
    queue_size q' = queue_size (recv_queue r)"
proof -
  have "0 < snd b"
    using assms(2) by (simp add: MIN_BUFFER_LEN_def)
  then have "valid_bufs (input_output_iter [] [b])"
    using assms(3) by (simp add: input_output_iter_def valid_bufs_def)
  then obtain q' where "vq_add 0 [] [b] (recv_queue r) = Some (q', Inr t)" "rx_inv q' (out(t \<mapsto> b)) fl" "vq_published t (recv_queue r) q'"
    using single_add [OF assms(1), of b "[]" "[b]"] by auto
  moreover from this(3) have "queue_size q' = queue_size (recv_queue r)"
    by (simp add: vq_published_def)
  moreover define tr' where "tr' = (if should_notify q' then transport_notify QUEUE_RECEIVE (transport r) else transport r)"
  ultimately show ?thesis
    using assms(2) by (intro exI [of _ q'] exI [of _ tr']) (simp add: receive_begin_def)
qed

lemma net_receive_ok:
  assumes ok: "rx_ok d fl" and p: "peek_used (recv_queue (raw d)) = Some t" "t < length (rx_buffers d)" "rx_buffers d ! t = Some b"
  defines "n \<equiv> used_len (recv_queue (raw d))" and "h \<equiv> hdr_size (legacy_header (raw d))"
  shows "\<exists>r. net_receive d = Some (d\<lparr>raw := r, rx_buffers := (rx_buffers d)[t := None]\<rparr>,
        if n < h then Inl IoError else Inr (set_packet_len (n - h) b)) \<and>
      rx_ok (d\<lparr>raw := r, rx_buffers := (rx_buffers d)[t := None]\<rparr>) (t # fl) \<and> legacy_header r = legacy_header (raw d)"
proof -
  let ?q = "recv_queue (raw d)"
  note B = rx_ok_buffer [OF ok p(2,3)]
  have inv: "rx_inv ?q (rx_out d) fl"
    using ok by (simp add: rx_ok_def)
  obtain q' where q': "pop_used t [] [rx_bytes b] ?q = Some (q', Inr n)" "rx_inv q' ((rx_out d)(t := None)) (t # fl)"
      "queue_size q' = queue_size ?q"
    using single_pop [OF inv B(4), of "[]" "[rx_bytes b]"] p(1) by (auto simp: n_def)
  let ?r = "(raw d)\<lparr>recv_queue := q'\<rparr>"
  have rc: "receive_complete t (rx_bytes b) (raw d) = Some (?r, if n < h then Inl IoError else Inr (h, n - h))"
    by (simp add: receive_complete_def q'(1) h_def)
  have "net_receive d = Some (d\<lparr>raw := ?r, rx_buffers := (rx_buffers d)[t := None]\<rparr>,
        if n < h then Inl IoError else Inr (set_packet_len (n - h) b))"
    using p B(1) rc by (simp add: net_receive_def poll_receive_def Let_def)
  moreover have "rx_ok (d\<lparr>raw := ?r, rx_buffers := (rx_buffers d)[t := None]\<rparr>) (t # fl)"
    by (rule rx_ok_update [OF ok p(2)]) (use q' in simp_all)
  ultimately show ?thesis
    by (intro exI [of _ ?r]) simp
qed

lemma recycle_ok':
  assumes ok: "rx_ok d (t # fl)" and t: "t < length (rx_buffers d)" "rx_buffers d ! t = None"
    and b: "MIN_BUFFER_LEN \<le> rx_len b" "rx_len b < 2 ^ 32"
  shows "\<exists>r. recycle_rx_buffer b d = Some (\<lparr>raw = r, rx_buffers = (rx_buffers d)[t := Some (b\<lparr>rx_idx := t\<rparr>)]\<rparr>, Inr ()) \<and>
      rx_ok \<lparr>raw = r, rx_buffers = (rx_buffers d)[t := Some (b\<lparr>rx_idx := t\<rparr>)]\<rparr> fl \<and> legacy_header r = legacy_header (raw d)"
proof -
  have inv: "rx_inv (recv_queue (raw d)) (rx_out d) (t # fl)"
    using ok by (simp add: rx_ok_def)
  obtain q' tr' where r: "receive_begin (rx_bytes b) (raw d) = Some ((raw d)\<lparr>recv_queue := q', transport := tr'\<rparr>, Inr t)"
      "rx_inv q' ((rx_out d)(t \<mapsto> rx_bytes b)) fl" "queue_size q' = queue_size (recv_queue (raw d))"
    using receive_begin_ok [OF inv, of "rx_bytes b"] b by (auto simp: rx_bytes_def)
  let ?r = "(raw d)\<lparr>recv_queue := q', transport := tr'\<rparr>"
  have e: "\<lparr>raw = ?r, rx_buffers = (rx_buffers d)[t := Some (b\<lparr>rx_idx := t\<rparr>)]\<rparr> =
      d\<lparr>raw := ?r, rx_buffers := (rx_buffers d)[t := Some (b\<lparr>rx_idx := t\<rparr>)]\<rparr>"
    by simp
  have "rx_ok \<lparr>raw = ?r, rx_buffers = (rx_buffers d)[t := Some (b\<lparr>rx_idx := t\<rparr>)]\<rparr> fl"
    unfolding e by (rule rx_ok_update [OF ok t(1)]) (use r b in \<open>simp_all add: rx_bytes_def\<close>)
  moreover have "recycle_rx_buffer b d = Some (\<lparr>raw = ?r, rx_buffers = (rx_buffers d)[t := Some (b\<lparr>rx_idx := t\<rparr>)]\<rparr>, Inr ())"
    using r(1) t by (simp add: recycle_rx_buffer_def)
  ultimately show ?thesis
    by (intro exI [of _ ?r]) simp
qed

lemma rx_out_None: "rx_ok d fl \<Longrightarrow> peek_used (recv_queue (raw d)) = Some t \<Longrightarrow> rx_out d t = None \<longleftrightarrow> length (rx_buffers d) \<le> t \<or> rx_buffers d ! t = None"
  by (auto simp: rx_out_def)

text \<open>The start: every buffer in the queue.\<close>

lemma fill_rx_ok:
  "rx_ok d ([i..<length (rx_buffers d)]) \<Longrightarrow> i + length addrs = length (rx_buffers d) \<Longrightarrow>
   (\<forall>t\<ge>i. t < length (rx_buffers d) \<longrightarrow> rx_buffers d ! t = None) \<Longrightarrow> length (rx_buffers d) < 2 ^ 16 \<Longrightarrow>
   MIN_BUFFER_LEN \<le> buf_len div 8 * 8 \<Longrightarrow> buf_len div 8 * 8 < 2 ^ 32 \<Longrightarrow>
   \<exists>d'. fill_rx buf_len addrs i d = Some (Inr d') \<and> rx_ok d' [] \<and> length (rx_buffers d') = length (rx_buffers d) \<and>
     legacy_header (raw d') = legacy_header (raw d) \<and> send_queue (raw d') = send_queue (raw d)"
proof (induction addrs arbitrary: i d)
  case (Cons a addrs)
  let ?n = "length (rx_buffers d)"
  have i: "i < ?n"
    using Cons.prems(2) by simp
  then have fl: "[i..<?n] = i # [i + 1..<?n]"
    by (simp add: upt_conv_Cons)
  have inv: "rx_inv (recv_queue (raw d)) (rx_out d) (i # [i + 1..<?n])"
    using Cons.prems(1) unfolding fl rx_ok_def by blast
  define b where "b = \<lparr>rx_addr = a, rx_len = buf_len div 8 * 8, packet_len = 0, rx_idx = i\<rparr>"
  have nb: "rx_buffer_new a i buf_len = Some b"
    using i Cons.prems(4) by (simp add: rx_buffer_new_def b_def)
  obtain q' tr' where r: "receive_begin (rx_bytes b) (raw d) = Some ((raw d)\<lparr>recv_queue := q', transport := tr'\<rparr>, Inr i)"
      "rx_inv q' ((rx_out d)(i \<mapsto> rx_bytes b)) [i + 1..<?n]" "queue_size q' = queue_size (recv_queue (raw d))"
    using receive_begin_ok [OF inv, of "rx_bytes b"] Cons.prems(5,6) by (auto simp: rx_bytes_def b_def)
  define d1 where "d1 = d\<lparr>raw := (raw d)\<lparr>recv_queue := q', transport := tr'\<rparr>, rx_buffers := (rx_buffers d)[i := Some b]\<rparr>"
  have len: "length (rx_buffers d1) = ?n"
    by (simp add: d1_def)
  have ok1: "rx_ok d1 [i + 1..<length (rx_buffers d1)]"
    unfolding len unfolding d1_def
    by (rule rx_ok_update [OF Cons.prems(1) i]) (use r Cons.prems(5,6) in \<open>simp_all add: b_def\<close>)
  have e: "\<lparr>raw = (raw d)\<lparr>recv_queue := q', transport := tr'\<rparr>, rx_buffers = (rx_buffers d)[i := Some b]\<rparr> = d1"
    by (simp add: d1_def)
  have im: "i mod 2 ^ 16 = i"
    using i Cons.prems(4) by simp
  have run: "fill_rx buf_len (a # addrs) i d = fill_rx buf_len addrs (i + 1) d1"
    using im by (simp add: nb r(1) e)
  have "\<exists>d'. fill_rx buf_len addrs (i + 1) d1 = Some (Inr d') \<and> rx_ok d' [] \<and> length (rx_buffers d') = length (rx_buffers d1) \<and>
      legacy_header (raw d') = legacy_header (raw d1) \<and> send_queue (raw d') = send_queue (raw d1)"
    by (rule Cons.IH [OF ok1]) (use Cons.prems(2-6) in \<open>simp_all add: d1_def\<close>)
  then show ?case
    unfolding run by (simp add: d1_def)
qed simp

lemma virtio_net_new_ok:
  assumes "rx_inv (recv_queue r) (\<lambda>_. None) [0..<length addrs]" "queue_size (recv_queue r) = length addrs" "length addrs < 2 ^ 16"
    "MIN_BUFFER_LEN \<le> buf_len div 8 * 8" "buf_len div 8 * 8 < 2 ^ 32"
  shows "\<exists>d. virtio_net_new buf_len addrs r = Some (Inr d) \<and> rx_ok d [] \<and> length (rx_buffers d) = length addrs \<and>
    legacy_header (raw d) = legacy_header r \<and> send_queue (raw d) = send_queue r"
proof -
  let ?d = "\<lparr>raw = r, rx_buffers = replicate (length addrs) None\<rparr>"
  have ro: "rx_out ?d = (\<lambda>_. None)"
    by (auto simp: rx_out_def fun_eq_iff)
  have "rx_ok ?d [0..<length (rx_buffers ?d)]"
    using assms(1,2) by (simp add: rx_ok_def ro)
  then show ?thesis
    using fill_rx_ok [of ?d 0 addrs buf_len] assms(3-5) by (simp add: virtio_net_new_def)
qed

end
