(* ===== verification/Virtio_Net_Transmit.thy ===== *)
theory Virtio_Net_Transmit
  imports Virtio_Net_Properties
begin

text \<open>
  Transmission by the kernel's network device and its completion loop, and the claims about the
  network driver.
\<close>

section \<open>The completed entries of the used ring\<close>

text \<open>The tokens between the driver's index and the device's index of the used ring.\<close>

definition completed :: "vqueue \<Rightarrow> nat list" where
  "completed q = map (\<lambda>k. fst (used_ring (vring q) ! ((last_used_idx q + k) mod 2 ^ 16 AND (queue_size q - 1))) mod 2 ^ 16)
     [0..<(used_idx (vring q) + 2 ^ 16 - last_used_idx q) mod 2 ^ 16]"

lemma ring_distance:
  fixes u l n :: nat
  assumes "u < n" "l < n"
  shows "(u + n - l) mod n = (if l \<le> u then u - l else u + n - l)"
proof (cases "l \<le> u")
  case True
  then have "u + n - l = (u - l) + n"
    by simp
  then have "(u + n - l) mod n = (u - l) mod n"
    by (metis mod_add_self2)
  then show ?thesis
    using True assms by simp
qed (use assms in simp)

lemma ring_distance_Suc:
  fixes u l n :: nat
  assumes "u < n" "l < n" "u \<noteq> l"
  shows "(u + n - l) mod n = Suc ((u + n - (l + 1) mod n) mod n)"
proof (cases "l + 1 < n")
  case True
  then show ?thesis
    using ring_distance [OF assms(1,2)] ring_distance [OF assms(1) True] assms by auto
next
  case False
  then have n: "l + 1 = n"
    using assms(2) by simp
  then have "\<not> l \<le> u"
    using assms(1,3) by linarith
  then have "(u + n - l) mod n = Suc u"
    using ring_distance [OF assms(1,2)] n by simp
  moreover have "(u + n - (l + 1) mod n) mod n = u"
    using assms(1) n by simp
  ultimately show ?thesis
    by simp
qed

lemma completed_Nil: "used_idx (vring q) < 2 ^ 16 \<Longrightarrow> last_used_idx q < 2 ^ 16 \<Longrightarrow> \<not> can_pop q \<Longrightarrow> completed q = []"
  by (simp add: completed_def can_pop_def)

lemma completed_Cons:
  assumes "used_idx (vring q) < 2 ^ 16" "last_used_idx q < 2 ^ 16" "can_pop q"
    and q': "last_used_idx q' = (last_used_idx q + 1) mod 2 ^ 16" "used_idx (vring q') = used_idx (vring q)"
      "used_ring (vring q') = used_ring (vring q)" "queue_size q' = queue_size q"
  shows "\<exists>t. peek_used q = Some t \<and> completed q = t # completed q'"
proof -
  define n where "n = (used_idx (vring q') + 2 ^ 16 - last_used_idx q') mod 2 ^ 16"
  have n: "(used_idx (vring q) + 2 ^ 16 - last_used_idx q) mod 2 ^ 16 = Suc n"
    unfolding n_def q'(1,2) by (rule ring_distance_Suc) (use assms(1-3) in \<open>simp_all add: can_pop_def\<close>)
  have "[0..<Suc n] = 0 # map Suc [0..<n]"
    by (simp add: map_Suc_upt upt_conv_Cons del: upt_Suc)
  moreover have "(last_used_idx q + Suc k) mod 2 ^ 16 = (last_used_idx q' + k) mod 2 ^ 16" for k
    unfolding q'(1) by (simp add: mod_simps)
  ultimately show ?thesis
    using assms(2,3) unfolding completed_def n n_def [symmetric] q'(3,4)
    by (simp add: peek_used_def last_used_slot_def)
qed

section \<open>Pending transmissions\<close>

lemma remove_position:
  assumes "distinct (map fst ps)" "position (\<lambda>p. fst p = t) ps = Some i"
  shows "take i ps @ drop (Suc i) ps = filter (\<lambda>p. fst p \<noteq> t) ps" "map_of ps t = Some (snd (ps ! i))"
proof -
  have i: "i < length ps" "fst (ps ! i) = t"
    using position_SomeD [OF assms(2)] by auto
  have ps: "ps = take i ps @ ps ! i # drop (Suc i) ps"
    using i(1) by (rule id_take_nth_drop)
  have d: "distinct (map fst (take i ps @ ps ! i # drop (Suc i) ps))"
    using assms(1) ps by simp
  have "filter (\<lambda>p. fst p \<noteq> t) (take i ps) = take i ps" "filter (\<lambda>p. fst p \<noteq> t) (drop (Suc i) ps) = drop (Suc i) ps"
    unfolding filter_id_conv using d i(2) by (auto simp: image_iff)
  then have "filter (\<lambda>p. fst p \<noteq> t) (take i ps @ ps ! i # drop (Suc i) ps) = take i ps @ drop (Suc i) ps"
    using i(2) by simp
  then show "take i ps @ drop (Suc i) ps = filter (\<lambda>p. fst p \<noteq> t) ps"
    using ps by simp
  have "(t, snd (ps ! i)) \<in> set ps"
    using nth_mem [OF i(1)] i(2) by (metis prod.collapse)
  then show "map_of ps t = Some (snd (ps ! i))"
    using map_of_is_SomeI [OF assms(1)] by blast
qed

lemma map_of_filter_neq: "map_of (filter (\<lambda>p. fst p \<noteq> t) ps) = (map_of ps)(t := None)"
  by (induction ps) (auto simp: fun_eq_iff)

text \<open>Every buffer with the device is kept alive under its token, and only those.\<close>

definition tx_ok :: "net_device \<Rightarrow> nat list \<Rightarrow> bool" where
  "tx_ok d fl \<longleftrightarrow> tx_inv (send_queue (raw (inner d))) (map_of (pending_tx d)) fl \<and> distinct (map fst (pending_tx d)) \<and>
     used_idx (vring (send_queue (raw (inner d)))) < 2 ^ 16"

lemma tx_ok_last: "tx_ok d fl \<Longrightarrow> last_used_idx (send_queue (raw (inner d))) < 2 ^ 16"
  using vq_invD(1) by (fastforce simp: tx_ok_def single_inv_def vq_shape_def)

lemma drain_stuck:
  assumes "poll_transmit (raw (inner d)) = Some t" "t \<notin> fst ` set (pending_tx d)"
  shows "drain_completed_tx d = None"
proof -
  have pos: "position (\<lambda>p. fst p = t) (pending_tx d) = None"
    using assms(2) by (auto simp: position_None_iff)
  have "x \<noteq> d" if "drain_completed_tx x = Some y" for x y
  proof (rule drain_completed_tx.raw_induct [where P = "\<lambda>x y. x \<noteq> d", OF _ that])
    fix f x y
    assume IH: "\<And>x y. f x = Some y \<Longrightarrow> x \<noteq> d"
      and body: "(case poll_transmit (raw (inner x)) of None \<Rightarrow> Some (Some x)
        | Some token \<Rightarrow>
            (case position (\<lambda>p. fst p = token) (pending_tx x) of
               None \<Rightarrow> f x
             | Some i \<Rightarrow>
                 (case transmit_complete token (snd (pending_tx x ! i)) (raw (inner x)) of
                    None \<Rightarrow> Some None
                  | Some (r, res) \<Rightarrow>
                      f \<lparr>inner = (inner x)\<lparr>raw := r\<rparr>, pending_tx = take i (pending_tx x) @ drop (Suc i) (pending_tx x)\<rparr>))) = Some y"
    show "x \<noteq> d"
    proof
      assume "x = d"
      then have "f d = Some y"
        using body assms(1) pos by simp
      then show False
        using IH by blast
    qed
  qed
  then show ?thesis
    by (cases "drain_completed_tx d") auto
qed

lemma drain_step:
  assumes ok: "tx_ok d fl" and t: "peek_used (send_queue (raw (inner d))) = Some t" "t \<in> fst ` set (pending_tx d)"
  shows "\<exists>d1. drain_completed_tx d = drain_completed_tx d1 \<and> tx_ok d1 (t # fl) \<and> pending_tx d1 = filter (\<lambda>p. fst p \<noteq> t) (pending_tx d) \<and>
    completed (send_queue (raw (inner d))) = t # completed (send_queue (raw (inner d1))) \<and>
    inner d1 = (inner d)\<lparr>raw := (raw (inner d))\<lparr>send_queue := send_queue (raw (inner d1))\<rparr>\<rparr>"
proof -
  let ?q = "send_queue (raw (inner d))"
  obtain i where i: "position (\<lambda>p. fst p = t) (pending_tx d) = Some i"
    using t(2) by (cases "position (\<lambda>p. fst p = t) (pending_tx d)") (auto simp: position_None_iff)
  have D: "distinct (map fst (pending_tx d))" "tx_inv ?q (map_of (pending_tx d)) fl" "used_idx (vring ?q) < 2 ^ 16"
    using ok by (simp_all add: tx_ok_def)
  note R = remove_position [OF D(1) i]
  obtain q' where q': "pop_used t [snd (pending_tx d ! i)] [] ?q = Some (q', Inr (used_len ?q))"
      "tx_inv q' ((map_of (pending_tx d))(t := None)) (t # fl)" "queue_size q' = queue_size ?q"
      "last_used_idx q' = (last_used_idx ?q + 1) mod 2 ^ 16" "used_idx (vring q') = used_idx (vring ?q)" "used_ring (vring q') = used_ring (vring ?q)"
    using single_pop [OF D(2) R(2), of "[snd (pending_tx d ! i)]" "[]"] t(1) by auto
  define d1 where "d1 = \<lparr>inner = (inner d)\<lparr>raw := (raw (inner d))\<lparr>send_queue := q'\<rparr>\<rparr>, pending_tx = filter (\<lambda>p. fst p \<noteq> t) (pending_tx d)\<rparr>"
  have "drain_completed_tx d = drain_completed_tx d1"
    by (subst drain_completed_tx.simps) (simp add: poll_transmit_def t(1) i transmit_complete_def q'(1) R(1) d1_def)
  moreover have "tx_ok d1 (t # fl)"
    using q'(2,5) D(1,3) by (simp add: tx_ok_def d1_def map_of_filter_neq distinct_map_filter)
  moreover have "can_pop ?q"
    using t(1) by (simp add: peek_used_def split: if_splits)
  then have "completed ?q = t # completed q'"
    using completed_Cons [OF D(3) tx_ok_last [OF ok] _ q'(4-6,3)] t(1) by auto
  ultimately show ?thesis
    by (intro exI [of _ d1]) (simp add: d1_def)
qed

lemma drain_spec:
  "tx_ok d fl \<Longrightarrow> ts = completed (send_queue (raw (inner d))) \<Longrightarrow>
   if distinct ts \<and> set ts \<subseteq> fst ` set (pending_tx d)
   then \<exists>d'. drain_completed_tx d = Some (Some d') \<and> tx_ok d' (rev ts @ fl) \<and>
     pending_tx d' = filter (\<lambda>p. fst p \<notin> set ts) (pending_tx d) \<and> peek_used (send_queue (raw (inner d'))) = None \<and>
     rx_buffers (inner d') = rx_buffers (inner d) \<and> recv_queue (raw (inner d')) = recv_queue (raw (inner d)) \<and>
     legacy_header (raw (inner d')) = legacy_header (raw (inner d))
   else drain_completed_tx d = None"
proof (induction ts arbitrary: d fl)
  case Nil
  let ?q = "send_queue (raw (inner d))"
  have "\<not> can_pop ?q"
  proof
    assume c: "can_pop ?q"
    have "\<exists>t. peek_used ?q = Some t \<and> completed ?q = t # completed (?q\<lparr>last_used_idx := (last_used_idx ?q + 1) mod 2 ^ 16\<rparr>)"
      by (rule completed_Cons) (use Nil.prems(1) tx_ok_last [OF Nil.prems(1)] c in \<open>simp_all add: tx_ok_def queue_size_def\<close>)
    then show False
      using Nil.prems(2) by simp
  qed
  then have p: "peek_used ?q = None"
    by (simp add: peek_used_def)
  then have "drain_completed_tx d = Some (Some d)"
    by (subst drain_completed_tx.simps) (simp add: poll_transmit_def)
  then show ?case
    using Nil.prems(1) p by simp
next
  case (Cons t ts)
  let ?q = "send_queue (raw (inner d))"
  have "can_pop ?q"
  proof (rule ccontr)
    assume "\<not> can_pop ?q"
    then have "completed ?q = []"
      by (intro completed_Nil) (use Cons.prems(1) tx_ok_last [OF Cons.prems(1)] in \<open>simp_all add: tx_ok_def\<close>)
    then show False
      using Cons.prems(2) by simp
  qed
  moreover have "\<exists>u. peek_used ?q = Some u \<and> completed ?q = u # completed (?q\<lparr>last_used_idx := (last_used_idx ?q + 1) mod 2 ^ 16\<rparr>)"
    by (rule completed_Cons) (use Cons.prems(1) tx_ok_last [OF Cons.prems(1)] calculation in \<open>simp_all add: tx_ok_def queue_size_def\<close>)
  ultimately have p: "peek_used ?q = Some t"
    using Cons.prems(2) by auto
  show ?case
  proof (cases "t \<in> fst ` set (pending_tx d)")
    case False
    then show ?thesis
      using drain_stuck [of d t] p by (auto simp: poll_transmit_def)
  next
    case True
    obtain d1 where d1: "drain_completed_tx d = drain_completed_tx d1" "tx_ok d1 (t # fl)"
        "pending_tx d1 = filter (\<lambda>p. fst p \<noteq> t) (pending_tx d)" "completed ?q = t # completed (send_queue (raw (inner d1)))"
        "inner d1 = (inner d)\<lparr>raw := (raw (inner d))\<lparr>send_queue := send_queue (raw (inner d1))\<rparr>\<rparr>"
      using drain_step [OF Cons.prems(1) p True] by blast
    have same: "rx_buffers (inner d1) = rx_buffers (inner d)" "recv_queue (raw (inner d1)) = recv_queue (raw (inner d))"
        "legacy_header (raw (inner d1)) = legacy_header (raw (inner d))"
      by (subst d1(5), simp)+
    have ts: "ts = completed (send_queue (raw (inner d1)))"
      using d1(4) Cons.prems(2) by simp
    have set: "fst ` set (pending_tx d1) = fst ` set (pending_tx d) - {t}"
      unfolding d1(3) by auto
    have iff: "distinct (t # ts) \<and> set (t # ts) \<subseteq> fst ` set (pending_tx d) \<longleftrightarrow> distinct ts \<and> set ts \<subseteq> fst ` set (pending_tx d1)"
      unfolding set using True by auto
    have fil: "filter (\<lambda>p. fst p \<notin> set ts) (pending_tx d1) = filter (\<lambda>p. fst p \<notin> set (t # ts)) (pending_tx d)"
      unfolding d1(3) by (auto intro: filter_cong)
    have rv: "rev (t # ts) @ fl = rev ts @ t # fl"
      by simp
    show ?thesis
      using Cons.IH [OF d1(2) ts] unfolding iff d1(1) fil same rv .
  qed
qed

lemma transmit_begin_ok:
  assumes "tx_inv (send_queue r) out (t # fl)" "hdr_size (legacy_header r) \<le> snd b" "snd b < 2 ^ 32"
  shows "\<exists>q' tr'. transmit_begin b r = Some (r\<lparr>send_queue := q', transport := tr'\<rparr>, Inr t) \<and> tx_inv q' (out(t \<mapsto> b)) fl \<and>
    vq_published t (send_queue r) q' \<and> device_read q' t = Some [(fst b, snd b, False)]"
proof -
  have "0 < snd b"
    using assms(2) by (auto simp: hdr_size_def split: if_splits)
  then have v: "valid_bufs (input_output_iter [b] [])"
    using assms(3) by (simp add: input_output_iter_def valid_bufs_def)
  obtain q' where "vq_add 0 [b] [] (send_queue r) = Some (q', Inr t)" "tx_inv q' (out(t \<mapsto> b)) fl" "vq_published t (send_queue r) q'"
      "device_read q' t = Some [(fst b, snd b, False)]"
    using single_add [OF assms(1) _ _ v] by (auto simp: input_output_iter_def device_view_def)
  moreover define tr' where "tr' = (if should_notify q' then transport_notify QUEUE_TRANSMIT (transport r) else transport r)"
  ultimately show ?thesis
    using assms(2) by (intro exI [of _ q'] exI [of _ tr']) (simp add: transmit_begin_def)
qed

lemma transmit_begin_full:
  assumes "tx_inv (send_queue r) out []" "hdr_size (legacy_header r) \<le> snd b"
  shows "transmit_begin b r = Some (r, Inl QueueFull)"
  using txq.add_full [OF assms(1), of b] assms(2) by (simp add: transmit_begin_def)

lemma tx_ok_fresh:
  assumes "tx_inv q (map_of ps) (t # fl)" shows "t \<notin> fst ` set ps"
proof -
  obtain ch where "vq_inv q (\<lambda>u. map_option (\<lambda>b. ([b], [])) (map_of ps u)) (t # fl) ch"
    using assms by (auto simp: single_inv_def)
  from vq_inv_free [OF this, of t] have "map_of ps t = None"
    by simp
  then show ?thesis
    by (simp add: map_of_eq_None_iff)
qed

text \<open>What is handed to the device is the zero header followed by the frame.\<close>

lemma transmit_buffer:
  "fill_buffer_header r (replicate 32 0) = Inr (replicate 32 0, hdr_size (legacy_header r))"
  "fill_buffer_header r (replicate (hdr_size (legacy_header r) + n) 0) =
     Inr (replicate (hdr_size (legacy_header r) + n) 0, hdr_size (legacy_header r))"
proof -
  have "hdr_size (legacy_header r) \<le> 32"
    by (simp add: hdr_size_def)
  then show "fill_buffer_header r (replicate 32 0) = Inr (replicate 32 0, hdr_size (legacy_header r))"
    by (simp add: fill_buffer_header_def Let_def replicate_add [symmetric])
  show "fill_buffer_header r (replicate (hdr_size (legacy_header r) + n) 0) =
     Inr (replicate (hdr_size (legacy_header r) + n) 0, hdr_size (legacy_header r))"
    by (simp add: fill_buffer_header_def Let_def replicate_add [symmetric])
qed

lemma device_transmit_unfold:
  assumes "drain_completed_tx d = Some (Some d1)" and h: "h = hdr_size (legacy_header (raw (inner d1)))"
  shows "device_transmit a frame mem d =
    Some (case transmit_begin (a, h + length frame) (raw (inner d1)) of
        None \<Rightarrow> None
      | Some (r', Inl e) \<Rightarrow> Some (mem_write mem a (replicate h 0 @ frame), d1\<lparr>inner := (inner d1)\<lparr>raw := r'\<rparr>\<rparr>)
      | Some (r', Inr token) \<Rightarrow>
          Some (mem_write mem a (replicate h 0 @ frame),
            \<lparr>inner = (inner d1)\<lparr>raw := r'\<rparr>, pending_tx = pending_tx d1 @ [(token, (a, h + length frame))]\<rparr>))"
proof -
  have tk: "take (hdr_size l) (replicate (hdr_size l + length frame) 0) = replicate (hdr_size l) 0" for l
    by simp
  show ?thesis
    unfolding device_transmit_def assms(1) Option.bind.bind_lunit option.case Let_def transmit_buffer sum.case prod.case h tk
      length_append length_replicate ..
qed

section \<open>The owning queue\<close>

text \<open>Every buffer is in the queue, under its own index.\<close>

definition owning_out :: "nat list \<Rightarrow> nat \<Rightarrow> nat \<Rightarrow> slice option" where
  "owning_out addrs bsize t = (if t < length addrs then Some (addrs ! t, bsize) else None)"

definition owning_ok :: "owning_queue \<Rightarrow> bool" where
  "owning_ok oq \<longleftrightarrow> length (buffers oq) = queue_size (oq_queue oq) \<and> 0 < buffer_size oq \<and> buffer_size oq < 2 ^ 32 \<and>
     rx_inv (oq_queue oq) (owning_out (buffers oq) (buffer_size oq)) []"

lemma owning_fill_ok:
  "rx_inv q (\<lambda>t. if t < i then owning_out addrs bsize t else None) [i..<length addrs] \<Longrightarrow> i \<le> length addrs \<Longrightarrow>
   0 < bsize \<Longrightarrow> bsize < 2 ^ 32 \<Longrightarrow>
   \<exists>q'. owning_fill bsize (drop i addrs) i q = Some (Inr q') \<and> rx_inv q' (owning_out addrs bsize) [] \<and> queue_size q' = queue_size q"
proof (induction "length addrs - i" arbitrary: i q)
  case 0
  then have "(\<lambda>t. if t < i then owning_out addrs bsize t else None) = owning_out addrs bsize" "i = length addrs"
    by (auto simp: owning_out_def)
  then show ?case
    using 0(2) by simp
next
  case (Suc k)
  then have i: "i < length addrs"
    by simp
  let ?b = "(addrs ! i, bsize)"
  have inv: "rx_inv q (\<lambda>t. if t < i then owning_out addrs bsize t else None) (i # [i + 1..<length addrs])"
    using Suc.prems(1) i by (simp add: upt_conv_Cons)
  have v: "valid_bufs (input_output_iter [] [?b])"
    using Suc.prems(3,4) by (simp add: input_output_iter_def valid_bufs_def)
  obtain q1 where q1: "vq_add 0 [] [?b] q = Some (q1, Inr i)"
      "rx_inv q1 ((\<lambda>t. if t < i then owning_out addrs bsize t else None)(i \<mapsto> ?b)) [i + 1..<length addrs]" "queue_size q1 = queue_size q"
    using single_add [OF inv _ _ v] by (auto simp: vq_published_def)
  have e: "(\<lambda>t. if t < i then owning_out addrs bsize t else None)(i \<mapsto> ?b) = (\<lambda>t. if t < i + 1 then owning_out addrs bsize t else None)"
    using i by (auto simp: fun_eq_iff owning_out_def less_Suc_eq)
  have k: "k = length addrs - (i + 1)"
    using Suc.hyps(2) by simp
  obtain q' where "owning_fill bsize (drop (i + 1) addrs) (i + 1) q1 = Some (Inr q')" "rx_inv q' (owning_out addrs bsize) []"
      "queue_size q' = queue_size q1"
    using Suc.hyps(1) [OF k] Suc.prems(3,4) q1(2) i unfolding e by auto
  moreover have "drop i addrs = addrs ! i # drop (i + 1) addrs"
    using i by (simp add: Cons_nth_drop_Suc)
  ultimately show ?case
    using q1 by auto
qed

lemma owning_new_ok:
  assumes "rx_inv q (\<lambda>_. None) [0..<length addrs]" "queue_size q = length addrs" "0 < bsize" "bsize < 2 ^ 32"
  shows "\<exists>oq. owning_new bsize addrs q = Some (Inr oq) \<and> owning_ok oq"
  using owning_fill_ok [of q 0 addrs bsize] assms by (auto simp: owning_new_def owning_ok_def)

lemma owning_requeue:
  assumes ok: "owning_ok oq" and t: "peek_used (oq_queue oq) = Some t" "t < queue_size (oq_queue oq)"
  shows "\<exists>q1 q2. pop_used t [] [(buffers oq ! t, buffer_size oq)] (oq_queue oq) = Some (q1, Inr (used_len (oq_queue oq))) \<and>
    vq_add 0 [] [(buffers oq ! t, buffer_size oq)] q1 = Some (q2, Inr t) \<and> owning_ok (oq\<lparr>oq_queue := q2\<rparr>)"
proof -
  let ?b = "(buffers oq ! t, buffer_size oq)" and ?out = "owning_out (buffers oq) (buffer_size oq)"
  have O: "length (buffers oq) = queue_size (oq_queue oq)" "0 < buffer_size oq" "buffer_size oq < 2 ^ 32" "rx_inv (oq_queue oq) ?out []"
    using ok by (simp_all add: owning_ok_def)
  have ot: "?out t = Some ?b"
    using t(2) O(1) by (simp add: owning_out_def)
  then have same: "?out(t \<mapsto> ?b) = ?out"
    by auto
  obtain q1 where q1: "pop_used t [] [?b] (oq_queue oq) = Some (q1, Inr (used_len (oq_queue oq)))" "rx_inv q1 (?out(t := None)) [t]"
      "queue_size q1 = queue_size (oq_queue oq)"
    using single_pop [OF O(4) ot, of "[]" "[?b]"] t(1) by auto
  have v: "valid_bufs (input_output_iter [] [?b])"
    using O(2,3) by (simp add: input_output_iter_def valid_bufs_def)
  obtain q2 where q2: "vq_add 0 [] [?b] q1 = Some (q2, Inr t)" "rx_inv q2 ((?out(t := None))(t \<mapsto> ?b)) []" "queue_size q2 = queue_size q1"
    using single_add [OF q1(2) _ _ v] by (auto simp: vq_published_def)
  have "owning_ok (oq\<lparr>oq_queue := q2\<rparr>)"
    using q2(2,3) q1(3) O same by (simp add: owning_ok_def)
  then show ?thesis
    using q1(1) q2(1) by blast
qed

section \<open>A concrete device\<close>

definition example_raw :: net_raw where
  "example_raw = \<lparr>transport = example_transport, mac = [2, 0, 0, 0, 0, 1], recv_queue = example_queue, send_queue = example_queue,
     legacy_header = False\<rparr>"

definition example_net :: virtio_net where
  "example_net = projr (the (virtio_net_new 2048 [0x10000, 0x11000, 0x12000, 0x13000] example_raw))"

lemma example_queue_empty: "single_inv f example_queue (\<lambda>_. None) [0..<4]"
  using example_queue_inv(1) by (auto simp: single_inv_def)

lemma example_net_ok: "rx_ok example_net []" "length (rx_buffers example_net) = 4" "legacy_header (raw example_net) = False"
    "send_queue (raw example_net) = example_queue"
proof -
  let ?as = "[0x10000, 0x11000, 0x12000, 0x13000] :: nat list"
  have l: "length ?as = 4"
    by simp
  have "rx_inv (recv_queue example_raw) (\<lambda>_. None) [0..<length ?as]"
    unfolding l using example_queue_empty by (simp add: example_raw_def)
  moreover have "queue_size (recv_queue example_raw) = length ?as"
    by (simp add: example_raw_def example_queue_inv)
  moreover have "length ?as < 2 ^ 16" "MIN_BUFFER_LEN \<le> 2048 div 8 * 8" "2048 div 8 * 8 < (2::nat) ^ 32"
    by (simp_all add: MIN_BUFFER_LEN_def)
  ultimately obtain d where "virtio_net_new 2048 ?as example_raw = Some (Inr d)" "rx_ok d []"
      "length (rx_buffers d) = length ?as" "legacy_header (raw d) = legacy_header example_raw"
      "send_queue (raw d) = send_queue example_raw"
    using virtio_net_new_ok [of example_raw ?as 2048] by blast
  then show "rx_ok example_net []" "length (rx_buffers example_net) = 4" "legacy_header (raw example_net) = False"
      "send_queue (raw example_net) = example_queue"
    by (simp_all add: example_net_def example_raw_def)
qed

lemma rx_full:
  assumes "rx_ok d []" "t < length (rx_buffers d)" shows "\<exists>b. rx_buffers d ! t = Some b"
proof -
  obtain ch where i: "vq_inv (recv_queue (raw d)) (\<lambda>t. map_option (\<lambda>b. ([], [b])) (rx_out d t)) [] ch"
    using assms(1) by (auto simp: rx_ok_def single_inv_def)
  have "t < queue_size (recv_queue (raw d))"
    using assms by (simp add: rx_ok_def)
  then obtain u where u: "t \<in> set (ch u)"
    using vq_invD(11) [OF i] by auto
  then obtain b where b: "rx_out d u = Some b"
    using vq_invD(6) [OF i, of u] by (cases "rx_out d u") auto
  then have "ch u = [u]"
    by (intro single_chain [OF i, of u "[]" "[b]"]) simp_all
  then show ?thesis
    using u b by (auto simp: rx_out_def split: if_splits)
qed

text \<open>The device completes a token with a length.\<close>

definition completes :: "nat \<Rightarrow> nat \<Rightarrow> vqueue \<Rightarrow> vqueue" where
  "completes t n q = q\<lparr>vring := (vring q)\<lparr>used_idx := (last_used_idx q + 1) mod 2 ^ 16, used_ring := replicate (queue_size q) (t, n)\<rparr>\<rparr>"

lemma single_inv_completes: "single_inv f q out fl \<Longrightarrow> single_inv f (completes t n q) out fl"
proof -
  assume "single_inv f q out fl"
  then obtain ch where i: "vq_inv q (\<lambda>t. map_option f (out t)) fl ch"
    by (auto simp: single_inv_def)
  have "vq_inv (completes t n q) (\<lambda>t. map_option f (out t)) fl ch"
    unfolding completes_def by (rule vq_inv_vring [OF i]) (use vq_inv_ring_size [OF i] in \<open>simp add: ring_size_def\<close>)
  then show ?thesis
    by (auto simp: single_inv_def)
qed

lemma next_index_neq:
  fixes l n :: nat assumes "l < n" "1 < n" shows "(l + 1) mod n \<noteq> l"
proof (cases "l + 1 < n")
  case False
  then have "l + 1 = n"
    using assms(1) by simp
  then show ?thesis
    using assms(2) by force
qed simp

lemma completes_used:
  assumes "single_inv f q out fl" "t < 2 ^ 16"
  shows "peek_used (completes t n q) = Some t" "used_len (completes t n q) = n" "queue_size (completes t n q) = queue_size q"
    "used_idx (vring (completes t n q)) < 2 ^ 16" "completed (completes t n q) = [t]"
proof -
  obtain ch where i: "vq_inv q (\<lambda>t. map_option f (out t)) fl ch"
    using assms(1) by (auto simp: single_inv_def)
  have sh: "vq_shape q" "last_used_idx q < 2 ^ 16"
    using vq_invD(1) [OF i] by (simp_all add: vq_shape_def)
  have sz: "queue_size (completes t n q) = queue_size q"
    by (simp add: completes_def queue_size_def)
  have at: "replicate (queue_size q) (t, n) ! (k AND (queue_size q - 1)) = (t, n)" for k
    by (rule nth_replicate) (rule slot_less [OF sh(1)])
  have slot: "used_ring (vring (completes t n q)) ! last_used_slot (completes t n q) = (t, n)"
    unfolding last_used_slot_def sz using at by (simp add: completes_def)
  have ne: "(last_used_idx q + 1) mod 2 ^ 16 \<noteq> last_used_idx q"
    by (rule next_index_neq) (use sh(2) in simp_all)
  have cp: "can_pop (completes t n q)"
    using ne by (simp add: can_pop_def completes_def)
  then show "peek_used (completes t n q) = Some t" "used_len (completes t n q) = n" "queue_size (completes t n q) = queue_size q"
    using assms(2) slot sz by (simp_all add: peek_used_def used_len_def)
  show "used_idx (vring (completes t n q)) < 2 ^ 16"
    by (simp add: completes_def)
  have "((last_used_idx q + 1) mod 2 ^ 16 + 2 ^ 16 - last_used_idx q) mod 2 ^ 16 = Suc 0"
    using ring_distance_Suc [of "(last_used_idx q + 1) mod 2 ^ 16" "2 ^ 16" "last_used_idx q"] sh(2) ne by simp
  then show "completed (completes t n q) = [t]"
    unfolding completed_def sz using at assms(2) by (simp add: completes_def)
qed

lemma rx_ok_completes:
  assumes "rx_ok d fl" shows "rx_ok (d\<lparr>raw := (raw d)\<lparr>recv_queue := completes t n (recv_queue (raw d))\<rparr>\<rparr>) fl"
proof -
  have "rx_out (d\<lparr>raw := r\<rparr>) = rx_out d" for r
    by (simp add: rx_out_def fun_eq_iff)
  then show ?thesis
    using assms single_inv_completes by (simp add: rx_ok_def completes_def queue_size_def)
qed

definition example_device :: net_device where
  "example_device = net_device_new example_net"

section \<open>Properties\<close>

text \<open>
  C20: reception, with a device that may misbehave.  While the buffers in their places are exactly
  those in the receive queue, \<open>receive\<close> with nothing completed changes nothing; with a completion it
  panics exactly when the token is not that of a buffer place or the reported length exceeds the
  buffer; it delivers nothing and changes nothing when the place is empty; a length shorter than the
  header loses the buffer for good; otherwise it delivers exactly the bytes after the header and the
  buffer is back in the queue under the same token.
\<close>

theorem device_receive_exact:
  assumes "rx_ok (inner d) fl"
  defines "q \<equiv> recv_queue (raw (inner d))" and "h \<equiv> hdr_size (legacy_header (raw (inner d)))"
  shows "case peek_used q of
      None \<Rightarrow> device_receive mem d = Some (d, None)
    | Some t \<Rightarrow>
        if queue_size q \<le> t then device_receive mem d = None
        else
          (case rx_buffers (inner d) ! t of
             None \<Rightarrow> device_receive mem d = Some (d, None)
           | Some b \<Rightarrow>
               if used_len q < h
               then \<exists>d'. device_receive mem d = Some (d', None) \<and> rx_ok (inner d') (t # fl) \<and> rx_buffers (inner d') = (rx_buffers (inner d))[t := None]
               else if rx_len b < used_len q then device_receive mem d = None
               else \<exists>d'. device_receive mem d = Some (d', Some (mem_read mem (rx_addr b + h) (used_len q - h))) \<and>
                 rx_ok (inner d') fl \<and> rx_buffers (inner d') = (rx_buffers (inner d))[t := Some (b\<lparr>packet_len := used_len q - h\<rparr>)])"
proof (cases "peek_used q")
  case None
  then show ?thesis
    by (simp add: device_receive_def net_receive_def poll_receive_def q_def)
next
  case (Some t)
  then have p: "peek_used (recv_queue (raw (inner d))) = Some t"
    by (simp add: q_def)
  have len: "length (rx_buffers (inner d)) = queue_size q"
    using assms(1) by (simp add: rx_ok_def q_def)
  show ?thesis
  proof (cases "t < queue_size q")
    case False
    then show ?thesis
      using Some p len by (simp add: device_receive_def net_receive_def poll_receive_def)
  next
    case True
    then have t: "t < length (rx_buffers (inner d))"
      using len by simp
    show ?thesis
    proof (cases "rx_buffers (inner d) ! t")
      case None
      then show ?thesis
        using Some p len True by (simp add: device_receive_def net_receive_def poll_receive_def)
    next
      case b: (Some b)
      note B = rx_ok_buffer [OF assms(1) t b]
      define d1 where "d1 r = (inner d)\<lparr>raw := r, rx_buffers := (rx_buffers (inner d))[t := None]\<rparr>" for r
      obtain r where r: "net_receive (inner d) = Some (d1 r, if used_len q < h then Inl IoError else Inr (set_packet_len (used_len q - h) b))"
          "rx_ok (d1 r) (t # fl)" "legacy_header r = legacy_header (raw (inner d))"
        using net_receive_ok [OF assms(1) p t b] by (auto simp: q_def h_def d1_def)
      consider (short) "used_len q < h" | (long) "h \<le> used_len q" "rx_len b < used_len q" | (fits) "h \<le> used_len q" "used_len q \<le> rx_len b"
        by linarith
      then show ?thesis
      proof cases
        case short
        then have "device_receive mem d = Some (d\<lparr>inner := d1 r\<rparr>, None)"
          using r(1) by (simp add: device_receive_def)
        then show ?thesis
          using Some True b short r(2) by (auto simp: d1_def)
      next
        case long
        then have "device_receive mem d = None"
          using r(1,3) by (simp add: device_receive_def rx_packet_def set_packet_len_def d1_def h_def)
        then show ?thesis
          using Some True b long by simp
      next
        case fits
        define b' where "b' = b\<lparr>packet_len := used_len q - h\<rparr>"
        have t1: "t < length (rx_buffers (d1 r))" "rx_buffers (d1 r) ! t = None"
          using t by (simp_all add: d1_def)
        obtain r2 where r2: "recycle_rx_buffer b' (d1 r) = Some (\<lparr>raw = r2, rx_buffers = (rx_buffers (d1 r))[t := Some (b'\<lparr>rx_idx := t\<rparr>)]\<rparr>, Inr ())"
            "rx_ok \<lparr>raw = r2, rx_buffers = (rx_buffers (d1 r))[t := Some (b'\<lparr>rx_idx := t\<rparr>)]\<rparr> fl"
          using recycle_ok' [OF r(2) t1, of b'] B(2,3) by (auto simp: b'_def)
        have idx: "b'\<lparr>rx_idx := t\<rparr> = b'"
          using B(1) by (simp add: b'_def)
        have "device_receive mem d = Some (d\<lparr>inner := \<lparr>raw = r2, rx_buffers = (rx_buffers (d1 r))[t := Some b']\<rparr>\<rparr>,
            Some (mem_read mem (rx_addr b + h) (used_len q - h)))"
          using r(1,3) r2(1) fits unfolding idx
          by (simp add: device_receive_def rx_packet_def set_packet_len_def b'_def d1_def h_def)
        then show ?thesis
          using Some True b fits r2(2) unfolding idx by (auto simp: d1_def b'_def)
      qed
    qed
  qed
qed

theorem device_receive_exact_witness:
  "\<exists>b d'. rx_buffers example_net ! 0 = Some b \<and>
    device_receive of_nat (net_device_new (example_net\<lparr>raw := (raw example_net)\<lparr>recv_queue := completes 0 76 (recv_queue (raw example_net))\<rparr>\<rparr>))
      = Some (d', Some (mem_read of_nat (rx_addr b + 12) 64)) \<and> rx_ok (inner d') []"
proof -
  let ?n = "example_net\<lparr>raw := (raw example_net)\<lparr>recv_queue := completes 0 76 (recv_queue (raw example_net))\<rparr>\<rparr>"
  have ok: "rx_ok (inner (net_device_new ?n)) []"
    using rx_ok_completes [OF example_net_ok(1)] by (simp add: net_device_new_def)
  obtain b where b: "rx_buffers example_net ! 0 = Some b"
    using rx_full [OF example_net_ok(1), of 0] example_net_ok(2) by auto
  have rl: "76 \<le> rx_len b"
    using rx_ok_buffer(2) [OF example_net_ok(1) _ b] example_net_ok(2) by (simp add: MIN_BUFFER_LEN_def)
  have inv: "rx_inv (recv_queue (raw example_net)) (rx_out example_net) []" "queue_size (recv_queue (raw example_net)) = 4"
    using example_net_ok(1,2) by (simp_all add: rx_ok_def)
  note U = completes_used [OF inv(1), of 0 76]
  show ?thesis
    using device_receive_exact [OF ok, of of_nat] b rl U(1-3) inv(2) example_net_ok(3)
    by (simp add: net_device_new_def hdr_size_def) blast
qed

text \<open>
  C16: when the completion loop ends.  \<open>drain_completed_tx\<close> returns if and only if the tokens the
  device has completed are different and all belong to pending transmissions; then exactly those
  transmissions are no longer pending, their descriptors are free, and nothing is left to poll.
  A token that is not pending makes the kernel loop for ever.
\<close>

theorem drain_ends_exactly:
  assumes "tx_ok d fl"
  defines "ts \<equiv> completed (send_queue (raw (inner d)))"
  shows "(drain_completed_tx d \<noteq> None \<longleftrightarrow> distinct ts \<and> set ts \<subseteq> fst ` set (pending_tx d)) \<and>
    (drain_completed_tx d \<noteq> None \<longrightarrow>
      (\<exists>d'. drain_completed_tx d = Some (Some d') \<and> tx_ok d' (rev ts @ fl) \<and>
        pending_tx d' = filter (\<lambda>p. fst p \<notin> set ts) (pending_tx d) \<and> poll_transmit (raw (inner d')) = None))"
  using drain_spec [OF assms(1) refl, folded ts_def]
  by (cases "distinct ts \<and> set ts \<subseteq> fst ` set (pending_tx d)") (auto simp: poll_transmit_def)

theorem drain_ends_exactly_witness:
  "drain_completed_tx (example_device\<lparr>inner := example_net\<lparr>raw := (raw example_net)\<lparr>send_queue := completes 3 0 example_queue\<rparr>\<rparr>\<rparr>) = None"
proof -
  let ?d = "example_device\<lparr>inner := example_net\<lparr>raw := (raw example_net)\<lparr>send_queue := completes 3 0 example_queue\<rparr>\<rparr>\<rparr>"
  note U = completes_used [OF example_queue_empty, of 3 0]
  have "tx_ok ?d [0..<4]"
    using single_inv_completes [OF example_queue_empty] U(4) by (simp add: tx_ok_def example_device_def net_device_new_def)
  from drain_ends_exactly [OF this] U(5) show ?thesis
    by (simp add: example_device_def net_device_new_def)
qed

text \<open>
  C34: transmission.  With completions the loop can handle, sending a frame first frees the completed
  descriptors.  If one is free the device is given, under a token that was not pending, one buffer
  with the header of zeros and the frame, which stays pending until the device completes it; if none
  is free the frame is dropped and no buffer is given to the device.
\<close>

theorem device_transmit_exact:
  assumes "tx_ok d fl" and "distinct (completed (send_queue (raw (inner d))))"
    and "set (completed (send_queue (raw (inner d)))) \<subseteq> fst ` set (pending_tx d)" and "length frame + 12 < 2 ^ 32"
  defines "ts \<equiv> completed (send_queue (raw (inner d)))" and "n \<equiv> hdr_size (legacy_header (raw (inner d))) + length frame"
  shows "\<exists>mem' d'. device_transmit a frame mem d = Some (Some (mem', d')) \<and>
    (case rev ts @ fl of
       [] \<Rightarrow> pending_tx d' = filter (\<lambda>p. fst p \<notin> set ts) (pending_tx d) \<and> tx_ok d' []
     | t # fl' \<Rightarrow>
         pending_tx d' = filter (\<lambda>p. fst p \<notin> set ts) (pending_tx d) @ [(t, (a, n))] \<and> tx_ok d' fl' \<and>
         device_read (send_queue (raw (inner d'))) t = Some [(a, n, False)] \<and>
         mem_read mem' a n = replicate (hdr_size (legacy_header (raw (inner d)))) 0 @ frame)"
proof -
  obtain d1 where d1: "drain_completed_tx d = Some (Some d1)" "tx_ok d1 (rev ts @ fl)"
      "pending_tx d1 = filter (\<lambda>p. fst p \<notin> set ts) (pending_tx d)" "legacy_header (raw (inner d1)) = legacy_header (raw (inner d))"
    using drain_spec [OF assms(1) refl] assms(2,3) by (auto simp: ts_def)
  let ?h = "hdr_size (legacy_header (raw (inner d)))" and ?r = "raw (inner d1)"
  have inv: "tx_inv (send_queue ?r) (map_of (pending_tx d1)) (rev ts @ fl)" "distinct (map fst (pending_tx d1))"
      "used_idx (vring (send_queue ?r)) < 2 ^ 16"
    using d1(2) by (simp_all add: tx_ok_def)
  have n: "hdr_size (legacy_header ?r) \<le> snd (a, n)" "snd (a, n) < 2 ^ 32"
    using assms(4) by (simp_all add: n_def d1(4) hdr_size_def)
  note U = device_transmit_unfold [OF d1(1) refl, of a frame mem, unfolded d1(4), folded n_def]
  show ?thesis
  proof (cases "rev ts @ fl")
    case Nil
    have "transmit_begin (a, n) ?r = Some (?r, Inl QueueFull)"
      using transmit_begin_full [of ?r] inv(1) n(1) by (simp add: Nil)
    then have "device_transmit a frame mem d = Some (Some (mem_write mem a (replicate ?h 0 @ frame), d1))"
      unfolding U by simp
    then show ?thesis
      using d1(2,3) unfolding Nil by auto
  next
    case (Cons t fl')
    obtain q' tr' where r: "transmit_begin (a, n) ?r = Some (?r\<lparr>send_queue := q', transport := tr'\<rparr>, Inr t)"
        "tx_inv q' ((map_of (pending_tx d1))(t \<mapsto> (a, n))) fl'" "vq_published t (send_queue ?r) q'" "device_read q' t = Some [(a, n, False)]"
      using transmit_begin_ok [of ?r "map_of (pending_tx d1)" t fl' "(a, n)"] inv(1) n by (auto simp: Cons)
    define d' where "d' = \<lparr>inner = (inner d1)\<lparr>raw := ?r\<lparr>send_queue := q', transport := tr'\<rparr>\<rparr>, pending_tx = pending_tx d1 @ [(t, (a, n))]\<rparr>"
    have fresh: "t \<notin> fst ` set (pending_tx d1)"
      using tx_ok_fresh inv(1) unfolding Cons by blast
    have mo: "map_of (pending_tx d1 @ [(t, (a, n))]) = (map_of (pending_tx d1))(t \<mapsto> (a, n))"
    proof
      show "map_of (pending_tx d1 @ [(t, (a, n))]) x = ((map_of (pending_tx d1))(t \<mapsto> (a, n))) x" for x
      proof (cases "x = t")
        case True
        have "map_of (pending_tx d1) t = None"
          using fresh by (simp add: map_of_eq_None_iff)
        then show ?thesis
          using True by (simp add: map_add_def)
      qed (simp add: map_add_def split: option.split)
    qed
    have "tx_ok d' fl'"
      using r(2) [folded mo] r(3) inv(2,3) fresh by (simp add: tx_ok_def d'_def vq_published_def del: map_of_append)
    moreover have "device_transmit a frame mem d = Some (Some (mem_write mem a (replicate ?h 0 @ frame), d'))"
      unfolding U r(1) by (simp add: d'_def)
    moreover have "mem_read (mem_write mem a (replicate ?h 0 @ frame)) a n = replicate ?h 0 @ frame"
      using mem_read_write [of mem a "replicate ?h 0 @ frame"] by (simp add: n_def)
    ultimately show ?thesis
      using r(4) d1(3) unfolding Cons by (auto simp: d'_def)
  qed
qed

theorem device_transmit_exact_witness:
  "\<exists>mem' d'. device_transmit 0x20000 [1, 2, 3] (\<lambda>_. 0) example_device = Some (Some (mem', d')) \<and>
    pending_tx d' = [(0, (0x20000, 15))] \<and> mem_read mem' 0x20000 15 = replicate 12 0 @ [1, 2, 3]"
proof -
  have q: "used_idx (vring example_queue) = 0" "last_used_idx example_queue = 0"
    using example_queue_new by (simp_all add: example_queue_def vq_new_def example_transport_def allocate_flexible_def queue_part_sizes_def
        dma_new_def dma_alloc_def PAGE_SIZE_def pages_for_def wrap64_def Let_def example_vring_def)
  have c: "completed (send_queue (raw (inner example_device))) = []" "pending_tx example_device = []"
      "legacy_header (raw (inner example_device)) = False"
    by (simp_all add: example_device_def net_device_new_def example_net_ok completed_def q)
  have "tx_ok example_device [0..<4]"
    using example_queue_empty by (simp add: tx_ok_def example_device_def net_device_new_def example_net_ok q)
  then have ok: "tx_ok example_device (0 # [1..<4])"
    by (simp add: upt_conv_Cons)
  show ?thesis
    using device_transmit_exact [OF ok, of "[1, 2, 3]" "0x20000" "\<lambda>_. 0"] by (auto simp: c hdr_size_def)
qed

text \<open>
  an owning queue keeps its buffers.  While every buffer is in the queue under its own index,
  \<open>poll\<close> without a completed buffer changes nothing; it panics exactly when the device returns a
  token that is no index of a buffer or a length beyond the buffer; otherwise the handler is given
  exactly the bytes the device reports, its result is the result, and the buffer is back in the
  queue under the same index.
\<close>

theorem owning_poll_exact:
  assumes "owning_ok oq"
  defines "q \<equiv> oq_queue oq"
  shows "case peek_used q of
      None \<Rightarrow> owning_poll handler mem tr oq = Some ((tr, oq), Inr None)
    | Some t \<Rightarrow>
        if queue_size q \<le> t \<or> buffer_size oq < used_len q then owning_poll handler mem tr oq = None
        else \<exists>tr' q'. owning_poll handler mem tr oq = Some ((tr', oq\<lparr>oq_queue := q'\<rparr>), handler (mem_read mem (buffers oq ! t) (used_len q))) \<and>
          owning_ok (oq\<lparr>oq_queue := q'\<rparr>)"
proof (cases "peek_used q")
  case None
  then show ?thesis
    by (simp add: owning_poll_def owning_pop_def q_def)
next
  case (Some t)
  then have p: "peek_used (oq_queue oq) = Some t"
    by (simp add: q_def)
  have len: "length (buffers oq) = queue_size q"
    using assms(1) by (simp add: owning_ok_def q_def)
  show ?thesis
  proof (cases "t < queue_size q")
    case False
    then show ?thesis
      using Some p len by (simp add: owning_poll_def owning_pop_def)
  next
    case True
    obtain q1 q2 where r: "pop_used t [] [(buffers oq ! t, buffer_size oq)] (oq_queue oq) = Some (q1, Inr (used_len q))"
        "vq_add 0 [] [(buffers oq ! t, buffer_size oq)] q1 = Some (q2, Inr t)" "owning_ok (oq\<lparr>oq_queue := q2\<rparr>)"
      using owning_requeue [OF assms(1) p] True by (auto simp: q_def)
    show ?thesis
    proof (cases "buffer_size oq < used_len q")
      case long: True
      then show ?thesis
        using Some p True len r(1) by (simp add: owning_poll_def owning_pop_def)
    next
      case False
      have "owning_pop mem oq = Some (oq\<lparr>oq_queue := q1\<rparr>, Inr (Some (mem_read mem (buffers oq ! t) (used_len q), t)))"
        using p True len r(1) False by (simp add: owning_pop_def)
      moreover define tr' where "tr' = (if should_notify q2 then transport_notify (queue_idx q2) tr else tr)"
      have "add_buffer_to_queue t tr (oq\<lparr>oq_queue := q1\<rparr>) = Some ((tr', oq\<lparr>oq_queue := q2\<rparr>), Inr ())"
        using True len r(2) by (simp add: add_buffer_to_queue_def tr'_def)
      ultimately have "owning_poll handler mem tr oq = Some ((tr', oq\<lparr>oq_queue := q2\<rparr>), handler (mem_read mem (buffers oq ! t) (used_len q)))"
        by (simp add: owning_poll_def)
      then show ?thesis
        using Some True False r(3) by auto
    qed
  qed
qed

theorem owning_poll_exact_witness:
  "\<exists>oq oq'. owning_new 16 [0x10000, 0x11000, 0x12000, 0x13000] example_queue = Some (Inr oq) \<and>
    owning_poll (\<lambda>bs. Inr (Some (length bs))) (\<lambda>_. 0) example_transport (oq\<lparr>oq_queue := completes 2 8 (oq_queue oq)\<rparr>) = Some oq' \<and>
    snd oq' = Inr (Some 8)"
proof -
  let ?as = "[0x10000, 0x11000, 0x12000, 0x13000] :: nat list"
  have l: "length ?as = 4"
    by simp
  obtain oq where oq: "owning_new 16 ?as example_queue = Some (Inr oq)" "owning_ok oq"
    using owning_new_ok [of example_queue ?as 16] example_queue_empty example_queue_inv(2) unfolding l by auto
  have sz: "buffer_size oq = 16" "length (buffers oq) = 4"
    using oq(1) by (auto simp: owning_new_def split: option.splits sum.splits)
  have inv: "rx_inv (oq_queue oq) (owning_out (buffers oq) (buffer_size oq)) []" "queue_size (oq_queue oq) = 4"
    using oq(2) sz by (simp_all add: owning_ok_def)
  note U = completes_used [OF inv(1), of 2 8]
  have "owning_ok (oq\<lparr>oq_queue := completes 2 8 (oq_queue oq)\<rparr>)"
    using oq(2) single_inv_completes by (simp add: owning_ok_def completes_def queue_size_def)
  from owning_poll_exact [OF this, of "\<lambda>bs. Inr (Some (length bs))" "\<lambda>_. 0" example_transport] oq(1) U(1-3) inv(2) sz
  show ?thesis
    by auto
qed

end
