(* ===== verification/Mmap.thy ===== *)
theory Mmap
  imports Uaccess
begin

text \<open>
  The memory system calls (\<open>src/src/syscall.rs\<close>: \<open>sys_brk\<close>, \<open>sys_mmap\<close>, \<open>sys_munmap\<close> and the
  free-region list).  Addresses are handed out from the list of freed regions, best fit first, and
  otherwise from a bump pointer; a freed region is merged with its neighbours.

  The list is changed under its mutex and the bump pointer by \<open>compare_exchange\<close>, so each of the
  definitions below that changes one of them is one atomic step; a whole call is their composition.
\<close>

unbundle bit_operations_syntax

section \<open>State\<close>

definition MMAP_BASE :: nat where "MMAP_BASE = 0x1A000000"
definition MMAP_LIMIT :: nat where "MMAP_LIMIT = 0xA0000000"

type_synonym region = "nat \<times> nat"

record mmap_state =
  mmap_next :: nat
  free_regions :: "region list"
  brk_top :: nat
  brk_base :: nat

definition mmap_init :: mmap_state where
  "mmap_init = \<lparr>mmap_next = MMAP_BASE, free_regions = [], brk_top = 0, brk_base = 0\<rparr>"

definition set_initial_brk :: "nat \<Rightarrow> mmap_state \<Rightarrow> mmap_state" where
  "set_initial_brk mem_end s = s\<lparr>brk_top := mem_end\<rparr>"

definition sys_brk :: "nat \<Rightarrow> mmap_state \<Rightarrow> mmap_state \<times> int" where
  "sys_brk addr s =
     (if addr = 0 then (s, i64_of (int (brk_top s)))
      else (s\<lparr>brk_base := (if brk_base s = 0 then addr else brk_base s), brk_top := addr\<rparr>, i64_of (int addr)))"

section \<open>The free-region list\<close>

definition region_end :: "region \<Rightarrow> nat" where
  "region_end r = wrap64 (fst r + snd r)"

definition touches :: "region \<Rightarrow> region \<Rightarrow> bool" where
  "touches n r \<longleftrightarrow> region_end r = fst n \<or> region_end n = fst r"

definition extend_region :: "region \<Rightarrow> region \<Rightarrow> region" where
  "extend_region n r =
     (if region_end r = fst n then (fst r, wrap64 (snd r + snd n)) else (fst n, wrap64 (snd r + snd n)))"

definition join_regions :: "region \<Rightarrow> region \<Rightarrow> region" where
  "join_regions n old =
     (case (if fst old < fst n then (fst old, region_end n) else (fst n, region_end old)) of
        (lo, hi) \<Rightarrow> (lo, wrapping_sub hi lo))"

definition free_regions_add :: "nat \<Rightarrow> nat \<Rightarrow> region list \<Rightarrow> region list" where
  "free_regions_add addr len free =
     (case position (touches (addr, len)) free of
        None \<Rightarrow> free @ [(addr, len)]
      | Some i \<Rightarrow>
          (let n = extend_region (addr, len) (free ! i);
               free1 = free[i := n]
           in case find (\<lambda>j. j \<noteq> i \<and> touches n (free1 ! j)) [0..<length free1] of
                None \<Rightarrow> free1
              | Some j \<Rightarrow> (remove_at j free1)[(if j < i then i - 1 else i) := join_regions n (free1 ! j)]))"

text \<open>The search loop of \<open>free_regions_take\<close>: index, best index and best excess so far.\<close>

fun best_fit :: "nat \<Rightarrow> nat \<Rightarrow> nat option \<Rightarrow> nat \<Rightarrow> region list \<Rightarrow> nat option" where
  "best_fit len i best best_excess [] = best"
| "best_fit len i best best_excess ((a, l) # rs) =
     (if len \<le> l \<and> l - len < best_excess
      then (if l - len = 0 then Some i else best_fit len (Suc i) (Some i) (l - len) rs)
      else best_fit len (Suc i) best best_excess rs)"

definition free_regions_take :: "nat \<Rightarrow> region list \<Rightarrow> region list \<times> nat option" where
  "free_regions_take len free =
     (case best_fit len 0 None u64_max free of
        None \<Rightarrow> (free, None)
      | Some i \<Rightarrow>
          (case free ! i of (a, l) \<Rightarrow>
             ((if l = len then swap_remove i free else free[i := (wrap64 (a + len), l - len)]), Some a)))"

definition disjoint_from :: "nat \<Rightarrow> nat \<Rightarrow> region \<Rightarrow> bool" where
  "disjoint_from addr e r \<longleftrightarrow> region_end r \<le> addr \<or> e \<le> fst r"

definition cut_region :: "nat \<Rightarrow> nat \<Rightarrow> region \<Rightarrow> region list" where
  "cut_region addr e r =
     (if fst r < addr then [(fst r, addr - fst r)] else []) @ (if e < region_end r then [(e, region_end r - e)] else [])"

definition free_regions_drop_range :: "nat \<Rightarrow> nat \<Rightarrow> region list \<Rightarrow> region list" where
  "free_regions_drop_range addr len free =
     (let e = wrap64 (addr + len) in
      filter (disjoint_from addr e) free @
      concat (map (cut_region addr e) (filter (\<lambda>r. \<not> disjoint_from addr e r) free)))"

section \<open>The system calls\<close>

definition ENOMEM :: int where "ENOMEM = -12"
definition MAP_FIXED :: int where "MAP_FIXED = 0x10"

definition page_round :: "nat \<Rightarrow> nat" where
  "page_round n = align_down (wrap64 (n + 0xFFF)) 4096"

text \<open>The eager zero fill, for regions of at most 64 MiB; its result is ignored.\<close>

definition zero_fill :: "nat \<Rightarrow> nat \<Rightarrow> machine \<Rightarrow> machine" where
  "zero_fill a n m =
     (if n \<le> 0x4000000 then snd (with_user_access m a n (\<lambda>r. ((), mem_write r a (replicate n 0)))) else m)"

definition mmap_bump :: "nat \<Rightarrow> mmap_state \<Rightarrow> mmap_state \<times> nat option" where
  "mmap_bump aligned s =
     (let new = saturating_add (mmap_next s) aligned in
      if MMAP_LIMIT < new then (s, None) else (s\<lparr>mmap_next := new\<rparr>, Some (mmap_next s)))"

definition sys_mmap :: "nat \<Rightarrow> nat \<Rightarrow> int \<Rightarrow> mmap_state \<times> machine \<Rightarrow> (mmap_state \<times> machine) \<times> int" where
  "sys_mmap addr len flags = (\<lambda>(s, m).
     (let aligned = page_round len in
      if addr \<noteq> 0 \<and> flags AND MAP_FIXED \<noteq> 0
      then (if MMAP_LIMIT < saturating_add addr aligned then ((s, m), ENOMEM)
            else ((s\<lparr>free_regions := free_regions_drop_range addr aligned (free_regions s)\<rparr>, zero_fill addr aligned m),
                  i64_of (int addr)))
      else (case free_regions_take aligned (free_regions s) of
              (free, Some reused) \<Rightarrow> ((s\<lparr>free_regions := free\<rparr>, zero_fill reused aligned m), i64_of (int reused))
            | (_, None) \<Rightarrow>
                (case mmap_bump aligned s of
                   (_, None) \<Rightarrow> ((s, m), ENOMEM)
                 | (s', Some cur) \<Rightarrow> ((s', m), i64_of (int cur))))))"

definition munmap_range :: "nat \<Rightarrow> nat \<Rightarrow> region" where
  "munmap_range addr len =
     (let aligned_addr = align_down addr 4096 in
      (aligned_addr, align_down (wrap64 (len + (addr - aligned_addr) + 0xFFF)) 4096))"

definition sys_munmap :: "nat \<Rightarrow> nat \<Rightarrow> mmap_state \<Rightarrow> mmap_state \<times> int" where
  "sys_munmap addr len s =
     (if addr = 0 \<or> len = 0 then (s, -22)
      else (case munmap_range addr len of (a, l) \<Rightarrow>
              ((if MMAP_BASE \<le> a \<and> region_end (a, l) \<le> MMAP_LIMIT
                then s\<lparr>free_regions := free_regions_add a l (free_regions s)\<rparr> else s), 0)))"

end
