(* ===== verification/Mmap_Regions.thy ===== *)
theory Mmap_Regions
  imports Mmap
begin

text \<open>
  The free-region list of the memory system calls as a set of addresses.  The list is kept fully
  coalesced (its regions are pairwise separated), and each operation has a set-level specification;
  the locale \<open>free_list\<close> states them as the contract the system calls rely on, derives from them
  that free and live addresses partition the range handed out, and is interpreted on the model's
  list as \<open>fl\<close>.
\<close>

section \<open>Regions as sets of addresses\<close>

definition span :: "region \<Rightarrow> nat set" where
  "span r = {fst r..<fst r + snd r}"

definition free_set :: "region list \<Rightarrow> nat set" where
  "free_set xs = \<Union> (span ` set xs)"

definition apart_regions :: "region \<Rightarrow> region \<Rightarrow> bool" where
  "apart_regions r q \<longleftrightarrow> fst r + snd r < fst q \<or> fst q + snd q < fst r"

definition mregion_ok :: "nat \<Rightarrow> region \<Rightarrow> bool" where
  "mregion_ok lim r \<longleftrightarrow>
     MMAP_BASE \<le> fst r \<and> 0 < snd r \<and> fst r + snd r \<le> lim \<and> lim \<le> MMAP_LIMIT \<and> 4096 dvd fst r \<and> 4096 dvd snd r"

definition free_ok :: "nat \<Rightarrow> region list \<Rightarrow> bool" where
  "free_ok lim xs \<longleftrightarrow> sorted_wrt apart_regions xs \<and> (\<forall>r\<in>set xs. mregion_ok lim r)"

lemma apart_sym_iff: "apart_regions r q = apart_regions q r"
  by (auto simp: apart_regions_def)

lemma apart_disjoint: "apart_regions r q \<Longrightarrow> span r \<inter> span q = {}"
  by (auto simp: apart_regions_def span_def)

lemma free_set_simps [simp]:
  "free_set [] = {}"
  "free_set (r # rs) = span r \<union> free_set rs"
  "free_set (xs @ ys) = free_set xs \<union> free_set ys"
  by (auto simp: free_set_def)

lemma free_ok_simps [simp]:
  "free_ok l []"
  "free_ok l (r # rs) \<longleftrightarrow> mregion_ok l r \<and> (\<forall>q\<in>set rs. apart_regions r q) \<and> free_ok l rs"
  by (auto simp: free_ok_def)

lemma free_ok_append:
  "free_ok l (xs @ ys) \<longleftrightarrow> free_ok l xs \<and> free_ok l ys \<and> (\<forall>r\<in>set xs. \<forall>q\<in>set ys. apart_regions r q)"
  by (auto simp: free_ok_def sorted_wrt_append)

text \<open>The order of the entries does not matter: an entry can be moved to the front.\<close>

lemma free_ok_move: "free_ok l (us @ r # vs) \<longleftrightarrow> free_ok l (r # us @ vs)"
  using apart_sym_iff by (auto simp: free_ok_append)

lemma front_update: "i < length xs \<Longrightarrow> free_ok l (xs[i := r]) \<longleftrightarrow> free_ok l (r # remove_at i xs)"
  unfolding upd_conv_take_nth_drop free_ok_move remove_at_def ..

lemma front_nth: "i < length xs \<Longrightarrow> free_ok l xs \<longleftrightarrow> free_ok l (xs ! i # remove_at i xs)"
  using front_update [of i xs l "xs ! i"] by simp

lemma set_front_update: "i < length xs \<Longrightarrow> free_set (xs[i := r]) = span r \<union> free_set (remove_at i xs)"
  by (auto simp: upd_conv_take_nth_drop remove_at_def)

lemma set_front_nth: "i < length xs \<Longrightarrow> free_set xs = span (xs ! i) \<union> free_set (remove_at i xs)"
  using set_front_update [of i xs "xs ! i"] by simp

lemma length_remove_at: "i < length xs \<Longrightarrow> length (remove_at i xs) = length xs - 1"
  by (simp add: remove_at_def)

lemma swap_remove_front:
  assumes "i < length xs"
  shows "free_ok l (swap_remove i xs) = free_ok l (remove_at i xs)" "free_set (swap_remove i xs) = free_set (remove_at i xs)"
proof -
  obtain ys y where xs: "xs = ys @ [y]"
    using assms by (cases xs rule: rev_cases) auto
  have "(free_ok l (swap_remove i xs) = free_ok l (remove_at i xs)) \<and> free_set (swap_remove i xs) = free_set (remove_at i xs)"
  proof (cases "i = length ys")
    case True
    then show ?thesis by (simp add: xs swap_remove_def remove_at_def)
  next
    case False
    then have i: "i < length ys"
      using assms xs by simp
    have "swap_remove i xs = ys[i := y]" "remove_at i xs = remove_at i ys @ [y]"
      using i by (simp_all add: xs swap_remove_def remove_at_def list_update_append butlast_append)
    then show ?thesis
      using front_update [OF i, of l y] set_front_update [OF i, of y] free_ok_move [of l "remove_at i ys" y "[]"] by auto
  qed
  then show "free_ok l (swap_remove i xs) = free_ok l (remove_at i xs)" "free_set (swap_remove i xs) = free_set (remove_at i xs)"
    by simp_all
qed

section \<open>Adding a region\<close>

lemma region_end_ok: "mregion_ok l r \<Longrightarrow> region_end r = fst r + snd r"
  by (simp add: mregion_ok_def region_end_def MMAP_LIMIT_def wrap64_def)

lemma span_disjoint:
  "mregion_ok l n \<Longrightarrow> mregion_ok l r \<Longrightarrow> span n \<inter> span r = {} \<longleftrightarrow> fst n + snd n \<le> fst r \<or> fst r + snd r \<le> fst n"
  by (auto simp: mregion_ok_def span_def)

lemma touches_iff:
  "mregion_ok l n \<Longrightarrow> mregion_ok l r \<Longrightarrow> touches n r \<longleftrightarrow> fst r + snd r = fst n \<or> fst n + snd n = fst r"
  by (simp add: touches_def region_end_ok)

lemma not_touching_apart:
  "mregion_ok l n \<Longrightarrow> mregion_ok l r \<Longrightarrow> span n \<inter> span r = {} \<Longrightarrow> \<not> touches n r \<Longrightarrow> apart_regions n r"
  by (auto simp: span_disjoint touches_iff apart_regions_def)

lemma extend_region_ok:
  assumes "mregion_ok l n" "mregion_ok l r" "touches n r"
  shows "mregion_ok l (extend_region n r)" "span (extend_region n r) = span n \<union> span r"
    "extend_region n r = (min (fst n) (fst r), snd n + snd r)"
proof -
  have e: "extend_region n r = (min (fst n) (fst r), snd n + snd r)"
    using assms by (auto simp: extend_region_def touches_iff region_end_ok) (auto simp: mregion_ok_def MMAP_LIMIT_def)
  show "mregion_ok l (extend_region n r)" "span (extend_region n r) = span n \<union> span r"
    "extend_region n r = (min (fst n) (fst r), snd n + snd r)"
    using assms by (auto simp: e touches_iff) (auto simp: mregion_ok_def span_def)
qed

lemma join_regions_ok:
  assumes "mregion_ok l n" "mregion_ok l r" "touches n r"
  shows "join_regions n r = extend_region n r"
proof -
  have small: "fst n + snd n < 2 ^ 64" "fst r + snd r < 2 ^ 64"
    using assms(1,2) by (auto simp: mregion_ok_def MMAP_LIMIT_def)
  have pos: "0 < snd n" "0 < snd r"
    using assms(1,2) by (auto simp: mregion_ok_def)
  show ?thesis
    using assms small pos
    by (auto simp: join_regions_def extend_region_ok touches_iff region_end_ok wrapping_sub_le)
qed

lemma nth_remove_at:
  "j < length xs \<Longrightarrow> i < length xs \<Longrightarrow> j \<noteq> i \<Longrightarrow> remove_at j xs ! (if j < i then i - 1 else i) = xs ! i"
  by (auto simp: remove_at_def nth_append)

lemma remove_at_update:
  assumes "j < length xs" "j \<noteq> i"
  shows "remove_at j (xs[i := e]) = (remove_at j xs)[(if j < i then i - 1 else i) := e]"
proof (cases "j < i")
  case True
  then have "\<not> i - 1 < j"
    by linarith
  then show ?thesis
    using True assms(1) by (simp add: remove_at_def take_update_cancel drop_update_swap list_update_append)
next
  case False
  then show ?thesis
    using assms by (simp add: remove_at_def take_update_swap drop_update_cancel list_update_append)
qed

lemma set_remove_at: "q \<in> set (remove_at i xs) \<Longrightarrow> \<exists>j<length xs. j \<noteq> i \<and> xs ! j = q"
proof -
  assume "q \<in> set (remove_at i xs)"
  then consider "q \<in> set (take i xs)" | "q \<in> set (drop (Suc i) xs)"
    by (auto simp: remove_at_def)
  then show ?thesis
  proof cases
    case 1
    then obtain j where "j < i" "j < length xs" "xs ! j = q"
      by (auto simp: in_set_conv_nth)
    then show ?thesis by auto
  next
    case 2
    then obtain j where "j < length (drop (Suc i) xs)" "drop (Suc i) xs ! j = q"
      unfolding in_set_conv_nth by blast
    then show ?thesis by (intro exI [of _ "Suc i + j"]) auto
  qed
qed

text \<open>
  A region that touches both neighbours: what is apart from the neighbours and disjoint from it is
  apart from the union of the three.
\<close>

lemma join_apart:
  assumes ok: "mregion_ok l n" "mregion_ok l r" "mregion_ok l q" "mregion_ok l p"
    and t: "touches n r" "touches (extend_region n r) q"
    and a: "apart_regions r q" "apart_regions r p" "apart_regions q p"
    and d: "span n \<inter> span q = {}" "span n \<inter> span p = {}"
  shows "apart_regions (join_regions (extend_region n r) q) p"
proof -
  note e = extend_region_ok [OF ok(1,2) t(1)]
  have d': "fst n + snd n \<le> fst q \<or> fst q + snd q \<le> fst n" "fst n + snd n \<le> fst p \<or> fst p + snd p \<le> fst n"
    using d ok span_disjoint by metis+
  have t': "fst r + snd r = fst n \<or> fst n + snd n = fst r"
    using t(1) touches_iff [OF ok(1,2)] by simp
  have u: "fst q + snd q = min (fst n) (fst r) \<or> min (fst n) (fst r) + (snd n + snd r) = fst q"
    using t(2) touches_iff [OF e(1) ok(3)] by (simp add: e(3))
  have pos: "0 < snd n" "0 < snd r" "0 < snd q" "0 < snd p"
    using ok by (auto simp: mregion_ok_def)
  show ?thesis
    unfolding join_regions_ok [OF e(1) ok(3) t(2)] extend_region_ok(3) [OF e(1) ok(3) t(2)]
    unfolding e(3) apart_regions_def fst_conv snd_conv
    using a d' t' u pos unfolding apart_regions_def by linarith
qed

lemma free_ok_region: "free_ok l xs \<Longrightarrow> i < length xs \<Longrightarrow> mregion_ok l (xs ! i)"
  by (simp add: free_ok_def)

lemma free_ok_apart: "free_ok l xs \<Longrightarrow> i < length xs \<Longrightarrow> j < length xs \<Longrightarrow> i \<noteq> j \<Longrightarrow> apart_regions (xs ! i) (xs ! j)"
  using apart_sym_iff unfolding free_ok_def sorted_wrt_iff_nth_less by (metis linorder_neqE_nat)

lemma span_free_set: "i < length xs \<Longrightarrow> span (xs ! i) \<subseteq> free_set xs"
  unfolding free_set_def by (meson UN_upper nth_mem)

lemma merge_one:
  assumes ok: "free_ok l xs" and n: "mregion_ok l n" "span n \<inter> free_set xs = {}"
    and i: "i < length xs" "touches n (xs ! i)"
    and no: "\<And>j. j < length xs \<Longrightarrow> j \<noteq> i \<Longrightarrow> \<not> touches (extend_region n (xs ! i)) (xs ! j)"
  shows "free_ok l (xs[i := extend_region n (xs ! i)])"
proof -
  note r = free_ok_region [OF ok i(1)]
  note e = extend_region_ok [OF n(1) r i(2)]
  have "apart_regions (extend_region n (xs ! i)) q" if q: "q \<in> set (remove_at i xs)" for q
  proof -
    obtain j where j: "j < length xs" "j \<noteq> i" "xs ! j = q"
      using set_remove_at [OF q] by blast
    have "span (xs ! i) \<inter> span q = {}"
      using apart_disjoint [OF free_ok_apart [OF ok i(1) j(1)]] j by auto
    moreover have "span n \<inter> span q = {}"
      using n(2) span_free_set [OF j(1)] j(3) by blast
    ultimately have "span (extend_region n (xs ! i)) \<inter> span q = {}"
      unfolding e(2) by blast
    then show ?thesis
      using not_touching_apart [OF e(1) free_ok_region [OF ok j(1)]] no [OF j(1,2)] j(3) by simp
  qed
  then show ?thesis
    using ok e(1) unfolding front_update [OF i(1)] front_nth [OF i(1), of l] by simp
qed

lemma merge_two:
  fixes xs :: "region list"
  defines "k i j \<equiv> (if j < i then i - 1 else i :: nat)"
  assumes ok: "free_ok l xs" and n: "mregion_ok l n" "span n \<inter> free_set xs = {}"
    and i: "i < length xs" "touches n (xs ! i)"
    and j: "j < length xs" "j \<noteq> i" "touches (extend_region n (xs ! i)) (xs ! j)"
  shows "free_ok l ((remove_at j (xs[i := e]))[k i j := join_regions (extend_region n (xs ! i)) (xs ! j)])"
    "free_set ((remove_at j (xs[i := e]))[k i j := join_regions (extend_region n (xs ! i)) (xs ! j)]) = span n \<union> free_set xs"
proof -
  let ?r = "xs ! i" and ?q = "xs ! j"
  let ?z = "join_regions (extend_region n ?r) ?q" and ?ys = "remove_at j xs"
  note r = free_ok_region [OF ok i(1)] and q = free_ok_region [OF ok j(1)]
  note e = extend_region_ok [OF n(1) r i(2)]
  note f = extend_region_ok [OF e(1) q j(3)]
  have z: "?z = extend_region (extend_region n ?r) ?q"
    by (rule join_regions_ok [OF e(1) q j(3)])
  have k: "k i j < length ?ys"
    using i(1) j(1,2) by (auto simp: k_def length_remove_at)
  have ys: "?ys ! k i j = ?r"
    unfolding k_def by (rule nth_remove_at [OF j(1) i(1) j(2)])
  have upd: "(remove_at j (xs[i := e']))[k i j := v] = ?ys[k i j := v]" for e' v
    using remove_at_update [OF j(1,2), of e'] by (simp add: k_def)
  have ok': "free_ok l (?r # remove_at (k i j) ?ys)"
    using ok front_nth [OF j(1), of l] front_nth [OF k, of l] ys by simp
  have "apart_regions ?z p" if p: "p \<in> set (remove_at (k i j) ?ys)" for p
  proof (rule join_apart [OF n(1) r q _ i(2) j(3)])
    obtain h where "h < length ?ys" "?ys ! h = p"
      using set_remove_at [OF p] by blast
    then have pys: "p \<in> set ?ys"
      by auto
    obtain h where h: "h < length xs" "xs ! h = p"
      using set_remove_at [OF pys] by blast
    show "mregion_ok l p" "apart_regions ?r p"
      using ok' p by (auto simp: free_ok_def)
    show "apart_regions ?q p"
      using pys ok front_nth [OF j(1), of l] by simp
    show "apart_regions ?r ?q"
      by (rule free_ok_apart [OF ok i(1) j(1)]) (use j(2) in simp)
    show "span n \<inter> span ?q = {}" "span n \<inter> span p = {}"
      using n(2) span_free_set [OF j(1)] span_free_set [OF h(1)] h(2) by blast+
  qed
  then show "free_ok l ((remove_at j (xs[i := e]))[k i j := ?z])"
    using ok' f(1) unfolding upd front_update [OF k] z by simp
  show "free_set ((remove_at j (xs[i := e]))[k i j := ?z]) = span n \<union> free_set xs"
    unfolding upd set_front_update [OF k] z f(2) e(2) set_front_nth [OF j(1)] set_front_nth [OF k] ys by blast
qed

lemma free_regions_add_ok:
  assumes ok: "free_ok l xs" and n: "mregion_ok l (a, n)" "span (a, n) \<inter> free_set xs = {}"
  shows "free_ok l (free_regions_add a n xs) \<and> free_set (free_regions_add a n xs) = span (a, n) \<union> free_set xs"
proof (cases "position (touches (a, n)) xs")
  case None
  have "apart_regions (a, n) q" if "q \<in> set xs" for q
  proof (rule not_touching_apart [OF n(1)])
    show "mregion_ok l q" "\<not> touches (a, n) q"
      using ok None that by (auto simp: free_ok_def position_None_iff)
    show "span (a, n) \<inter> span q = {}"
      using n(2) that by (auto simp: free_set_def)
  qed
  then have "free_ok l (xs @ [(a, n)])"
    using ok n(1) free_ok_move [of l xs "(a, n)" "[]"] by simp
  then show ?thesis
    by (simp add: free_regions_add_def None Un_commute)
next
  case (Some i)
  have i: "i < length xs" "touches (a, n) (xs ! i)"
    using Some by (auto simp: position_Some_iff)
  let ?e = "extend_region (a, n) (xs ! i)"
  let ?P = "\<lambda>j. j \<noteq> i \<and> touches ?e (xs[i := ?e] ! j)"
  note r = free_ok_region [OF ok i(1)]
  note e = extend_region_ok [OF n(1) r i(2)]
  show ?thesis
  proof (cases "find ?P [0..<length xs]")
    case None
    have "\<not> touches ?e (xs ! j)" if "j < length xs" "j \<noteq> i" for j
      using None that by (auto simp: find_None_iff)
    moreover have "free_regions_add a n xs = xs[i := ?e]"
      using None Some by (simp add: free_regions_add_def)
    moreover have "free_set (xs[i := ?e]) = span (a, n) \<union> free_set xs"
      unfolding set_front_update [OF i(1)] e(2) set_front_nth [OF i(1)] by blast
    ultimately show ?thesis
      using merge_one [OF ok n i] by simp
  next
    case (Some j)
    have j: "j < length xs" "j \<noteq> i" "touches ?e (xs ! j)"
      using Some by (auto simp: find_Some_iff)
    have "free_regions_add a n xs = (remove_at j (xs[i := ?e]))[(if j < i then i - 1 else i) := join_regions ?e (xs ! j)]"
      using Some \<open>position (touches (a, n)) xs = Some i\<close> j(2) by (simp add: free_regions_add_def Let_def)
    then show ?thesis
      using merge_two [OF ok n i j, of ?e] by simp
  qed
qed

section \<open>Taking a region\<close>

lemma best_fit_cases:
  "case best_fit len i best ex rs of
     None \<Rightarrow> best = None \<and> (\<forall>q\<in>set rs. len \<le> snd q \<longrightarrow> ex \<le> snd q - len)
   | Some k \<Rightarrow>
       best = Some k \<and> (\<forall>q\<in>set rs. len \<le> snd q \<longrightarrow> ex \<le> snd q - len) \<or>
       (\<exists>j<length rs. k = i + j \<and> len \<le> snd (rs ! j) \<and> snd (rs ! j) - len < ex \<and>
          (\<forall>q\<in>set rs. len \<le> snd q \<longrightarrow> snd (rs ! j) \<le> snd q))"
proof (induction len i best ex rs rule: best_fit.induct)
  case (1 len i best ex)
  then show ?case by (simp split: option.splits)
next
  case (2 len i best ex a l rs)
  consider "len \<le> l" "l - len < ex" "l - len = 0" | "len \<le> l" "l - len < ex" "l - len \<noteq> 0" | "\<not> (len \<le> l \<and> l - len < ex)"
    by blast
  then show ?case
  proof cases
    case 1
    then show ?thesis by (auto intro!: exI [of _ 0])
  next
    case 2
    let ?b = "best_fit len (Suc i) (Some i) (l - len) rs"
    obtain k where k: "?b = Some k"
      using "2.IH"(1) 2 by (cases ?b) auto
    consider "k = i" "\<forall>q\<in>set rs. len \<le> snd q \<longrightarrow> l - len \<le> snd q - len"
      | j where "j < length rs" "k = Suc i + j" "len \<le> snd (rs ! j)" "snd (rs ! j) - len < l - len"
          "\<forall>q\<in>set rs. len \<le> snd q \<longrightarrow> snd (rs ! j) \<le> snd q"
      using "2.IH"(1) 2 k by auto
    then show ?thesis
    proof cases
      case 1
      have "l \<le> snd q" if "q \<in> set rs" "len \<le> snd q" for q
        using 1(2) that 2(1) by (metis le_diff_iff)
      then show ?thesis
        using 1(1) 2 k by (auto intro!: exI [of _ 0])
    next
      case (2 j)
      then show ?thesis
        using \<open>l - len < ex\<close> \<open>len \<le> l\<close> \<open>l - len \<noteq> 0\<close> k by (auto intro!: exI [of _ "Suc j"])
    qed
  next
    case 3
    have IH: "case best_fit len (Suc i) best ex rs of
        None \<Rightarrow> best = None \<and> (\<forall>q\<in>set rs. len \<le> snd q \<longrightarrow> ex \<le> snd q - len)
      | Some k \<Rightarrow> best = Some k \<and> (\<forall>q\<in>set rs. len \<le> snd q \<longrightarrow> ex \<le> snd q - len) \<or>
         (\<exists>j<length rs. k = Suc i + j \<and> len \<le> snd (rs ! j) \<and> snd (rs ! j) - len < ex \<and>
            (\<forall>q\<in>set rs. len \<le> snd q \<longrightarrow> snd (rs ! j) \<le> snd q))"
      by (rule "2.IH"(2) [OF 3])
    show ?thesis
    proof (cases "best_fit len (Suc i) best ex rs")
      case None
      then show ?thesis using IH 3 by auto
    next
      case (Some k)
      consider "best = Some k" "\<forall>q\<in>set rs. len \<le> snd q \<longrightarrow> ex \<le> snd q - len"
        | j where "j < length rs" "k = Suc i + j" "len \<le> snd (rs ! j)" "snd (rs ! j) - len < ex"
            "\<forall>q\<in>set rs. len \<le> snd q \<longrightarrow> snd (rs ! j) \<le> snd q"
        using IH Some by auto
      then show ?thesis
      proof cases
        case 1
        then show ?thesis using Some 3 by auto
      next
        case (2 j)
        have "snd (rs ! j) \<le> l" if "len \<le> l"
          using 3 that 2(3,4) by linarith
        then show ?thesis
          using 2 Some 3 by (auto intro!: exI [of _ "Suc j"])
      qed
    qed
  qed
qed

lemma free_regions_take_None:
  assumes "free_ok l xs" "free_regions_take len xs = (f, None)"
  shows "f = xs" "\<forall>q\<in>set xs. snd q < len"
proof -
  have none: "best_fit len 0 None u64_max xs = None"
    using assms(2) by (auto simp: free_regions_take_def split: option.splits prod.splits)
  show "f = xs"
    using assms(2) none by (simp add: free_regions_take_def)
  have "snd q - len < u64_max" if "q \<in> set xs" for q
  proof -
    have "snd q \<le> MMAP_LIMIT"
      using assms(1) that by (auto simp: free_ok_def mregion_ok_def)
    then show ?thesis
      by (simp add: MMAP_LIMIT_def u64_max_def)
  qed
  then show "\<forall>q\<in>set xs. snd q < len"
    using best_fit_cases [where len = len and i = 0 and best = None and ex = u64_max and rs = xs] none by (auto simp: not_less [symmetric])
qed

lemma free_regions_take_Some:
  assumes ok: "free_ok l xs" and len: "4096 dvd len" and t: "free_regions_take len xs = (f, Some a)"
  shows "free_ok l f \<and> free_set f = free_set xs - {a..<a + len} \<and>
    (\<exists>r\<in>set xs. a = fst r \<and> len \<le> snd r \<and> (\<forall>q\<in>set xs. len \<le> snd q \<longrightarrow> snd r \<le> snd q))"
proof -
  obtain i where i: "best_fit len 0 None u64_max xs = Some i"
    using t by (auto simp: free_regions_take_def split: option.splits)
  have b: "i < length xs" "len \<le> snd (xs ! i)" "\<forall>q\<in>set xs. len \<le> snd q \<longrightarrow> snd (xs ! i) \<le> snd q"
    using best_fit_cases [where len = len and i = 0 and best = None and ex = u64_max and rs = xs] i by auto
  obtain n where r: "xs ! i = (a, n)" and f: "f = (if n = len then swap_remove i xs else xs[i := (wrap64 (a + len), n - len)])"
    using t i by (auto simp: free_regions_take_def split: prod.splits)
  have n: "mregion_ok l (a, n)"
    using free_ok_region [OF ok b(1)] r by simp
  have rest: "free_ok l (remove_at i xs)" "\<forall>q\<in>set (remove_at i xs). apart_regions (a, n) q"
    using ok front_nth [OF b(1), of l] r by auto
  have sp: "span (a, n) = {a..<a + n}"
    by (simp add: span_def)
  have "span (a, n) \<inter> free_set (remove_at i xs) = {}"
    using apart_disjoint rest(2) unfolding free_set_def by blast
  then have free: "free_set xs = {a..<a + n} \<union> free_set (remove_at i xs)" "{a..<a + n} \<inter> free_set (remove_at i xs) = {}"
    using set_front_nth [OF b(1)] r by (simp_all add: sp)
  have le: "len \<le> n"
    using b(2) r by simp
  have main: "free_ok l f \<and> free_set f = free_set xs - {a..<a + len}"
  proof (cases "n = len")
    case True
    then show ?thesis
      using free rest(1) swap_remove_front [OF b(1)] by (auto simp: f)
  next
    case False
    have w: "wrap64 (a + len) = a + len"
      using n le by (simp add: mregion_ok_def MMAP_LIMIT_def wrap64_def)
    have "mregion_ok l (a + len, n - len)"
      using n le False len by (auto simp: mregion_ok_def dvd_diff_nat)
    moreover have "apart_regions (a + len, n - len) q" if "q \<in> set (remove_at i xs)" for q
      using rest(2) that le by (force simp: apart_regions_def)
    moreover have "free_set f = {a + len..<a + n} \<union> free_set (remove_at i xs)"
      unfolding f using set_front_update [OF b(1)] False w le by (simp add: span_def)
    moreover have "{a + len..<a + n} \<union> free_set (remove_at i xs) = free_set xs - {a..<a + len}"
    proof -
      have "x \<notin> free_set (remove_at i xs)" if "a \<le> x" "x < a + len" for x
        using free(2) that le by (metis atLeastLessThan_iff disjoint_iff less_le_trans nat_add_left_cancel_le)
      then show ?thesis
        using free(1) le by auto
    qed
    ultimately show ?thesis
      using rest(1) False by (simp add: f front_update [OF b(1)] w)
  qed
  have "a = fst (xs ! i) \<and> len \<le> snd (xs ! i) \<and> (\<forall>q\<in>set xs. len \<le> snd q \<longrightarrow> snd (xs ! i) \<le> snd q)"
    using b(2,3) unfolding r by (intro conjI) simp_all
  then have ex: "\<exists>r\<in>set xs. a = fst r \<and> len \<le> snd r \<and> (\<forall>q\<in>set xs. len \<le> snd q \<longrightarrow> snd r \<le> snd q)"
    by (rule bexI [OF _ nth_mem [OF b(1)]])
  show ?thesis
    by (intro conjI main [THEN conjunct1] main [THEN conjunct2] ex)
qed

section \<open>Reclaiming a range\<close>

lemma free_ok_insert:
  "free_ok l (us @ cs @ vs) \<longleftrightarrow> free_ok l cs \<and> free_ok l (us @ vs) \<and> (\<forall>c\<in>set cs. \<forall>q\<in>set (us @ vs). apart_regions c q)"
  unfolding free_ok_append set_append ball_Un using apart_sym_iff by blast

definition inside :: "region \<Rightarrow> region \<Rightarrow> bool" where
  "inside p r \<longleftrightarrow> fst r \<le> fst p \<and> fst p + snd p \<le> fst r + snd r"

lemma inside_refl: "inside r r"
  by (simp add: inside_def)

lemma inside_apart: "apart_regions r q \<Longrightarrow> inside p r \<Longrightarrow> inside c q \<Longrightarrow> apart_regions p c"
  by (auto simp: inside_def apart_regions_def)

lemma cut_region_ok:
  assumes "mregion_ok l r" "\<not> disjoint_from a (a + n) r" "4096 dvd a" "4096 dvd n" "0 < n"
  shows "free_ok l (cut_region a (a + n) r)" "free_set (cut_region a (a + n) r) = span r - {a..<a + n}"
    "\<forall>p\<in>set (cut_region a (a + n) r). inside p r"
proof -
  have e: "region_end r = fst r + snd r"
    by (rule region_end_ok [OF assms(1)])
  have d: "4096 dvd fst r + snd r" "4096 dvd a + n"
    using assms by (auto simp: mregion_ok_def)
  show "free_ok l (cut_region a (a + n) r)"
    using assms d by (auto simp: cut_region_def e disjoint_from_def mregion_ok_def apart_regions_def dvd_diff_nat)
  show "free_set (cut_region a (a + n) r) = span r - {a..<a + n}" "\<forall>p\<in>set (cut_region a (a + n) r). inside p r"
    using assms(2) by (auto simp: cut_region_def e disjoint_from_def span_def inside_def)
qed

lemma free_regions_drop_ok:
  assumes n: "4096 dvd a" "4096 dvd n" "0 < n" "a + n < 2 ^ 64"
  shows "free_ok l xs \<Longrightarrow>
    free_ok l (free_regions_drop_range a n xs) \<and>
    free_set (free_regions_drop_range a n xs) = free_set xs - {a..<a + n} \<and>
    (\<forall>p\<in>set (free_regions_drop_range a n xs). \<exists>r\<in>set xs. inside p r)"
proof (induction xs)
  case Nil
  then show ?case by (simp add: free_regions_drop_range_def)
next
  case (Cons r rs)
  have w: "wrap64 (a + n) = a + n"
    using n(4) by simp
  let ?us = "filter (disjoint_from a (a + n)) rs"
  let ?vs = "concat (map (cut_region a (a + n)) (filter (\<lambda>r. \<not> disjoint_from a (a + n) r) rs))"
  have d: "free_regions_drop_range a n rs = ?us @ ?vs"
    by (simp add: free_regions_drop_range_def w Let_def)
  have r: "mregion_ok l r" "\<forall>q\<in>set rs. apart_regions r q"
    using Cons.prems by auto
  have IH: "free_ok l (?us @ ?vs)" "free_set (?us @ ?vs) = free_set rs - {a..<a + n}" "\<forall>p\<in>set (?us @ ?vs). \<exists>r\<in>set rs. inside p r"
    using Cons by (simp_all add: d)
  show ?case
  proof (cases "disjoint_from a (a + n) r")
    case True
    have step: "free_regions_drop_range a n (r # rs) = r # ?us @ ?vs"
      using True by (simp add: free_regions_drop_range_def w Let_def)
    have "apart_regions r p" if p: "p \<in> set (?us @ ?vs)" for p
    proof -
      obtain q where "q \<in> set rs" "inside p q"
        using IH(3) p by blast
      then show ?thesis
        using r(2) inside_apart [of r q r p] by (simp add: inside_refl)
    qed
    moreover have "span r \<inter> {a..<a + n} = {}"
      using True region_end_ok [OF r(1)] by (auto simp: disjoint_from_def span_def)
    ultimately show ?thesis
      unfolding step using IH r(1) inside_refl by (intro conjI) auto
  next
    case False
    note c = cut_region_ok [OF r(1) False n(1-3)]
    have step: "free_regions_drop_range a n (r # rs) = ?us @ cut_region a (a + n) r @ ?vs"
      using False by (simp add: free_regions_drop_range_def w Let_def)
    have "apart_regions p q" if "p \<in> set (cut_region a (a + n) r)" "q \<in> set (?us @ ?vs)" for p q
      using IH(3) r(2) c(3) that inside_apart by blast
    then have "free_ok l (?us @ cut_region a (a + n) r @ ?vs)"
      unfolding free_ok_insert using IH(1) c(1) by blast
    moreover have "\<forall>p\<in>set (?us @ cut_region a (a + n) r @ ?vs). \<exists>q\<in>set (r # rs). inside p q"
      using IH(3) c(3) by (simp only: set_append list.set) blast
    moreover have "free_set (?us @ cut_region a (a + n) r @ ?vs) = free_set (r # rs) - {a..<a + n}"
      using IH(2) c(2) by (simp only: free_set_simps) blast
    ultimately show ?thesis
      unfolding step by (intro conjI)
  qed
qed

section \<open>The contract of the free list\<close>

text \<open>
  What the system calls rely on, as sets of addresses: \<open>abs\<close> is the set of free addresses and
  \<open>ok lim\<close> the representation invariant when the addresses below \<open>lim\<close> have been handed out.
\<close>

locale free_list =
  fixes add :: "nat \<Rightarrow> nat \<Rightarrow> 's \<Rightarrow> 's"
    and take_fit :: "nat \<Rightarrow> 's \<Rightarrow> 's \<times> nat option"
    and drop_range :: "nat \<Rightarrow> nat \<Rightarrow> 's \<Rightarrow> 's"
    and abs :: "'s \<Rightarrow> nat set"
    and ok :: "nat \<Rightarrow> 's \<Rightarrow> bool"
  assumes abs_below: "ok lim f \<Longrightarrow> abs f \<subseteq> {MMAP_BASE..<lim}"
    and ok_mono: "ok lim f \<Longrightarrow> lim \<le> lim' \<Longrightarrow> lim' \<le> MMAP_LIMIT \<Longrightarrow> ok lim' f"
    and add_law: "ok lim f \<Longrightarrow> mregion_ok lim (a, n) \<Longrightarrow> {a..<a + n} \<inter> abs f = {} \<Longrightarrow>
      ok lim (add a n f) \<and> abs (add a n f) = {a..<a + n} \<union> abs f"
    and take_law: "ok lim f \<Longrightarrow> 4096 dvd n \<Longrightarrow> take_fit n f = (f', Some a) \<Longrightarrow>
      ok lim f' \<and> abs f' = abs f - {a..<a + n} \<and> {a..<a + n} \<subseteq> abs f \<and> 4096 dvd a"
    and take_fail: "ok lim f \<Longrightarrow> take_fit n f = (f', None) \<Longrightarrow> f' = f \<and> (0 < n \<longrightarrow> \<not> {a..<a + n} \<subseteq> abs f)"
    and drop_law: "ok lim f \<Longrightarrow> 4096 dvd a \<Longrightarrow> 4096 dvd n \<Longrightarrow> 0 < n \<Longrightarrow> a + n < 2 ^ 64 \<Longrightarrow>
      ok lim (drop_range a n f) \<and> abs (drop_range a n f) = abs f - {a..<a + n}"
begin

text \<open>Free and live addresses partition what has been handed out.\<close>

definition partition :: "nat \<Rightarrow> 's \<Rightarrow> nat set \<Rightarrow> bool" where
  "partition lim f live \<longleftrightarrow>
     ok lim f \<and> MMAP_BASE \<le> lim \<and> lim \<le> MMAP_LIMIT \<and> 4096 dvd lim \<and> live \<inter> abs f = {} \<and> live \<union> abs f = {MMAP_BASE..<lim}"

lemma partition_take:
  assumes "partition lim f live" "4096 dvd n" "take_fit n f = (f', Some a)"
  shows "partition lim f' (live \<union> {a..<a + n})" "{a..<a + n} \<inter> live = {}"
proof -
  have t: "ok lim f'" "abs f' = abs f - {a..<a + n}" "{a..<a + n} \<subseteq> abs f"
    using take_law [OF _ assms(2,3), of lim] assms(1) by (auto simp: partition_def)
  have p: "live \<inter> abs f = {}" "live \<union> abs f = {MMAP_BASE..<lim}"
    using assms(1) by (auto simp: partition_def)
  have "(live \<union> {a..<a + n}) \<inter> abs f' = {}" "(live \<union> {a..<a + n}) \<union> abs f' = {MMAP_BASE..<lim}"
    unfolding t(2) using t(3) p by blast+
  then show "partition lim f' (live \<union> {a..<a + n})"
    using assms(1) t(1) by (simp add: partition_def)
  show "{a..<a + n} \<inter> live = {}"
    using t(3) p(1) by blast
qed

lemma partition_bump:
  assumes "partition lim f live" "lim + n \<le> MMAP_LIMIT" "4096 dvd n"
  shows "partition (lim + n) f (live \<union> {lim..<lim + n})" "{lim..<lim + n} \<inter> live = {}"
proof -
  have p: "ok lim f" "live \<inter> abs f = {}" "live \<union> abs f = {MMAP_BASE..<lim}" "MMAP_BASE \<le> lim" "4096 dvd lim"
    using assms(1) by (auto simp: partition_def)
  have below: "x < lim" if "x \<in> live \<union> abs f" for x
    using that unfolding p(3) by simp
  have "{lim..<lim + n} \<inter> abs f = {}" "{lim..<lim + n} \<inter> live = {}"
    using below by fastforce+
  moreover have "{MMAP_BASE..<lim} \<union> {lim..<lim + n} = {MMAP_BASE..<lim + n}"
    using p(4) by (intro ivl_disj_un_two) simp_all
  ultimately show "partition (lim + n) f (live \<union> {lim..<lim + n})" "{lim..<lim + n} \<inter> live = {}"
    using p assms(2,3) ok_mono [OF p(1), of "lim + n"] by (auto simp: partition_def)
qed

lemma partition_add:
  assumes "partition lim f live" "mregion_ok lim (a, n)" "{a..<a + n} \<subseteq> live"
  shows "partition lim (add a n f) (live - {a..<a + n})"
proof -
  have p: "ok lim f" "live \<inter> abs f = {}" "live \<union> abs f = {MMAP_BASE..<lim}"
    using assms(1) by (auto simp: partition_def)
  have "{a..<a + n} \<inter> abs f = {}"
    using assms(3) p(2) by blast
  note t = add_law [OF p(1) assms(2) this]
  have "(live - {a..<a + n}) \<inter> abs (add a n f) = {}" "(live - {a..<a + n}) \<union> abs (add a n f) = {MMAP_BASE..<lim}"
    unfolding t [THEN conjunct2] using assms(3) p(2,3) by blast+
  then show ?thesis
    using assms(1) t by (simp add: partition_def)
qed

lemma partition_drop:
  assumes "partition lim f live" "4096 dvd a" "4096 dvd n" "0 < n" "{a..<a + n} \<subseteq> {MMAP_BASE..<lim}"
  shows "partition lim (drop_range a n f) (live \<union> {a..<a + n})"
proof -
  have p: "ok lim f" "live \<inter> abs f = {}" "live \<union> abs f = {MMAP_BASE..<lim}" "lim \<le> MMAP_LIMIT"
    using assms(1) by (auto simp: partition_def)
  have "a + n \<le> lim"
    using assms(4,5) by (simp add: ivl_subset)
  then have "a + n < 2 ^ 64"
    using p(4) by (simp add: MMAP_LIMIT_def)
  note t = drop_law [OF p(1) assms(2-4) this]
  have "(live \<union> {a..<a + n}) \<inter> abs (drop_range a n f) = {}" "(live \<union> {a..<a + n}) \<union> abs (drop_range a n f) = {MMAP_BASE..<lim}"
    unfolding t [THEN conjunct2] using p(2,3) assms(5) by blast+
  then show ?thesis
    using assms(1) t by (simp add: partition_def)
qed

end

text \<open>Separated regions: an interval inside their union lies in one of them.\<close>

lemma interval_in_one:
  assumes "\<And>r q. r \<in> R \<Longrightarrow> q \<in> R \<Longrightarrow> r = q \<or> apart_regions r q" "{a..<a + n} \<subseteq> \<Union> (span ` R)" "0 < n"
  shows "\<exists>r\<in>R. {a..<a + n} \<subseteq> span r"
proof -
  obtain r where r: "r \<in> R" "a \<in> span r"
    using assms(2,3) by (auto simp: subset_iff)
  have "a + k \<in> span r" if "k < n" for k
    using that
  proof (induction k)
    case 0
    then show ?case using r(2) by simp
  next
    case (Suc k)
    have "a + Suc k \<in> \<Union> (span ` R)"
      by (rule subsetD [OF assms(2)]) (use Suc.prems in simp)
    then obtain q where q: "q \<in> R" "a + Suc k \<in> span q"
      by blast
    have k: "a + k \<in> span r"
      using Suc by simp
    have "\<not> apart_regions r q"
      using k q(2) by (auto simp: span_def apart_regions_def)
    then show ?case
      using assms(1) [OF r(1) q(1)] q(2) by blast
  qed
  then have "{a..<a + n} \<subseteq> span r"
    by (metis atLeastLessThan_iff le_Suc_ex nat_add_left_cancel_less subsetI)
  then show ?thesis
    using r(1) by blast
qed

interpretation fl: free_list free_regions_add free_regions_take free_regions_drop_range free_set free_ok
proof
  fix lim f
  assume "free_ok lim f"
  then show "free_set f \<subseteq> {MMAP_BASE..<lim}"
    by (auto simp: free_ok_def mregion_ok_def free_set_def span_def)
next
  fix lim f lim'
  assume "free_ok lim f" "lim \<le> lim'" "lim' \<le> MMAP_LIMIT"
  then show "free_ok lim' f"
    by (auto simp: free_ok_def mregion_ok_def)
next
  fix lim f a n
  assume "free_ok lim f" "mregion_ok lim (a, n)" "{a..<a + n} \<inter> free_set f = {}"
  then show "free_ok lim (free_regions_add a n f) \<and> free_set (free_regions_add a n f) = {a..<a + n} \<union> free_set f"
    using free_regions_add_ok [of lim f a n] by (simp add: span_def)
next
  fix lim f n f' a
  assume ok: "free_ok lim f" and n: "4096 dvd n" and t: "free_regions_take n f = (f', Some a)"
  obtain r where r: "r \<in> set f" "a = fst r" "n \<le> snd r"
    using free_regions_take_Some [OF ok n t] by blast
  then have "{a..<a + n} \<subseteq> free_set f" "4096 dvd a"
    using ok by (force simp: free_set_def span_def, simp add: free_ok_def mregion_ok_def)
  then show "free_ok lim f' \<and> free_set f' = free_set f - {a..<a + n} \<and> {a..<a + n} \<subseteq> free_set f \<and> 4096 dvd a"
    using free_regions_take_Some [OF ok n t] by simp
next
  fix lim f n f' a
  assume ok: "free_ok lim f" and t: "free_regions_take n f = (f', None)"
  note none = free_regions_take_None [OF ok t]
  have "\<not> {a..<a + n} \<subseteq> free_set f" if n: "0 < n"
  proof
    assume "{a..<a + n} \<subseteq> free_set f"
    then obtain r where r: "r \<in> set f" "{a..<a + n} \<subseteq> span r"
      using interval_in_one [of "set f" a n] n free_ok_apart [OF ok] unfolding free_set_def by (metis in_set_conv_nth)
    then have "a + n \<le> fst r + snd r" "fst r \<le> a"
      using n by (simp_all add: span_def ivl_subset)
    then show False
      using none(2) r(1) by fastforce
  qed
  then show "f' = f \<and> (0 < n \<longrightarrow> \<not> {a..<a + n} \<subseteq> free_set f)"
    using none(1) by blast
next
  fix lim f and a n :: nat
  assume "free_ok lim f" "4096 dvd a" "4096 dvd n" "0 < n" "a + n < 2 ^ 64"
  then show "free_ok lim (free_regions_drop_range a n f) \<and> free_set (free_regions_drop_range a n f) = free_set f - {a..<a + n}"
    using free_regions_drop_ok [of a n lim f] by blast
qed

end
