(* ===== verification/Mmap_Properties.thy ===== *)
theory Mmap_Properties
  imports Mmap_Regions
begin

text \<open>
  Properties of the memory system calls.  \<open>mmap_reachable\<close> interleaves the atomic steps of any
  number of threads (taking from the free list, advancing the bump pointer, reclaiming a fixed
  range, freeing) and records the addresses the program holds; free and live addresses partition
  the range handed out, a request fails exactly when there is no room, and what happens when the
  program frees a range twice or asks for a length whose rounding wraps.
\<close>

unbundle bit_operations_syntax

section \<open>Interleaved calls\<close>

text \<open>
  The runs of a program that keeps to the interface: it frees what it holds, or a range the kernel
  does not manage, and asks for fixed pages either below the managed range or inside the part of it
  that has been handed out.  The kernel checks neither: the last property below shows what a second
  \<open>munmap\<close> does, and fixed pages above the bump pointer are not recorded, so that a later request is
  given them again.
\<close>

inductive mmap_reachable :: "mmap_state \<Rightarrow> nat set \<Rightarrow> bool" where
  start: "mmap_reachable mmap_init {}"
| initial_brk: "mmap_reachable s live \<Longrightarrow> mmap_reachable (set_initial_brk e s) live"
| brk: "mmap_reachable s live \<Longrightarrow> mmap_reachable (fst (sys_brk a s)) live"
| reuse: "mmap_reachable s live \<Longrightarrow> n = page_round len \<Longrightarrow> free_regions_take n (free_regions s) = (f, Some a) \<Longrightarrow>
    mmap_reachable (s\<lparr>free_regions := f\<rparr>) (live \<union> {a..<a + n})"
| bump: "mmap_reachable s live \<Longrightarrow> n = page_round len \<Longrightarrow> mmap_bump n s = (s', Some a) \<Longrightarrow>
    mmap_reachable s' (live \<union> {a..<a + n})"
| fixed: "mmap_reachable s live \<Longrightarrow> n = page_round len \<Longrightarrow> 0 < n \<Longrightarrow> 4096 dvd a \<Longrightarrow>
    {a..<a + n} \<subseteq> {MMAP_BASE..<mmap_next s} \<Longrightarrow>
    mmap_reachable (s\<lparr>free_regions := free_regions_drop_range a n (free_regions s)\<rparr>) (live \<union> {a..<a + n})"
| unmap: "mmap_reachable s live \<Longrightarrow> 0 < len \<Longrightarrow> len + 2 * 4096 \<le> 2 ^ 64 \<Longrightarrow> munmap_range addr len = (a, n) \<Longrightarrow> {a..<a + n} \<subseteq> live \<Longrightarrow>
    mmap_reachable (fst (sys_munmap addr len s)) (live - {a..<a + n})"
| fixed_low: "mmap_reachable s live \<Longrightarrow> n = page_round len \<Longrightarrow> a + n \<le> MMAP_BASE \<Longrightarrow>
    mmap_reachable (s\<lparr>free_regions := free_regions_drop_range a n (free_regions s)\<rparr>) live"
| unmap_outside: "mmap_reachable s live \<Longrightarrow> munmap_range addr len = (a, n) \<Longrightarrow>
    addr = 0 \<or> len = 0 \<or> a < MMAP_BASE \<or> MMAP_LIMIT < region_end (a, n) \<Longrightarrow>
    mmap_reachable (fst (sys_munmap addr len s)) live"

lemma page_round_dvd [simp]: "4096 dvd page_round n"
  by (simp add: page_round_def)

lemma page_round_bounds:
  assumes "n + 0xFFF < 2 ^ 64"
  shows "n \<le> page_round n" "page_round n < n + 4096"
proof -
  have w: "page_round n = align_down (n + 0xFFF) 4096"
    using assms by (simp add: page_round_def)
  show "n \<le> page_round n" "page_round n < n + 4096"
    using align_down_gt [of 4096 "n + 0xFFF"] align_down_le [of "n + 0xFFF" 4096] unfolding w by linarith+
qed

lemma munmap_range_bounds:
  assumes "munmap_range addr len = (a, n)" "0 < len" "len + 2 * 4096 \<le> 2 ^ 64"
  shows "4096 dvd a" "4096 dvd n" "a \<le> addr" "addr < a + 4096" "0 < n" "addr + len \<le> a + n" "n < len + 8192"
proof -
  have a: "a = align_down addr 4096" and n: "n = align_down (wrap64 (len + (addr - a) + 0xFFF)) 4096"
    using assms(1) by (auto simp: munmap_range_def Let_def)
  show 1: "4096 dvd a" "a \<le> addr"
    using a by simp_all
  show 2: "addr < a + 4096"
    using align_down_gt [of 4096 addr] a by simp
  have w: "wrap64 (len + (addr - a) + 0xFFF) = len + (addr - a) + 0xFFF"
    using assms(3) 2 by (intro wrap64_id) simp
  have "len + (addr - a) + 0xFFF < n + 4096" "n \<le> len + (addr - a) + 0xFFF"
    using align_down_gt [of 4096 "len + (addr - a) + 0xFFF"] unfolding n w by simp_all
  then show "0 < n" "addr + len \<le> a + n" "n < len + 8192"
    using assms(2) 1 2 by linarith+
  show "4096 dvd n"
    by (simp add: n)
qed

lemma mmap_bump_Some:
  assumes "mmap_bump n s = (s', Some a)"
  shows "a = mmap_next s" "s' = s\<lparr>mmap_next := mmap_next s + n\<rparr>" "mmap_next s + n \<le> MMAP_LIMIT"
proof -
  have "saturating_add (mmap_next s) n \<le> MMAP_LIMIT"
    using assms by (auto simp: mmap_bump_def Let_def split: if_splits)
  then show "mmap_next s + n \<le> MMAP_LIMIT"
    by (auto simp: saturating_add_def MMAP_LIMIT_def u64_max_def min_def split: if_splits)
  then have "saturating_add (mmap_next s) n = mmap_next s + n"
    by (simp add: saturating_add_def MMAP_LIMIT_def u64_max_def)
  then show "a = mmap_next s" "s' = s\<lparr>mmap_next := mmap_next s + n\<rparr>"
    using assms by (auto simp: mmap_bump_def Let_def split: if_splits)
qed

lemma mmap_bump_None: "mmap_bump n s = (s', None) \<Longrightarrow> MMAP_LIMIT < mmap_next s + n"
  by (auto simp: mmap_bump_def Let_def saturating_add_def split: if_splits)

lemma sys_munmap_live:
  assumes p: "fl.partition (mmap_next s) (free_regions s) live" and m: "munmap_range addr len = (a, n)" "{a..<a + n} \<subseteq> live"
    and len: "0 < len" "len + 2 * 4096 \<le> 2 ^ 64"
  shows "fl.partition (mmap_next s) (free_regions (fst (sys_munmap addr len s))) (live - {a..<a + n})"
    "mmap_next (fst (sys_munmap addr len s)) = mmap_next s"
proof -
  have lim: "mmap_next s \<le> MMAP_LIMIT" "live \<subseteq> {MMAP_BASE..<mmap_next s}"
    using p by (auto simp: fl.partition_def)
  note b = munmap_range_bounds [OF m(1) len]
  have "{a..<a + n} \<subseteq> {MMAP_BASE..<mmap_next s}"
    using m(2) lim(2) by (rule order_trans)
  then have in_range: "MMAP_BASE \<le> a" "a + n \<le> mmap_next s"
    using b(5) by (simp_all add: ivl_subset)
  have "mregion_ok (mmap_next s) (a, n)"
    using in_range b lim(1) by (simp add: mregion_ok_def)
  note added = fl.partition_add [OF p this m(2)]
  have "region_end (a, n) \<le> MMAP_LIMIT" "addr \<noteq> 0"
    using in_range lim(1) b(3) by (auto simp: region_end_def MMAP_LIMIT_def MMAP_BASE_def)
  then show "fl.partition (mmap_next s) (free_regions (fst (sys_munmap addr len s))) (live - {a..<a + n})"
    using added len(1) in_range by (simp add: sys_munmap_def m(1))
  show "mmap_next (fst (sys_munmap addr len s)) = mmap_next s"
    by (simp add: sys_munmap_def m(1))
qed

lemma drop_range_below:
  assumes "free_ok l rs" "a + n \<le> MMAP_BASE"
  shows "free_regions_drop_range a n rs = rs"
proof -
  have "disjoint_from a (wrap64 (a + n)) r" if "r \<in> set rs" for r
    using assms that by (auto simp: free_ok_def mregion_ok_def disjoint_from_def MMAP_BASE_def)
  then have "filter (disjoint_from a (wrap64 (a + n))) rs = rs" "filter (\<lambda>r. \<not> disjoint_from a (wrap64 (a + n)) r) rs = []"
    by (simp_all add: filter_id_conv)
  then show ?thesis
    by (simp add: free_regions_drop_range_def Let_def)
qed

lemma mmap_reachable_partition: "mmap_reachable s live \<Longrightarrow> fl.partition (mmap_next s) (free_regions s) live"
proof (induction rule: mmap_reachable.induct)
  case start
  then show ?case
    by (simp add: fl.partition_def mmap_init_def MMAP_BASE_def MMAP_LIMIT_def)
next
  case (reuse s live n len f a)
  then show ?case
    using fl.partition_take(1) [OF reuse.IH, of n] by simp
next
  case (bump s live n len s' a)
  note b = mmap_bump_Some [OF bump.hyps(3)]
  show ?case
    using fl.partition_bump(1) [OF bump.IH b(3)] bump.hyps(2) by (simp add: b(1,2))
next
  case (fixed s live n len a)
  then show ?case
    using fl.partition_drop [OF fixed.IH fixed.hyps(4) _ fixed.hyps(3) fixed.hyps(5)] by simp
next
  case (unmap s live len addr a n)
  show ?case
    using sys_munmap_live [OF unmap.IH unmap.hyps(4,5,2,3)] by simp
next
  case (fixed_low s live n len a)
  have "free_ok (mmap_next s) (free_regions s)"
    using fixed_low.IH by (simp add: fl.partition_def)
  then show ?case
    using fixed_low.IH drop_range_below [OF _ fixed_low.hyps(3)] by simp
next
  case (unmap_outside s live addr len a n)
  then have "fst (sys_munmap addr len s) = s"
    by (auto simp: sys_munmap_def)
  then show ?case
    using unmap_outside.IH by simp
qed (simp_all add: set_initial_brk_def sys_brk_def)

text \<open>The eager zero fill of a range of user memory.\<close>

lemma zero_fill_user:
  assumes "user_accessible (pg m) a n"
  shows "pg (zero_fill a n m) = pg m" "x \<notin> {a..<a + n} \<Longrightarrow> ram (zero_fill a n m) x = ram m x"
    "n \<le> 0x4000000 \<Longrightarrow> x \<in> {a..<a + n} \<Longrightarrow> ram (zero_fill a n m) x = 0"
  using assms by (auto simp: zero_fill_def with_user_access_def mem_write_def)

lemma sys_mmap_any:
  assumes "addr = 0 \<or> flags AND MAP_FIXED = 0"
  shows "sys_mmap addr len flags (s, m) =
    (case free_regions_take (page_round len) (free_regions s) of
       (f, Some a) \<Rightarrow> ((s\<lparr>free_regions := f\<rparr>, zero_fill a (page_round len) m), i64_of (int a))
     | (_, None) \<Rightarrow> (case mmap_bump (page_round len) s of (_, None) \<Rightarrow> ((s, m), ENOMEM) | (s', Some a) \<Rightarrow> ((s', m), i64_of (int a))))"
  using assms by (auto simp: sys_mmap_def Let_def)

lemma i64_mmap: "a \<le> MMAP_LIMIT \<Longrightarrow> i64_of (int a) = int a"
  by (simp add: MMAP_LIMIT_def)

text \<open>What a granted request gives the program.\<close>

definition mmap_granted ::
  "mmap_state \<Rightarrow> machine \<Rightarrow> nat set \<Rightarrow> nat \<Rightarrow> mmap_state \<Rightarrow> machine \<Rightarrow> nat \<Rightarrow> bool" where
  "mmap_granted s m live n s' m' a \<longleftrightarrow>
     4096 dvd a \<and> {a..<a + n} \<inter> live = {} \<and> {a..<a + n} \<subseteq> {MMAP_BASE..<MMAP_LIMIT} \<and>
     mmap_reachable s' (live \<union> {a..<a + n}) \<and>
     user_accessible (pg m) a n \<and> pg m' = pg m \<and> (\<forall>x. x \<notin> {a..<a + n} \<longrightarrow> ram m' x = ram m x) \<and>
     (a < mmap_next s \<and> n \<le> 0x4000000 \<longrightarrow> (\<forall>x\<in>{a..<a + n}. ram m' x = 0))"

lemma mmap_accessible:
  "layout_ok l \<Longrightarrow> kernel_paging l p \<Longrightarrow> 0 < n \<Longrightarrow> {a..<a + n} \<subseteq> {MMAP_BASE..<MMAP_LIMIT} \<Longrightarrow> user_accessible p a n"
  by (rule beam_accessible) (simp_all add: ivl_subset MMAP_BASE_def MMAP_LIMIT_def)

lemma mmap_partitionD:
  assumes "mmap_reachable s live"
  shows "free_ok (mmap_next s) (free_regions s)" "{MMAP_BASE..<mmap_next s} - live = free_set (free_regions s)"
    "mmap_next s \<le> MMAP_LIMIT" "MMAP_BASE \<le> mmap_next s" "4096 dvd mmap_next s"
  using mmap_reachable_partition [OF assms] by (auto simp: fl.partition_def)

lemma mmap_reuse_granted:
  assumes "layout_ok l" "kernel_paging l (pg m)" "mmap_reachable s live" "0 < page_round len"
    and t: "free_regions_take (page_round len) (free_regions s) = (f, Some a)"
  shows "mmap_granted s m live (page_round len) (s\<lparr>free_regions := f\<rparr>) (zero_fill a (page_round len) m) a \<and> a \<le> MMAP_LIMIT"
proof -
  let ?n = "page_round len"
  note p = mmap_partitionD [OF assms(3)]
  note u = fl.take_law [OF p(1) page_round_dvd t]
  have "{a..<a + ?n} \<subseteq> {MMAP_BASE..<mmap_next s}"
    using u fl.abs_below [OF p(1)] by blast
  then have sub: "{a..<a + ?n} \<subseteq> {MMAP_BASE..<MMAP_LIMIT}" and a: "a \<le> MMAP_LIMIT"
    using p(3) assms(4) by (simp_all add: ivl_subset)
  show ?thesis
    using u sub a fl.partition_take(2) [OF mmap_reachable_partition [OF assms(3)] page_round_dvd t]
      mmap_reachable.reuse [OF assms(3) refl t] zero_fill_user [OF mmap_accessible [OF assms(1,2,4) sub]]
      mmap_accessible [OF assms(1,2,4) sub]
    by (simp add: mmap_granted_def)
qed

lemma mmap_bump_granted:
  assumes "layout_ok l" "kernel_paging l (pg m)" "mmap_reachable s live" "0 < page_round len"
    and t: "mmap_bump (page_round len) s = (s', Some a)"
  shows "mmap_granted s m live (page_round len) s' m a \<and> a \<le> MMAP_LIMIT"
proof -
  let ?n = "page_round len"
  note p = mmap_partitionD [OF assms(3)]
  note u = mmap_bump_Some [OF t]
  have sub: "{a..<a + ?n} \<subseteq> {MMAP_BASE..<MMAP_LIMIT}"
    using p u by (simp add: ivl_subset)
  have live: "{a..<a + ?n} \<inter> live = {}"
    using fl.partition_bump(2) [OF mmap_reachable_partition [OF assms(3)] u(3) page_round_dvd] u(1) by simp
  have a: "4096 dvd a" "\<not> a < mmap_next s" "a \<le> MMAP_LIMIT"
    using u(1) p(3,5) by simp_all
  show ?thesis
    unfolding mmap_granted_def
    using sub live a mmap_reachable.bump [OF assms(3) refl t] mmap_accessible [OF assms(1,2,4) sub] by blast
qed

lemma mmap_granted:
  assumes "layout_ok l" "kernel_paging l (pg m)" "mmap_reachable s live" "0 < page_round len" "addr = 0 \<or> flags AND MAP_FIXED = 0"
    and room: "\<not> (MMAP_LIMIT < mmap_next s + page_round len \<and> (\<forall>a. \<not> {a..<a + page_round len} \<subseteq> {MMAP_BASE..<mmap_next s} - live))"
  shows "\<exists>a s' m'. sys_mmap addr len flags (s, m) = ((s', m'), int a) \<and> mmap_granted s m live (page_round len) s' m' a"
proof -
  let ?n = "page_round len"
  note p = mmap_partitionD [OF assms(3)]
  obtain f o1 s' o2 where t: "free_regions_take ?n (free_regions s) = (f, o1)" "mmap_bump ?n s = (s', o2)"
    by fastforce
  consider a where "o1 = Some a" | a where "o1 = None" "o2 = Some a" | "o1 = None" "o2 = None"
    by (cases o1; cases o2) auto
  then show ?thesis
  proof cases
    case (1 a)
    note g = mmap_reuse_granted [OF assms(1-4) t(1) [unfolded 1]]
    show ?thesis
      unfolding sys_mmap_any [OF assms(5)] t 1 using g by (auto simp: i64_mmap)
  next
    case (2 a)
    note g = mmap_bump_granted [OF assms(1-4) t(2) [unfolded 2]]
    show ?thesis
      unfolding sys_mmap_any [OF assms(5)] t 2 using g by (auto simp: i64_mmap)
  next
    case 3
    then have "\<not> {a..<a + ?n} \<subseteq> {MMAP_BASE..<mmap_next s} - live" for a
      using fl.take_fail [OF p(1) t(1) [unfolded 3(1)], of a] assms(4) unfolding p(2) by simp
    then show ?thesis
      using room mmap_bump_None [OF t(2) [unfolded 3(2)]] by blast
  qed
qed

lemma mmap_refused:
  assumes "mmap_reachable s live" "addr = 0 \<or> flags AND MAP_FIXED = 0"
    and room: "MMAP_LIMIT < mmap_next s + page_round len" "\<forall>a. \<not> {a..<a + page_round len} \<subseteq> {MMAP_BASE..<mmap_next s} - live"
  shows "sys_mmap addr len flags (s, m) = ((s, m), ENOMEM)"
proof -
  let ?n = "page_round len"
  note p = mmap_partitionD [OF assms(1)]
  have none: "mmap_bump ?n s = (s, None)"
    using room(1) by (auto simp: mmap_bump_def saturating_add_def Let_def MMAP_LIMIT_def u64_max_def)
  obtain f o1 where t: "free_regions_take ?n (free_regions s) = (f, o1)"
    by fastforce
  have "o1 = None"
  proof (cases o1)
    case (Some a)
    then show ?thesis
      using fl.take_law [OF p(1) page_round_dvd t [unfolded Some]] room(2) p(2) by simp
  qed simp
  then show ?thesis
    unfolding sys_mmap_any [OF assms(2)] t by (simp add: none)
qed

section \<open>A concrete run\<close>

text \<open>Two pages are mapped and the first is freed again.\<close>

definition example_mmap :: mmap_state where
  "example_mmap = fst (sys_munmap MMAP_BASE 4096 (mmap_init\<lparr>mmap_next := MMAP_BASE + 8192\<rparr>))"

lemma example_mmap_eq: "example_mmap = mmap_init\<lparr>mmap_next := MMAP_BASE + 8192, free_regions := [(MMAP_BASE, 4096)]\<rparr>"
  by (simp add: example_mmap_def sys_munmap_def munmap_range_def align_down_def MMAP_BASE_def MMAP_LIMIT_def region_end_def
      wrap64_def free_regions_add_def mmap_init_def)

lemma example_mmap_reachable: "mmap_reachable example_mmap {MMAP_BASE + 4096..<MMAP_BASE + 8192}"
proof -
  have "mmap_bump 8192 mmap_init = (mmap_init\<lparr>mmap_next := MMAP_BASE + 8192\<rparr>, Some MMAP_BASE)"
    by (simp add: mmap_bump_def mmap_init_def saturating_add_def u64_max_def MMAP_BASE_def MMAP_LIMIT_def)
  moreover have "8192 = page_round 8192"
    by (simp add: page_round_def align_down_def wrap64_def)
  ultimately have "mmap_reachable (mmap_init\<lparr>mmap_next := MMAP_BASE + 8192\<rparr>) ({} \<union> {MMAP_BASE..<MMAP_BASE + 8192})"
    by (intro mmap_reachable.bump [OF mmap_reachable.start])
  moreover have "munmap_range MMAP_BASE 4096 = (MMAP_BASE, 4096)"
    by (simp add: munmap_range_def align_down_def MMAP_BASE_def wrap64_def)
  ultimately have "mmap_reachable example_mmap ({} \<union> {MMAP_BASE..<MMAP_BASE + 8192} - {MMAP_BASE..<MMAP_BASE + 4096})"
    unfolding example_mmap_def by (intro mmap_reachable.unmap) (simp_all add: ivl_subset)
  moreover have "{} \<union> {MMAP_BASE..<MMAP_BASE + 8192} - {MMAP_BASE..<MMAP_BASE + 4096} = {MMAP_BASE + 4096..<MMAP_BASE + 8192}"
    by auto
  ultimately show ?thesis by simp
qed

section \<open>Memory that is not reserved\<close>

lemma free_regions_take_0:
  assumes "free_ok l xs" "free_regions_take 0 xs = (f, o1)"
  shows "f = xs" "o1 = Some a \<Longrightarrow> a \<in> free_set xs \<and> a < l"
proof -
  have "f = xs \<and> (o1 = Some a \<longrightarrow> a \<in> free_set xs \<and> a < l)"
  proof (cases o1)
    case None
    then show ?thesis using free_regions_take_None(1) [OF assms(1)] assms(2) by simp
  next
    case (Some b)
    obtain i where i: "best_fit 0 0 None u64_max xs = Some i" "b = fst (xs ! i)"
      "f = (if snd (xs ! i) = 0 then swap_remove i xs else xs[i := (wrap64 (b + 0), snd (xs ! i) - 0)])"
      using assms(2) Some by (auto simp: free_regions_take_def split: option.splits prod.splits)
    have "i < length xs"
      using best_fit_cases [where len = 0 and i = 0 and best = None and ex = u64_max and rs = xs] i(1) by auto
    note r = free_ok_region [OF assms(1) this]
    have "wrap64 b = b"
      using r i(2) by (simp add: mregion_ok_def MMAP_LIMIT_def)
    then have "f = xs"
      using r i(2,3) by (simp add: mregion_ok_def)
    moreover have "b \<in> span (xs ! i)" "b < l"
      using r i(2) by (auto simp: mregion_ok_def span_def)
    ultimately show ?thesis
      using Some span_free_set [OF \<open>i < length xs\<close>] by auto
  qed
  then show "f = xs" "o1 = Some a \<Longrightarrow> a \<in> free_set xs \<and> a < l"
    by blast+
qed

lemma mmap_zero:
  assumes r: "mmap_reachable s live" and len: "len = 0 \<or> 2 ^ 64 \<le> len + 0xFFF \<and> len < 2 ^ 64"
  shows "\<exists>a. sys_mmap 0 len flags (s, m) = ((s, m), int a) \<and> a \<notin> live"
proof -
  have n: "page_round len = 0"
  proof -
    have "wrap64 (len + 0xFFF) < 4096"
    proof (cases "len = 0")
      case False
      then have w: "2 ^ 64 \<le> len + 0xFFF" "len + 0xFFF < 2 * 2 ^ 64" "len + 0xFFF - 2 ^ 64 < 4096"
        using len by auto
      show ?thesis
        unfolding wrap64_once [OF w(1,2)] by (rule w(3))
    qed (simp add: wrap64_def)
    then show ?thesis
      by (simp add: page_round_def align_down_def)
  qed
  note p = mmap_partitionD [OF r]
  obtain f o1 where t: "free_regions_take 0 (free_regions s) = (f, o1)"
    by fastforce
  have z: "zero_fill a 0 m = m" for a
    by (simp add: zero_fill_def with_user_access_def)
  show ?thesis
  proof (cases o1)
    case None
    have "live \<subseteq> {MMAP_BASE..<mmap_next s}"
      using mmap_reachable_partition [OF r] by (auto simp: fl.partition_def)
    then have "mmap_next s \<notin> live"
      by auto
    then show ?thesis
      unfolding sys_mmap_any [OF disjI1 [OF refl]] n t None
      using p(3) by (simp add: mmap_bump_def saturating_add_def u64_max_def MMAP_LIMIT_def)
  next
    case (Some a)
    have "f = free_regions s" "a \<in> free_set (free_regions s)" "a < mmap_next s"
      using free_regions_take_0 [OF p(1) t] Some by auto
    moreover have "a \<notin> live"
      using calculation(2) p(2) by blast
    ultimately show ?thesis
      unfolding sys_mmap_any [OF disjI1 [OF refl]] n t Some using p(3) by (simp add: z i64_mmap)
  qed
qed

lemma mmap_freed_twice:
  fixes m :: machine and flags :: int
  assumes "0 < n" "4096 dvd n" "MMAP_BASE + n \<le> MMAP_LIMIT"
  defines "u1 \<equiv> fst (sys_munmap MMAP_BASE n (fst (fst (sys_mmap 0 n flags (mmap_init, m)))))"
  defines "r1 \<equiv> sys_mmap 0 n flags (fst (sys_munmap MMAP_BASE n u1), m)"
  shows "snd (sys_mmap 0 n flags (mmap_init, m)) = int MMAP_BASE" "snd (sys_munmap MMAP_BASE n u1) = 0"
    "snd r1 = int MMAP_BASE" "snd (sys_mmap 0 n flags (fst r1)) = int MMAP_BASE"
proof -
  let ?s = "mmap_init\<lparr>mmap_next := MMAP_BASE + n\<rparr>"
  have b: "n < 2 ^ 63" "MMAP_BASE \<le> MMAP_LIMIT" "4096 dvd MMAP_BASE" "MMAP_BASE \<noteq> 0"
    using assms(3) by (auto simp: MMAP_LIMIT_def MMAP_BASE_def)
  have n: "page_round n = n"
  proof -
    have "page_round n = align_up n 4096"
      using b(1) by (simp add: page_round_def align_up_def align_down_def)
    then show ?thesis
      using align_up_id [OF assms(2)] by simp
  qed
  have mr: "munmap_range MMAP_BASE n = (MMAP_BASE, n)"
    using n b(3) by (simp add: munmap_range_def page_round_def align_down_id Let_def)
  have e: "region_end (MMAP_BASE, n) = MMAP_BASE + n"
    using assms(3) by (simp add: region_end_def MMAP_LIMIT_def)
  have first: "sys_mmap 0 n flags (mmap_init, m) = ((?s, m), int MMAP_BASE)"
    unfolding sys_mmap_any [OF disjI1 [OF refl]] n
    using assms(3) by (simp add: mmap_init_def free_regions_take_def mmap_bump_def saturating_add_def u64_max_def i64_mmap MMAP_LIMIT_def MMAP_BASE_def)
  then show "snd (sys_mmap 0 n flags (mmap_init, m)) = int MMAP_BASE"
    by simp
  have u1: "u1 = ?s\<lparr>free_regions := [(MMAP_BASE, n)]\<rparr>"
    unfolding u1_def first fst_conv using assms(1,3) b e by (simp add: sys_munmap_def mr mmap_init_def free_regions_add_def)
  show "snd (sys_munmap MMAP_BASE n u1) = 0"
    using assms(1) b by (simp add: sys_munmap_def mr)
  have u2: "fst (sys_munmap MMAP_BASE n u1) = ?s\<lparr>free_regions := [(MMAP_BASE, n), (MMAP_BASE, n)]\<rparr>"
    using assms(1,3) b e by (simp add: u1 sys_munmap_def mr free_regions_add_def touches_def)
  have t: "free_regions_take n ((MMAP_BASE, n) # xs) = (swap_remove 0 ((MMAP_BASE, n) # xs), Some MMAP_BASE)" for xs
    by (simp add: free_regions_take_def u64_max_def)
  have r: "sys_mmap 0 n flags (s\<lparr>free_regions := (MMAP_BASE, n) # xs\<rparr>, m') =
    ((s\<lparr>free_regions := swap_remove 0 ((MMAP_BASE, n) # xs)\<rparr>, zero_fill MMAP_BASE n m'), int MMAP_BASE)" for s xs m'
    unfolding sys_mmap_any [OF disjI1 [OF refl]] n using b(2) by (simp add: t i64_mmap)
  have r1: "r1 = ((?s\<lparr>free_regions := [(MMAP_BASE, n)]\<rparr>, zero_fill MMAP_BASE n m), int MMAP_BASE)"
    unfolding r1_def u2 r by (simp add: swap_remove_def)
  then show "snd r1 = int MMAP_BASE" "snd (sys_mmap 0 n flags (fst r1)) = int MMAP_BASE"
    by (simp_all add: r)
qed

section \<open>Properties\<close>

text \<open>
  C5: after any interleaving of \<open>brk\<close>, of the atomic steps of \<open>mmap\<close> (reuse of a freed region,
  advance of the bump pointer, fixed pages that lie below the managed range or inside what has been
  handed out) and of \<open>munmap\<close> of addresses the program holds or the kernel does not manage, the addresses held and the addresses of the free list are disjoint and together are
  exactly what has been handed out; the free regions are whole pages below the bump pointer, which
  does not pass the end of RAM, and any two of them are separated, so adjacent ones have been merged.
\<close>

theorem mmap_partition:
  assumes "mmap_reachable s live"
  shows "live \<inter> free_set (free_regions s) = {} \<and> live \<union> free_set (free_regions s) = {MMAP_BASE..<mmap_next s} \<and>
    mmap_next s \<le> MMAP_LIMIT \<and> sorted_wrt apart_regions (free_regions s) \<and>
    (\<forall>r\<in>set (free_regions s). 0 < snd r \<and> 4096 dvd fst r \<and> 4096 dvd snd r)"
  using mmap_reachable_partition [OF assms] by (auto simp: fl.partition_def free_ok_def mregion_ok_def)

theorem mmap_partition_witness:
  "mmap_reachable example_mmap {MMAP_BASE + 4096..<MMAP_BASE + 8192} \<and>
   {MMAP_BASE + 4096..<MMAP_BASE + 8192} \<union> free_set [(MMAP_BASE, 4096)] = {MMAP_BASE..<mmap_next example_mmap}"
  using mmap_partition [OF example_mmap_reachable] example_mmap_reachable by (simp add: example_mmap_eq)

text \<open>
  C12: a request of a program that has kept to the interface as above, without \<open>MAP_FIXED\<close> (or with
  address zero) and with a positive length whose rounding does not wrap.  It is refused with \<open>ENOMEM\<close>, without effect,
  exactly when no contiguous range of free addresses is large enough and the bump pointer would pass
  the end of RAM.  Otherwise the result is the page-aligned start of a range of the rounded length
  that lies in user memory and overlaps nothing the program holds; only bytes of that range change,
  and a reused range of at most 64 MiB reads as zero.
\<close>

theorem mmap_exact:
  assumes "layout_ok l" and "kernel_paging l (pg m)" and r: "mmap_reachable s live"
    and "0 < len" and "len + 0xFFF < 2 ^ 64" and "addr = 0 \<or> flags AND MAP_FIXED = 0"
  shows "case sys_mmap addr len flags (s, m) of ((s', m'), res) \<Rightarrow>
     (let n = page_round len; free = {MMAP_BASE..<mmap_next s} - live in
      len \<le> n \<and> n < len + 4096 \<and>
      (if MMAP_LIMIT < mmap_next s + n \<and> (\<forall>a. \<not> {a..<a + n} \<subseteq> free)
       then s' = s \<and> m' = m \<and> res = ENOMEM
       else (\<exists>a. res = int a \<and> 4096 dvd a \<and> {a..<a + n} \<inter> live = {} \<and> {a..<a + n} \<subseteq> {MMAP_BASE..<MMAP_LIMIT} \<and>
               mmap_reachable s' (live \<union> {a..<a + n}) \<and>
               user_accessible (pg m) a n \<and> pg m' = pg m \<and> (\<forall>x. x \<notin> {a..<a + n} \<longrightarrow> ram m' x = ram m x) \<and>
               (a < mmap_next s \<and> n \<le> 0x4000000 \<longrightarrow> (\<forall>x\<in>{a..<a + n}. ram m' x = 0)))))"
proof -
  let ?n = "page_round len" and ?free = "{MMAP_BASE..<mmap_next s} - live"
  have b: "len \<le> ?n" "?n < len + 4096" "0 < ?n"
    using page_round_bounds [OF assms(5)] assms(4) by simp_all
  show ?thesis
  proof (cases "MMAP_LIMIT < mmap_next s + ?n \<and> (\<forall>a. \<not> {a..<a + ?n} \<subseteq> ?free)")
    case True
    then show ?thesis
      using mmap_refused [OF r assms(6)] b by (simp add: Let_def)
  next
    case False
    then obtain a s' m' where g: "sys_mmap addr len flags (s, m) = ((s', m'), int a)" "mmap_granted s m live ?n s' m' a"
      using mmap_granted [OF assms(1-3) b(3) assms(6)] by blast
    show ?thesis
      unfolding g(1) prod.case Let_def if_not_P [OF False] using g(2) b by (auto simp: mmap_granted_def)
  qed
qed

theorem mmap_exact_witness:
  "let m = \<lparr>pg = example_paging, ram = (\<lambda>_. 7)\<rparr>
   in snd (sys_mmap 0 100 0 (example_mmap, m)) = int MMAP_BASE \<and>
      ram (snd (fst (sys_mmap 0 100 0 (example_mmap, m)))) (MMAP_BASE + 99) = 0"
proof -
  let ?m = "\<lparr>pg = example_paging, ram = (\<lambda>_. 7)\<rparr> :: machine"
  have n: "page_round 100 = 4096"
    by (simp add: page_round_def align_down_def wrap64_def)
  have res: "snd (sys_mmap 0 100 0 (example_mmap, ?m)) = int MMAP_BASE"
    by (simp add: sys_mmap_any n example_mmap_eq free_regions_take_def u64_max_def i64_mmap MMAP_BASE_def MMAP_LIMIT_def)
  have room: "\<not> (MMAP_LIMIT < mmap_next example_mmap + 4096 \<and> P)" for P
    by (simp add: example_mmap_eq MMAP_BASE_def MMAP_LIMIT_def)
  obtain s' m' where r: "sys_mmap 0 100 0 (example_mmap, ?m) = ((s', m'), int MMAP_BASE)"
    using res by (metis prod.collapse)
  have "kernel_paging example_layout (pg ?m)"
    by (simp add: kernel_paging.boot)
  from mmap_exact [OF example_layout_ok this example_mmap_reachable, of 100 0 0]
  have "\<forall>x\<in>{MMAP_BASE..<MMAP_BASE + 4096}. ram m' x = 0"
    unfolding r n Let_def prod.case if_not_P [OF room] by (auto simp: example_mmap_eq)
  then show ?thesis
    by (simp add: Let_def r)
qed

text \<open>
  C35: two ways in which a successful \<open>mmap\<close> gives the program memory that is not its own.  A length
  of zero, or one so large that its rounding wraps around, is granted: the address returned is
  not reserved and the state is unchanged.  Freeing a range twice is accepted, and the next two
  requests of that size are given the same address.
\<close>

theorem mmap_unreserved:
  assumes "mmap_reachable s live" and "len = 0 \<or> 2 ^ 64 \<le> len + 0xFFF \<and> len < 2 ^ 64" and "0 < n" and "4096 dvd n" and "MMAP_BASE + n \<le> MMAP_LIMIT"
  shows "(\<exists>a. sys_mmap 0 len flags (s, m) = ((s, m), int a) \<and> a \<notin> live) \<and>
    (let u1 = fst (sys_munmap MMAP_BASE n (fst (fst (sys_mmap 0 n flags (mmap_init, m)))));
         u2 = sys_munmap MMAP_BASE n u1;
         r1 = sys_mmap 0 n flags (fst u2, m);
         r2 = sys_mmap 0 n flags (fst r1)
     in snd (sys_mmap 0 n flags (mmap_init, m)) = int MMAP_BASE \<and> snd u2 = 0 \<and> snd r1 = int MMAP_BASE \<and> snd r2 = int MMAP_BASE)"
  using mmap_zero [OF assms(1,2)] mmap_freed_twice [OF assms(3-5)] by (simp add: Let_def)

theorem mmap_unreserved_witness:
  "(\<exists>a. sys_mmap 0 0 0 (mmap_init, \<lparr>pg = example_paging, ram = (\<lambda>_. 0)\<rparr>) = ((mmap_init, \<lparr>pg = example_paging, ram = (\<lambda>_. 0)\<rparr>), int a)) \<and>
   snd (sys_munmap MMAP_BASE 4096 (fst (sys_munmap MMAP_BASE 4096 (fst (fst (sys_mmap 0 4096 0 (mmap_init, \<lparr>pg = example_paging, ram = (\<lambda>_. 0)\<rparr>))))))) = 0"
  using mmap_unreserved [OF mmap_reachable.start, of 0 4096 0 "\<lparr>pg = example_paging, ram = (\<lambda>_. 0)\<rparr>"]
  by (auto simp: Let_def MMAP_BASE_def MMAP_LIMIT_def)

end
