(* ===== verification/Rtc.thy ===== *)
theory Rtc
  imports Prelude
begin

text \<open>
  The CMOS real-time clock (\<open>src/src/rtc_pure.rs\<close>, \<open>src/src/rtc.rs\<close>): decoding of the raw registers
  to Unix seconds, and the boot-time read that waits for the update flag and compares snapshots.
  The calendar arithmetic is related to a reference calendar that counts days one by one.
\<close>

unbundle bit_operations_syntax

section \<open>Decoding\<close>

record RawFields =
  rtc_sec :: u8
  rtc_min :: u8
  rtc_hour :: u8
  rtc_day :: u8
  rtc_mon :: u8
  rtc_year :: u8
  rtc_cent :: u8

definition dec_field :: "u8 \<Rightarrow> bool \<Rightarrow> nat" where
  "dec_field v is_bcd = (if is_bcd then unat (v AND 0x0F) + unat (drop_bit 4 v AND 0x0F) * 10 else unat v)"

definition is_leap :: "nat \<Rightarrow> bool" where
  "is_leap y \<longleftrightarrow> y mod 4 = 0 \<and> y mod 100 \<noteq> 0 \<or> y mod 400 = 0"

definition MDAYS :: "nat list" where
  "MDAYS = [31, 28, 31, 30, 31, 30, 31, 31, 30, 31, 30, 31]"

text \<open>The two loops of \<open>days_since_epoch\<close>; the second panics when it leaves the table of months.\<close>

function years_loop :: "nat \<Rightarrow> nat \<Rightarrow> nat \<Rightarrow> nat" where
  "years_loop y year days = (if y < year then years_loop (y + 1) year (days + (if is_leap y then 366 else 365)) else days)"
  by pat_completeness auto
termination
  by (relation "measure (\<lambda>(y, year, days). year - y)") auto

function months_loop :: "nat \<Rightarrow> nat \<Rightarrow> nat \<Rightarrow> nat \<Rightarrow> nat option" where
  "months_loop m month year days =
     (if m < month then
        if length MDAYS < m then None
        else months_loop (m + 1) month year (days + MDAYS ! (m - 1) + (if m = 2 \<and> is_leap year then 1 else 0))
      else Some days)"
  by pat_completeness auto
termination
  by (relation "measure (\<lambda>(m, month, year, days). month - m)") auto

declare years_loop.simps [simp del] months_loop.simps [simp del]

definition days_since_epoch :: "nat \<Rightarrow> nat \<Rightarrow> nat \<Rightarrow> nat option" where
  "days_since_epoch year month day =
     map_option (\<lambda>days. wrap64 (days + wrapping_sub day 1)) (months_loop 1 month year (years_loop 1970 year 0))"

text \<open>The outer \<open>None\<close> would be a panic, the inner one an implausible value.\<close>

definition rtc_decode :: "RawFields \<Rightarrow> u8 \<Rightarrow> nat option option" where
  "rtc_decode raw status_b =
     (let is_bcd = (status_b AND 0x04 = 0);
          is_12h = (status_b AND 0x02 = 0);
          sec = dec_field (rtc_sec raw) is_bcd;
          mins = dec_field (rtc_min raw) is_bcd;
          hour = (if is_12h
                  then (let pm = (rtc_hour raw AND 0x80 \<noteq> 0); h = dec_field (rtc_hour raw AND 0x7F) is_bcd
                        in if pm then h mod 12 + 12 else h mod 12)
                  else dec_field (rtc_hour raw) is_bcd);
          day = dec_field (rtc_day raw) is_bcd;
          mon = dec_field (rtc_mon raw) is_bcd;
          yy = dec_field (rtc_year raw) is_bcd;
          cent = dec_field (rtc_cent raw) is_bcd;
          year = (if 19 \<le> cent \<and> cent \<le> 21 then cent * 100 + yy else 2000 + yy)
      in if \<not> (1 \<le> mon \<and> mon \<le> 12) \<or> \<not> (1 \<le> day \<and> day \<le> 31) \<or> 23 < hour \<or> 59 < mins \<or> 60 < sec \<or>
            \<not> (2020 \<le> year \<and> year \<le> 2100)
         then Some None
         else map_option (\<lambda>days. Some (days * 86400 + hour * 3600 + mins * 60 + sec)) (days_since_epoch year mon day))"

section \<open>Reading the registers\<close>

text \<open>
  \<open>port n reg\<close> is the value the \<open>n\<close>-th read of the data port returns when register \<open>reg\<close> is selected;
  the reader's state is the number of reads so far.
\<close>

type_synonym cmos = "nat \<Rightarrow> nat \<Rightarrow> u8"

definition cmos_read :: "cmos \<Rightarrow> nat \<Rightarrow> nat \<Rightarrow> u8 \<times> nat" where
  "cmos_read port reg n = (port n reg, n + 1)"

partial_function (option) wait_update :: "cmos \<Rightarrow> nat \<Rightarrow> nat option" where
  "wait_update port n =
     (case cmos_read port 0x0A n of (a, n') \<Rightarrow> if a AND 0x80 \<noteq> 0 then wait_update port n' else Some n')"

definition read_raw :: "cmos \<Rightarrow> nat \<Rightarrow> RawFields \<times> nat" where
  "read_raw port n =
     (let (s, n) = cmos_read port 0x00 n; (mi, n) = cmos_read port 0x02 n; (h, n) = cmos_read port 0x04 n;
          (d, n) = cmos_read port 0x07 n; (mo, n) = cmos_read port 0x08 n; (y, n) = cmos_read port 0x09 n;
          (c, n) = cmos_read port 0x32 n
      in (\<lparr>rtc_sec = s, rtc_min = mi, rtc_hour = h, rtc_day = d, rtc_mon = mo, rtc_year = y, rtc_cent = c\<rparr>, n))"

definition snapshot :: "cmos \<Rightarrow> nat \<Rightarrow> (RawFields \<times> nat) option" where
  "snapshot port n = map_option (read_raw port) (wait_update port n)"

text \<open>The retry loop, at most \<open>k\<close> more times.\<close>

primrec settle :: "cmos \<Rightarrow> nat \<Rightarrow> RawFields \<Rightarrow> nat \<Rightarrow> (RawFields \<times> nat) option" where
  "settle port 0 lst n = Some (lst, n)"
| "settle port (Suc k) lst n =
     (case snapshot port n of
        None \<Rightarrow> None
      | Some (cur, n') \<Rightarrow> if cur = lst then Some (lst, n') else settle port k cur n')"

definition read_rtc_unix_secs :: "cmos \<Rightarrow> nat \<Rightarrow> nat option option option" where
  "read_rtc_unix_secs port n =
     (case snapshot port n of
        None \<Rightarrow> None
      | Some (lst, n1) \<Rightarrow> map_option (\<lambda>(raw, n2). rtc_decode raw (fst (cmos_read port 0x0B n2))) (settle port 10 lst n1))"

text \<open>With steady registers the first two snapshots agree; while the update flag is up nothing returns.\<close>

lemma wait_update_clear: "port n 0x0A AND 0x80 = 0 \<Longrightarrow> wait_update port n = Some (n + 1)"
  by (subst wait_update.simps) (simp add: cmos_read_def)

lemma wait_update_stuck:
  assumes "\<And>n. port n 0x0A AND 0x80 \<noteq> 0"
  shows "wait_update port n = None"
proof -
  have "port' \<noteq> port" if "wait_update port' n = Some r" for port' n r
  proof (rule wait_update.raw_induct [where P = "\<lambda>port' n r. port' \<noteq> port", OF _ that])
    fix f port' n r
    assume IH: "\<And>port' n r. f port' n = Some r \<Longrightarrow> port' \<noteq> port"
      and body: "(case cmos_read port' 0x0A n of (a, n') \<Rightarrow> if a AND 0x80 \<noteq> 0 then f port' n' else Some n') = Some r"
    show "port' \<noteq> port"
    proof
      assume p: "port' = port"
      then have "f port (n + 1) = Some r"
        using body assms [of n] by (simp add: cmos_read_def)
      then show False
        using IH by blast
    qed
  qed
  then show ?thesis
    by (cases "wait_update port n") auto
qed

lemma read_rtc_stuck: "(\<And>n. port n 0x0A AND 0x80 \<noteq> 0) \<Longrightarrow> read_rtc_unix_secs port n = None"
  by (simp add: read_rtc_unix_secs_def snapshot_def wait_update_stuck)

lemma read_rtc_steady:
  assumes "\<And>n r. port n r = regs r" "regs 0x0A AND 0x80 = 0"
  shows "read_rtc_unix_secs port n =
    Some (rtc_decode \<lparr>rtc_sec = regs 0x00, rtc_min = regs 0x02, rtc_hour = regs 0x04, rtc_day = regs 0x07,
                      rtc_mon = regs 0x08, rtc_year = regs 0x09, rtc_cent = regs 0x32\<rparr> (regs 0x0B))"
proof -
  have "\<exists>k. snapshot port n = Some (\<lparr>rtc_sec = regs 0x00, rtc_min = regs 0x02, rtc_hour = regs 0x04, rtc_day = regs 0x07,
                      rtc_mon = regs 0x08, rtc_year = regs 0x09, rtc_cent = regs 0x32\<rparr>, k)" for n
    using assms by (simp add: snapshot_def wait_update_clear read_raw_def cmos_read_def)
  then obtain k where s: "\<And>n. snapshot port n = Some (\<lparr>rtc_sec = regs 0x00, rtc_min = regs 0x02, rtc_hour = regs 0x04, rtc_day = regs 0x07,
                      rtc_mon = regs 0x08, rtc_year = regs 0x09, rtc_cent = regs 0x32\<rparr>, k n)"
    by metis
  have "settle port 10 lst n = Some (lst, k n)" if "snapshot port n = Some (lst, k n)" for lst n
    using that by (simp add: eval_nat_numeral)
  then show ?thesis
    using s by (simp add: read_rtc_unix_secs_def cmos_read_def assms(1))
qed

section \<open>The reference calendar\<close>

text \<open>
  The Gregorian calendar, stated without the definitions of the code: a century year is a leap year
  when 400 divides it, any other year when 4 does; April, June, September and November have 30 days.
\<close>

definition leap_year :: "nat \<Rightarrow> bool" where
  "leap_year y = (if 100 dvd y then 400 dvd y else 4 dvd y)"

definition month_len :: "nat \<Rightarrow> nat \<Rightarrow> nat" where
  "month_len y m = (if m = 2 then if leap_year y then 29 else 28 else if m \<in> {4, 6, 9, 11} then 30 else 31)"

type_synonym date = "nat \<times> nat \<times> nat"

definition valid_date :: "date \<Rightarrow> bool" where
  "valid_date = (\<lambda>(y, m, d). 1970 \<le> y \<and> 1 \<le> m \<and> m \<le> 12 \<and> 1 \<le> d \<and> d \<le> month_len y m)"

definition next_day :: "date \<Rightarrow> date" where
  "next_day = (\<lambda>(y, m, d). if d < month_len y m then (y, m, d + 1) else if m < 12 then (y, m + 1, 1) else (y + 1, 1, 1))"

definition nth_date :: "nat \<Rightarrow> date" where
  "nth_date n = (next_day ^^ n) (1970, 1, 1)"

definition day_no :: "date \<Rightarrow> nat" where
  "day_no = (\<lambda>(y, m, d). (\<Sum>k=1970..<y. if is_leap k then 366 else 365) + (\<Sum>k=1..<m. month_len y k) + (d - 1))"

lemma MDAYS_cases: "1 \<le> m \<Longrightarrow> m \<le> 12 \<Longrightarrow> m \<in> {1,2,3,4,5,6,7,8,9,10,11,12::nat}"
  by (simp only: insert_iff empty_iff) arith

text \<open>The leap rule and the month table of the code agree with the calendar.\<close>

lemma is_leap_year: "is_leap y = leap_year y"
  unfolding is_leap_def leap_year_def by presburger

lemma month_len_MDAYS:
  "1 \<le> m \<Longrightarrow> m \<le> 12 \<Longrightarrow> month_len y m = MDAYS ! (m - 1) + (if m = 2 \<and> is_leap y then 1 else 0)"
  by (frule (1) MDAYS_cases) (auto simp: month_len_def MDAYS_def is_leap_year)

lemma month_len_bounds: "28 \<le> month_len y m \<and> month_len y m \<le> 31"
  by (simp add: month_len_def)

lemma year_len: "(\<Sum>k=1..<12. month_len y k) + 31 = (if is_leap y then 366 else 365)"
  by (simp add: month_len_def is_leap_year sum.atLeastLessThan_Suc eval_nat_numeral)

lemma years_loop_sum: "years_loop y year days = days + (\<Sum>k=y..<year. if is_leap k then 366 else 365)"
proof (induction y year days rule: years_loop.induct)
  case (1 y year days)
  show ?case
    using 1 by (subst years_loop.simps) (simp add: sum.atLeast_Suc_lessThan)
qed

lemma months_loop_sum:
  "1 \<le> m \<Longrightarrow> month \<le> 12 \<Longrightarrow> months_loop m month year days = Some (days + (\<Sum>k=m..<month. month_len year k))"
proof (induction m month year days rule: months_loop.induct)
  case (1 m month year days)
  show ?case
  proof (cases "m < month")
    case True
    then have "length MDAYS \<ge> m"
      using "1.prems" by (simp add: MDAYS_def)
    then show ?thesis
      using 1 True by (subst months_loop.simps) (simp add: sum.atLeast_Suc_lessThan month_len_MDAYS not_less)
  next
    case False
    then show ?thesis
      by (subst months_loop.simps) simp
  qed
qed

lemma day_no_next: "valid_date x \<Longrightarrow> day_no (next_day x) = day_no x + 1"
proof -
  assume "valid_date x"
  obtain y m d where x: "x = (y, m, d)"
    by (cases x)
  then have v: "1970 \<le> y" "1 \<le> m" "m \<le> 12" "1 \<le> d" "d \<le> month_len y m"
    using \<open>valid_date x\<close> by (auto simp: valid_date_def)
  consider "d < month_len y m" | "d = month_len y m" "m < 12" | "d = month_len y m" "m = 12"
    using v by linarith
  then show ?thesis
  proof cases
    case 3
    have "month_len y 12 = 31"
      by (simp add: month_len_def)
    then show ?thesis
      using v 3 year_len [of y] by (simp add: x day_no_def next_day_def)
  qed (use v in \<open>auto simp: x day_no_def next_day_def\<close>)
qed

lemma previous_day:
  assumes "valid_date x" "x \<noteq> (1970, 1, 1)"
  shows "\<exists>w. valid_date w \<and> next_day w = x"
proof -
  obtain y m d where x: "x = (y, m, d)"
    by (cases x)
  then have v: "1970 \<le> y" "1 \<le> m" "m \<le> 12" "1 \<le> d" "d \<le> month_len y m"
    using assms(1) by (auto simp: valid_date_def)
  consider "1 < d" | "d = 1" "1 < m" | "d = 1" "m = 1" "1970 < y"
    using v assms(2) x by fastforce
  then show ?thesis
  proof cases
    case 1
    then show ?thesis
      using v by (intro exI [of _ "(y, m, d - 1)"]) (auto simp: x valid_date_def next_day_def)
  next
    case 2
    have "28 \<le> month_len y (m - 1)"
      using month_len_bounds [of y "m - 1"] by simp
    then show ?thesis
      using v 2 by (intro exI [of _ "(y, m - 1, month_len y (m - 1))"]) (auto simp: x valid_date_def next_day_def)
  next
    case 3
    have "month_len (y - 1) 12 = 31"
      by (simp add: month_len_def)
    then show ?thesis
      using v 3 by (intro exI [of _ "(y - 1, 12, 31)"]) (auto simp: x valid_date_def next_day_def)
  qed
qed

lemma day_no_epoch: "day_no (1970, 1, 1) = 0"
  by (simp add: day_no_def)

lemma nth_date_day_no: "valid_date x \<Longrightarrow> nth_date (day_no x) = x"
proof (induction "day_no x" arbitrary: x rule: less_induct)
  case less
  show ?case
  proof (cases "x = (1970, 1, 1)")
    case True
    then show ?thesis using day_no_epoch by (simp add: nth_date_def)
  next
    case False
    obtain w where w: "valid_date w" "next_day w = x"
      using previous_day [OF less.prems False] by blast
    have n: "day_no x = Suc (day_no w)"
      using day_no_next [OF w(1)] w(2) by simp
    have "nth_date (day_no w) = w"
      using less.hyps [OF _ w(1)] n by simp
    then show ?thesis
      by (simp add: n nth_date_def w(2))
  qed
qed

lemma days_since_epoch_day_no:
  assumes "1 \<le> m" "m \<le> 12" "1 \<le> d" "d \<le> 31" "y \<le> 2100"
  shows "days_since_epoch y m d = Some (day_no (y, m, d))" "day_no (y, m, d) < 48000"
proof -
  have "(\<Sum>k=1970..<y. if is_leap k then 366 else 365) \<le> (\<Sum>k=1970..<y. 366::nat)"
    by (rule sum_mono) simp
  then have 1: "(\<Sum>k=1970..<y. if is_leap k then 366 else 365) \<le> 366 * (130::nat)"
    using assms(5) by simp
  have "(\<Sum>k=1..<m. month_len y k) \<le> (\<Sum>k=1..<m. 31::nat)"
    by (rule sum_mono) (use month_len_bounds assms(2) in auto)
  also have "\<dots> \<le> 31 * 11"
    using assms(2) by simp
  finally show b: "day_no (y, m, d) < 48000"
    using 1 assms(4) by (simp add: day_no_def)
  have "wrapping_sub d 1 = d - 1"
    using assms(3,4) by (intro wrapping_sub_le) simp_all
  then show "days_since_epoch y m d = Some (day_no (y, m, d))"
    using b assms(1,2) unfolding days_since_epoch_def years_loop_sum
    by (simp add: months_loop_sum day_no_def)
qed

section \<open>Encoding of a time in the registers\<close>

text \<open>What the chip holds for a time, in the format that status register B selects.\<close>

definition enc_field :: "u8 \<Rightarrow> nat \<Rightarrow> u8" where
  "enc_field status_b n = of_nat (if status_b AND 0x04 = 0 then n div 10 * 16 + n mod 10 else n)"

definition enc_hour :: "u8 \<Rightarrow> nat \<Rightarrow> u8" where
  "enc_hour status_b h =
     (if status_b AND 0x02 = 0
      then enc_field status_b (if h mod 12 = 0 then 12 else h mod 12) OR (if 12 \<le> h then 0x80 else 0)
      else enc_field status_b h)"

definition rtc_encode :: "u8 \<Rightarrow> date \<Rightarrow> nat \<Rightarrow> nat \<Rightarrow> nat \<Rightarrow> RawFields" where
  "rtc_encode status_b = (\<lambda>(y, mo, d) h mi s.
     \<lparr>rtc_sec = enc_field status_b s, rtc_min = enc_field status_b mi, rtc_hour = enc_hour status_b h,
      rtc_day = enc_field status_b d, rtc_mon = enc_field status_b mo, rtc_year = enc_field status_b (y mod 100),
      rtc_cent = enc_field status_b (y div 100)\<rparr>)"

lemma dec_enc_field:
  assumes "n < 100"
  shows "dec_field (enc_field status_b n) (status_b AND 0x04 = 0) = n"
proof -
  have "list_all (\<lambda>n. dec_field (of_nat (n div 10 * 16 + n mod 10)) True = n \<and> dec_field (of_nat n) False = n) [0..<100]"
    by code_simp
  then show ?thesis
    using assms by (auto simp: list_all_iff enc_field_def)
qed

definition hour_of :: "u8 \<Rightarrow> u8 \<Rightarrow> nat" where
  "hour_of status_b v =
     (if status_b AND 0x02 = 0
      then (let pm = (v AND 0x80 \<noteq> 0); h = dec_field (v AND 0x7F) (status_b AND 0x04 = 0) in if pm then h mod 12 + 12 else h mod 12)
      else dec_field v (status_b AND 0x04 = 0))"

lemma dec_enc_hour:
  assumes "h < 24"
  shows "hour_of status_b (enc_hour status_b h) = h"
proof -
  have *: "list_all (\<lambda>h. hour_of 0 (enc_hour 0 h) = h \<and> hour_of 4 (enc_hour 4 h) = h) [0..<24]"
    by code_simp
  have e: "enc_hour status_b h = enc_hour (if status_b AND 0x04 = 0 then 0 else 4) h \<and>
     hour_of status_b = hour_of (if status_b AND 0x04 = 0 then 0 else 4)" if "status_b AND 0x02 = 0"
    using that by (auto simp: enc_hour_def enc_field_def hour_of_def)
  show ?thesis
  proof (cases "status_b AND 0x02 = 0")
    case True
    then show ?thesis
      using e * assms by (auto simp: list_all_iff)
  next
    case False
    then show ?thesis
      using dec_enc_field [of h status_b] assms by (simp add: enc_hour_def hour_of_def)
  qed
qed

definition year_of :: "nat \<Rightarrow> nat \<Rightarrow> nat" where
  "year_of cent yy = (if 19 \<le> cent \<and> cent \<le> 21 then cent * 100 + yy else 2000 + yy)"

lemma rtc_decode_fields:
  fixes raw status_b
  defines "dec \<equiv> \<lambda>v. dec_field v (status_b AND 0x04 = 0)"
  defines "year \<equiv> year_of (dec (rtc_cent raw)) (dec (rtc_year raw))"
  shows "rtc_decode raw status_b =
    (if 1 \<le> dec (rtc_mon raw) \<and> dec (rtc_mon raw) \<le> 12 \<and> 1 \<le> dec (rtc_day raw) \<and> dec (rtc_day raw) \<le> 31 \<and>
        hour_of status_b (rtc_hour raw) \<le> 23 \<and> dec (rtc_min raw) \<le> 59 \<and> dec (rtc_sec raw) \<le> 60 \<and> 2020 \<le> year \<and> year \<le> 2100
     then Some (Some (day_no (year, dec (rtc_mon raw), dec (rtc_day raw)) * 86400 +
            hour_of status_b (rtc_hour raw) * 3600 + dec (rtc_min raw) * 60 + dec (rtc_sec raw)))
     else Some None)"
proof (cases "1 \<le> dec (rtc_mon raw) \<and> dec (rtc_mon raw) \<le> 12 \<and> 1 \<le> dec (rtc_day raw) \<and> dec (rtc_day raw) \<le> 31 \<and>
        hour_of status_b (rtc_hour raw) \<le> 23 \<and> dec (rtc_min raw) \<le> 59 \<and> dec (rtc_sec raw) \<le> 60 \<and> 2020 \<le> year \<and> year \<le> 2100")
  case True
  then have "days_since_epoch year (dec (rtc_mon raw)) (dec (rtc_day raw)) =
      Some (day_no (year, dec (rtc_mon raw), dec (rtc_day raw)))"
    by (intro days_since_epoch_day_no(1)) auto
  then show ?thesis
    using True by (simp add: rtc_decode_def Let_def dec_def year_def year_of_def hour_of_def not_less not_le cong: if_cong)
next
  case False
  then show ?thesis
    unfolding if_not_P [OF False]
    by (simp add: rtc_decode_def Let_def dec_def year_def year_of_def hour_of_def not_less not_le cong: if_cong)
qed

lemma day_no_2020: "2020 \<le> y \<Longrightarrow> 18262 \<le> day_no (y, m, d)"
proof -
  assume "2020 \<le> y"
  then have "(\<Sum>k=1970..<2020. if is_leap k then 366 else 365) \<le> (\<Sum>k=1970..<y. if is_leap k then 366 else (365::nat))"
    by (intro sum_mono2) auto
  moreover have "years_loop 1970 2020 0 = 18262"
    by (simp add: years_loop.simps is_leap_def)
  ultimately show ?thesis
    by (simp add: day_no_def years_loop_sum)
qed

section \<open>Properties\<close>

text \<open>
  C36: decoding the clock.  For every valid date from 2020 to 2100 and every time of day (a leap
  second included), in each of the four register formats, decoding the registers gives
  the seconds since the epoch of the day that the Gregorian calendar, counting day by day from the
  first of January 1970, reaches after that number of days.  No register contents make it panic, and
  whatever is accepted has a year from 2020 to 2100, so the seconds are below \<open>2^33\<close>.
\<close>

theorem rtc_decode_exact:
  assumes "valid_date (y, mo, d)" and "2020 \<le> y" and "y \<le> 2100" and "h < 24" and "mi < 60" and "s \<le> 60"
  shows "(\<exists>n. nth_date n = (y, mo, d) \<and>
      rtc_decode (rtc_encode status_b (y, mo, d) h mi s) status_b = Some (Some (n * 86400 + h * 3600 + mi * 60 + s))) \<and>
    (\<exists>v. rtc_decode raw b = Some v) \<and> (rtc_decode raw b = Some (Some t) \<longrightarrow> 1577836800 \<le> t \<and> t < 2 ^ 33)"
proof (intro conjI impI)
  have v: "1 \<le> mo" "mo \<le> 12" "1 \<le> d" "d \<le> 31"
    using assms(1) month_len_bounds [of y mo] by (auto simp: valid_date_def)
  have "20 \<le> y div 100" "y div 100 \<le> 21"
    using div_le_mono [OF assms(2), of 100] div_le_mono [OF assms(3), of 100] by simp_all
  then have y: "year_of (y div 100) (y mod 100) = y"
    by (simp add: year_of_def)
  have f: "dec_field (enc_field status_b k) (status_b AND 4 = 0) = k" if "k < 100" for k
    by (rule dec_enc_field [OF that])
  have "rtc_decode (rtc_encode status_b (y, mo, d) h mi s) status_b =
      Some (Some (day_no (y, mo, d) * 86400 + h * 3600 + mi * 60 + s))"
    unfolding rtc_decode_fields rtc_encode_def prod.case RawFields.simps
    using assms(2-6) v y by (simp add: f dec_enc_hour)
  then show "\<exists>n. nth_date n = (y, mo, d) \<and>
      rtc_decode (rtc_encode status_b (y, mo, d) h mi s) status_b = Some (Some (n * 86400 + h * 3600 + mi * 60 + s))"
    using nth_date_day_no [OF assms(1)] by blast
  show "\<exists>v. rtc_decode raw b = Some v"
    by (simp add: rtc_decode_fields)
  let ?dec = "\<lambda>v. dec_field v (b AND 4 = 0)"
  let ?year = "year_of (?dec (rtc_cent raw)) (?dec (rtc_year raw))"
  assume "rtc_decode raw b = Some (Some t)"
  then have r: "1 \<le> ?dec (rtc_mon raw)" "?dec (rtc_mon raw) \<le> 12" "1 \<le> ?dec (rtc_day raw)" "?dec (rtc_day raw) \<le> 31"
      "hour_of b (rtc_hour raw) \<le> 23" "?dec (rtc_min raw) \<le> 59" "?dec (rtc_sec raw) \<le> 60" "2020 \<le> ?year" "?year \<le> 2100"
    and t: "t = day_no (?year, ?dec (rtc_mon raw), ?dec (rtc_day raw)) * 86400 +
            hour_of b (rtc_hour raw) * 3600 + ?dec (rtc_min raw) * 60 + ?dec (rtc_sec raw)"
    by (auto simp: rtc_decode_fields split: if_splits)
  show "1577836800 \<le> t" "t < 2 ^ 33"
    using day_no_2020 [OF r(8), of "?dec (rtc_mon raw)" "?dec (rtc_day raw)"] days_since_epoch_day_no(2) [OF r(1-4,9)] r(5-7)
    unfolding t by simp_all
qed

theorem rtc_decode_exact_witness:
  "\<exists>n. nth_date n = (2024, 2, 29) \<and> rtc_decode (rtc_encode 0 (2024, 2, 29) 12 34 56) 0 = Some (Some (n * 86400 + 45296))"
proof -
  have "valid_date (2024, 2, 29)"
    by (simp add: valid_date_def month_len_def leap_year_def)
  then show ?thesis
    using rtc_decode_exact [of 2024 2 29 12 34 56 0 _ 0] by (simp add: add.commute)
qed

end
