(* ===== verification/Clock.thy ===== *)
theory Clock
  imports Uaccess Rtc
begin

text \<open>
  Time (\<open>src/src/syscall.rs\<close>: the calibrated time-stamp counter, the wall-clock offset, the timer
  descriptor and \<open>clock_gettime\<close>; \<open>src/src/pvclock.rs\<close>: the paravirtual clock).  A reading of the
  time-stamp counter is an argument of the operation that makes it, together with the number of the
  CPU, on which the whole operation runs.  The page the hypervisor updates is a function of the number of reads made so far.
\<close>

unbundle bit_operations_syntax

section \<open>State\<close>

record clock =
  LAST_TIME_NS :: nat
  WALL_OFFSET_NS :: nat
  LAST_RETURNED_PER_CPU :: "nat list"
  TSC_FREQ_HZ :: nat
  TSC_OFFSETS :: "int list"
  TIMERFD_DEADLINE_NS :: nat
  AVAILABLE :: bool
  WALL_BASE_NS :: nat

definition clock_init :: clock where
  "clock_init = \<lparr>LAST_TIME_NS = 0, WALL_OFFSET_NS = 0, LAST_RETURNED_PER_CPU = replicate 16 0,
     TSC_FREQ_HZ = 2000000000, TSC_OFFSETS = replicate 16 0, TIMERFD_DEADLINE_NS = 0, AVAILABLE = False, WALL_BASE_NS = 0\<rparr>"

section \<open>The time-stamp counter\<close>

text \<open>The ticks counted while the interval timer ran for 11932 of its periods.\<close>

definition calibrate_tsc :: "nat \<Rightarrow> nat \<Rightarrow> clock \<Rightarrow> clock" where
  "calibrate_tsc tsc_start tsc_end c =
     c\<lparr>TSC_FREQ_HZ := wrap64 (wrapping_sub tsc_end tsc_start * 1193182) div 11932\<rparr>"

text \<open>
  The three rounds of the offset measurement, each with the counter of the boot CPU and the one the
  other CPU published; the median is stored, and a CPU number beyond the table panics.
\<close>

definition measure_tsc_offset :: "nat \<Rightarrow> (nat \<times> nat) list \<Rightarrow> clock \<Rightarrow> clock option" where
  "measure_tsc_offset cpu_id rounds c =
     (let offsets = sort (map (\<lambda>(bsp, ap). i64_of (i64_of (int bsp) - i64_of (int ap))) rounds) in
      if length (TSC_OFFSETS c) \<le> cpu_id then None
      else Some (c\<lparr>TSC_OFFSETS := (TSC_OFFSETS c)[cpu_id := offsets ! 1]\<rparr>))"

definition corrected_tsc :: "nat \<Rightarrow> nat \<Rightarrow> clock \<Rightarrow> nat" where
  "corrected_tsc cpu raw_tsc c =
     nat ((int raw_tsc + (if cpu < 16 then TSC_OFFSETS c ! cpu else 0)) mod 2 ^ 64)"

definition tsc_to_ns :: "nat \<Rightarrow> clock \<Rightarrow> nat" where
  "tsc_to_ns tsc c =
     (let freq_mhz = TSC_FREQ_HZ c div 1000000 in if 0 < freq_mhz then wrap64 (tsc * 1000) div freq_mhz else tsc div 2)"

definition monotonic_ns :: "nat \<Rightarrow> nat \<Rightarrow> clock \<Rightarrow> clock \<times> nat" where
  "monotonic_ns cpu raw_tsc c =
     (let total_ns = tsc_to_ns (corrected_tsc cpu raw_tsc c) c;
          result = max (LAST_TIME_NS c) total_ns;
          c1 = c\<lparr>LAST_TIME_NS := result\<rparr>
      in (if cpu < 16
          then c1\<lparr>LAST_RETURNED_PER_CPU := (LAST_RETURNED_PER_CPU c1)[cpu := max (LAST_RETURNED_PER_CPU c1 ! cpu) result]\<rparr>
          else c1, result))"

section \<open>The paravirtual clock\<close>

record VcpuTimeInfo =
  pv_version :: nat
  pv_tsc_timestamp :: nat
  pv_system_time :: nat
  pv_tsc_to_system_mul :: nat
  pv_tsc_shift :: int
  pv_flags :: u8

definition SEQLOCK_MAX_SPINS :: nat where "SEQLOCK_MAX_SPINS = 4096"

text \<open>Shift amounts are taken modulo the width, as a release build does.\<close>

definition scale_delta :: "nat \<Rightarrow> nat \<Rightarrow> int \<Rightarrow> nat" where
  "scale_delta delta mul shift =
     (let d = (if shift < 0 then delta div 2 ^ (nat (- shift) mod 64) else wrap64 (delta * 2 ^ (nat shift mod 64)))
      in wrap64 (d * mul div 2 ^ 32))"

text \<open>The wall-clock page: version, seconds and nanoseconds at the \<open>n\<close>-th read.\<close>

primrec read_wall_ns :: "nat \<Rightarrow> (nat \<Rightarrow> nat \<times> nat \<times> nat) \<Rightarrow> nat \<Rightarrow> nat" where
  "read_wall_ns 0 page n = 0"
| "read_wall_ns (Suc k) page n =
     (let v1 = fst (page n) in
      if odd v1 then read_wall_ns k page (n + 1)
      else
        (let sec = fst (snd (page (n + 1))); nsec = snd (snd (page (n + 2))); v2 = fst (page (n + 3)) in
         if v1 = v2 then sec * 1000000000 + nsec else read_wall_ns k page (n + 4)))"

primrec pvclock_read :: "nat \<Rightarrow> (nat \<Rightarrow> VcpuTimeInfo) \<Rightarrow> nat \<Rightarrow> nat \<Rightarrow> nat \<Rightarrow> nat option" where
  "pvclock_read 0 page base tsc n = None"
| "pvclock_read (Suc k) page base tsc n =
     (let v1 = pv_version (page n) in
      if odd v1 then pvclock_read k page base tsc (n + 1)
      else
        (let tsc_ts = pv_tsc_timestamp (page (n + 1));
             sys = pv_system_time (page (n + 2));
             mul = pv_tsc_to_system_mul (page (n + 3));
             shift = pv_tsc_shift (page (n + 4));
             v2 = pv_version (page (n + 5))
         in if v1 = v2 then Some (wrap64 (base + sys + scale_delta (wrapping_sub tsc tsc_ts) mul shift))
            else pvclock_read k page base tsc (n + 6)))"

definition pvclock_realtime_ns :: "(nat \<Rightarrow> VcpuTimeInfo) \<Rightarrow> nat \<Rightarrow> clock \<Rightarrow> nat option" where
  "pvclock_realtime_ns page tsc c =
     (if \<not> AVAILABLE c then None else pvclock_read SEQLOCK_MAX_SPINS page (WALL_BASE_NS c) tsc 0)"

definition has_clocksource2 :: "(nat \<Rightarrow> nat \<times> nat \<times> nat \<times> nat) \<Rightarrow> bool" where
  "has_clocksource2 cpuid =
     (case cpuid 0x40000000 of (_, ebx, ecx, edx) \<Rightarrow>
        if ebx \<noteq> 0x4b4d564b \<or> ecx \<noteq> 0x564b4d56 \<or> edx \<noteq> 0x4d then False
        else bit (fst (cpuid 0x40000001)) 3)"

text \<open>\<open>init\<close>: the flags the page shows once it is registered decide whether it is used.\<close>

definition pvclock_init :: "(nat \<Rightarrow> nat \<times> nat \<times> nat \<times> nat) \<Rightarrow> u8 \<Rightarrow> (nat \<Rightarrow> nat \<times> nat \<times> nat) \<Rightarrow> clock \<Rightarrow> clock" where
  "pvclock_init cpuid flags wall c =
     (if \<not> has_clocksource2 cpuid then c
      else if flags AND 1 = 0 then c
      else c\<lparr>WALL_BASE_NS := read_wall_ns SEQLOCK_MAX_SPINS wall 0, AVAILABLE := True\<rparr>)"

section \<open>Wall-clock time\<close>

definition seed_wall_clock :: "nat option \<Rightarrow> nat \<Rightarrow> nat \<Rightarrow> clock \<Rightarrow> clock" where
  "seed_wall_clock rtc cpu raw_tsc c =
     (case rtc of
        None \<Rightarrow> c
      | Some secs \<Rightarrow>
          (case monotonic_ns cpu raw_tsc c of (c1, up) \<Rightarrow>
             c1\<lparr>WALL_OFFSET_NS := saturating_sub (saturating_mul secs 1000000000) up\<rparr>))"

definition realtime_ns :: "(nat \<Rightarrow> VcpuTimeInfo) \<Rightarrow> nat \<Rightarrow> nat \<Rightarrow> nat \<Rightarrow> clock \<Rightarrow> clock \<times> nat" where
  "realtime_ns page cpu raw1 raw2 c =
     (case pvclock_realtime_ns page (corrected_tsc cpu raw1 c) c of
        Some ns \<Rightarrow> (c, ns)
      | None \<Rightarrow> (case monotonic_ns cpu raw2 c of (c1, up) \<Rightarrow> (c1, wrap64 (up + WALL_OFFSET_NS c1))))"

section \<open>System calls\<close>

text \<open>The value pair \<open>tv_sec\<close>, \<open>tv_nsec\<close> in user memory.\<close>

definition timespec :: "nat \<Rightarrow> bytes" where
  "timespec ns = le_bytes 8 (ns div 1000000000) @ le_bytes 8 (ns mod 1000000000)"

definition sys_clock_gettime ::
  "(nat \<Rightarrow> VcpuTimeInfo) \<Rightarrow> nat \<Rightarrow> nat \<Rightarrow> nat \<Rightarrow> int \<Rightarrow> nat \<Rightarrow> clock \<times> machine \<Rightarrow> (clock \<times> machine) \<times> int" where
  "sys_clock_gettime page cpu raw1 raw2 clk_id tp = (\<lambda>(c, m).
     (if tp = 0 then ((c, m), -22)
      else (case (if clk_id = 0 \<or> clk_id = 5 then realtime_ns page cpu raw1 raw2 c else monotonic_ns cpu raw1 c) of
              (c1, ns) \<Rightarrow>
                (case with_user_access m tp 16 (\<lambda>r. ((), mem_write r tp (timespec ns))) of
                   (Inr _, m1) \<Rightarrow> ((c1, m1), 0)
                 | (Inl e, m1) \<Rightarrow> ((c1, m1), e)))))"

definition sys_clock_getres :: "nat \<Rightarrow> machine \<Rightarrow> machine \<times> int" where
  "sys_clock_getres res m =
     (if res = 0 then (m, 0)
      else (case with_user_access m res 16 (\<lambda>r. ((), mem_write r res (le_bytes 8 0 @ le_bytes 8 1))) of
              (Inr _, m1) \<Rightarrow> (m1, 0)
            | (Inl e, m1) \<Rightarrow> (m1, e)))"

text \<open>\<open>gettimeofday\<close> stores through the plain pointer; \<open>None\<close> is a page fault of the kernel.\<close>

definition sys_gettimeofday ::
  "(nat \<Rightarrow> VcpuTimeInfo) \<Rightarrow> nat \<Rightarrow> nat \<Rightarrow> nat \<Rightarrow> nat \<Rightarrow> clock \<times> machine \<Rightarrow> ((clock \<times> machine) \<times> int) option" where
  "sys_gettimeofday page cpu raw1 raw2 tv = (\<lambda>(c, m).
     (if tv = 0 then Some ((c, m), 0)
      else (case realtime_ns page cpu raw1 raw2 c of (c1, ns) \<Rightarrow>
              map_option (\<lambda>m'. ((c1, m'), 0))
                (kernel_store m tv (le_bytes 8 (ns div 1000000000) @ le_bytes 8 (ns div 1000 mod 1000000))))))"

definition sys_getrusage :: "nat \<Rightarrow> nat \<Rightarrow> nat \<Rightarrow> clock \<times> machine \<Rightarrow> (clock \<times> machine) \<times> int" where
  "sys_getrusage cpu raw_tsc usage = (\<lambda>(c, m).
     (if usage = 0 then ((c, m), 0)
      else (case monotonic_ns cpu raw_tsc c of (c1, ns) \<Rightarrow>
              (case copy_to_user m usage (le_bytes 8 (ns div 1000000000) @ le_bytes 8 (ns div 1000 mod 1000000) @ replicate 128 0) of
                 Inr m1 \<Rightarrow> ((c1, m1), 0)
               | Inl _ \<Rightarrow> ((c1, m), 0)))))"

definition timespec_ns :: "bytes \<Rightarrow> nat" where
  "timespec_ns ts = saturating_add (saturating_mul (le_nat (take 8 ts)) 1000000000) (le_nat (take 8 (drop 8 ts)))"

definition TFD_TIMER_ABSTIME :: int where "TFD_TIMER_ABSTIME = 1"

text \<open>
  The deadline is shared without a lock.  \<open>settime\<close> only stores it, once, at the end of the call;
  \<open>timerfd_consume\<close> loads it, reads the clock and then stores zero, and calls of other CPUs may
  come between its load and its store, so the two parts are separate operations.
\<close>

definition sys_timerfd_settime :: "nat \<Rightarrow> nat \<Rightarrow> int \<Rightarrow> nat \<Rightarrow> machine \<Rightarrow> clock \<Rightarrow> clock \<times> int" where
  "sys_timerfd_settime cpu raw_tsc flags ptr m c =
     (if ptr = 0 then (c\<lparr>TIMERFD_DEADLINE_NS := 0\<rparr>, 0)
      else (case copy_from_user m 32 ptr of
              Inl _ \<Rightarrow> (c, -14)
            | Inr its \<Rightarrow>
                (let v = drop 16 its in
                 if le_nat (take 8 v) = 0 \<and> le_nat (take 8 (drop 8 v)) = 0 then (c\<lparr>TIMERFD_DEADLINE_NS := 0\<rparr>, 0)
                 else if flags AND TFD_TIMER_ABSTIME \<noteq> 0 then (c\<lparr>TIMERFD_DEADLINE_NS := timespec_ns v\<rparr>, 0)
                 else (case monotonic_ns cpu raw_tsc c of (c1, now) \<Rightarrow>
                         (c1\<lparr>TIMERFD_DEADLINE_NS := saturating_add now (timespec_ns v)\<rparr>, 0)))))"

text \<open>The clock is read only when the timer is armed (\<open>&&\<close> is lazy).\<close>

definition timerfd_ready :: "nat \<Rightarrow> nat \<Rightarrow> clock \<Rightarrow> clock \<times> bool" where
  "timerfd_ready cpu raw_tsc c =
     (if TIMERFD_DEADLINE_NS c = 0 then (c, False)
      else (case monotonic_ns cpu raw_tsc c of (c1, now) \<Rightarrow> (c1, TIMERFD_DEADLINE_NS c \<le> now)))"

definition consume_load :: "clock \<Rightarrow> nat" where
  "consume_load c = TIMERFD_DEADLINE_NS c"

definition consume_finish :: "nat \<Rightarrow> nat \<Rightarrow> nat \<Rightarrow> clock \<Rightarrow> clock \<times> nat" where
  "consume_finish cpu raw_tsc deadline c =
     (if deadline = 0 then (c, 0)
      else (case monotonic_ns cpu raw_tsc c of (c1, now) \<Rightarrow>
              if deadline \<le> now then (c1\<lparr>TIMERFD_DEADLINE_NS := 0\<rparr>, 1) else (c1, 0)))"

text \<open>The call when no other call comes between.\<close>

definition timerfd_consume :: "nat \<Rightarrow> nat \<Rightarrow> clock \<Rightarrow> clock \<times> nat" where
  "timerfd_consume cpu raw_tsc c = consume_finish cpu raw_tsc (consume_load c) c"

end
