(* ===== verification/Clock_Properties.thy ===== *)
theory Clock_Properties
  imports Clock
begin

text \<open>
  Properties of the clocks: the monotonic clock never goes back on any CPU and is exact until the
  product in its conversion wraps around, where it stops; a reading of the paravirtual clock is the
  time of one update of the hypervisor's page, never a mixture; the timer descriptor fires at or after
  its deadline, and once unless two reads of it overlap.
\<close>

unbundle bit_operations_syntax

section \<open>The monotonic clock\<close>

text \<open>A sequence of readings, each by some CPU with the value of its counter.\<close>

primrec clock_run :: "(nat \<times> nat) list \<Rightarrow> clock \<Rightarrow> clock \<times> nat list" where
  "clock_run [] c = (c, [])"
| "clock_run (r # rs) c =
     (case monotonic_ns (fst r) (snd r) c of (c1, t) \<Rightarrow> (case clock_run rs c1 of (c2, ts) \<Rightarrow> (c2, t # ts)))"

lemma monotonic_ns_result: "snd (monotonic_ns cpu raw c) = max (LAST_TIME_NS c) (tsc_to_ns (corrected_tsc cpu raw c) c)"
  by (simp add: monotonic_ns_def Let_def)

lemma monotonic_ns_fields:
  "LAST_TIME_NS (fst (monotonic_ns cpu raw c)) = snd (monotonic_ns cpu raw c)"
  "TSC_FREQ_HZ (fst (monotonic_ns cpu raw c)) = TSC_FREQ_HZ c"
  "TSC_OFFSETS (fst (monotonic_ns cpu raw c)) = TSC_OFFSETS c"
  "TIMERFD_DEADLINE_NS (fst (monotonic_ns cpu raw c)) = TIMERFD_DEADLINE_NS c"
  "AVAILABLE (fst (monotonic_ns cpu raw c)) = AVAILABLE c"
  "WALL_OFFSET_NS (fst (monotonic_ns cpu raw c)) = WALL_OFFSET_NS c"
  by (simp_all add: monotonic_ns_def Let_def)

lemma clock_run_sorted:
  "sorted (LAST_TIME_NS c # snd (clock_run rs c)) \<and> length (snd (clock_run rs c)) = length rs"
proof (induction rs arbitrary: c)
  case Nil
  then show ?case by simp
next
  case (Cons r rs)
  obtain c1 t where t: "monotonic_ns (fst r) (snd r) c = (c1, t)"
    by fastforce
  obtain c2 ts where ts: "clock_run rs c1 = (c2, ts)"
    by fastforce
  have "LAST_TIME_NS c1 = t" "LAST_TIME_NS c \<le> t"
    using monotonic_ns_fields(1) [of "fst r" "snd r" c] monotonic_ns_result [of "fst r" "snd r" c] by (simp_all add: t)
  then show ?case
    using Cons.IH [of c1] by (auto simp: t ts)
qed

lemma tsc_to_ns_exact:
  "tsc * 1000 < 2 ^ 64 \<Longrightarrow> 1000000 \<le> TSC_FREQ_HZ c \<Longrightarrow> tsc_to_ns tsc c = tsc * 1000 div (TSC_FREQ_HZ c div 1000000)"
  by (simp add: tsc_to_ns_def Let_def div_greater_zero_iff)

section \<open>Properties\<close>

text \<open>
  C37: readings of the monotonic clock by any CPUs, with any values of their counters, never decrease.
  A reading is the corrected counter converted at the calibrated rate as long as the product of the
  conversion fits in 64 bits and no larger value was returned before.  Once the product has wrapped
  around, the clock stands still: it returns the last value until the wrapped product has caught up.
\<close>

theorem clock_monotone:
  fixes c :: clock and cpu raw :: nat
  defines "mhz \<equiv> TSC_FREQ_HZ c div 1000000"
  defines "tsc \<equiv> corrected_tsc cpu raw c"
  assumes "1000000 \<le> TSC_FREQ_HZ c"
  shows "sorted (LAST_TIME_NS c # snd (clock_run rs c)) \<and>
    (tsc * 1000 < 2 ^ 64 \<and> LAST_TIME_NS c \<le> tsc * 1000 div mhz \<longrightarrow> snd (monotonic_ns cpu raw c) = tsc * 1000 div mhz) \<and>
    (2 ^ 64 \<le> tsc * 1000 \<and> tsc * 1000 < 2 ^ 64 + LAST_TIME_NS c * mhz \<and> tsc * 1000 < 2 * 2 ^ 64 \<longrightarrow>
       snd (monotonic_ns cpu raw c) = LAST_TIME_NS c)"
proof (intro conjI impI)
  show "sorted (LAST_TIME_NS c # snd (clock_run rs c))"
    using clock_run_sorted by blast
next
  assume "tsc * 1000 < 2 ^ 64 \<and> LAST_TIME_NS c \<le> tsc * 1000 div mhz"
  then show "snd (monotonic_ns cpu raw c) = tsc * 1000 div mhz"
    using tsc_to_ns_exact [of tsc c] assms(3) by (simp add: monotonic_ns_result tsc_def mhz_def)
next
  assume w: "2 ^ 64 \<le> tsc * 1000 \<and> tsc * 1000 < 2 ^ 64 + LAST_TIME_NS c * mhz \<and> tsc * 1000 < 2 * 2 ^ 64"
  have m: "0 < mhz"
    using assms(3) by (simp add: mhz_def div_greater_zero_iff)
  have "wrap64 (tsc * 1000) = tsc * 1000 - 2 ^ 64"
    using w by (intro wrap64_once) simp_all
  then have "wrap64 (tsc * 1000) < LAST_TIME_NS c * mhz"
    using w by linarith
  then have "wrap64 (tsc * 1000) div mhz < LAST_TIME_NS c"
    using m by (simp add: div_less_iff_less_mult)
  then show "snd (monotonic_ns cpu raw c) = LAST_TIME_NS c"
    using m by (simp add: monotonic_ns_result tsc_to_ns_def Let_def tsc_def mhz_def)
qed

theorem clock_monotone_witness:
  "sorted (snd (clock_run [(0, 4000000), (1, 3000000), (0, 5000000)] clock_init)) \<and>
   snd (monotonic_ns 0 4000000 clock_init) = 2000000 \<and>
   snd (monotonic_ns 0 (2 ^ 64 div 1000 + 1) (clock_init\<lparr>LAST_TIME_NS := 9223372036854775\<rparr>)) = 9223372036854775"
proof -
  have t: "corrected_tsc 0 4000000 clock_init = 4000000"
    "corrected_tsc 0 (2 ^ 64 div 1000 + 1) (clock_init\<lparr>LAST_TIME_NS := 9223372036854775\<rparr>) = 2 ^ 64 div 1000 + 1"
    by (simp_all add: corrected_tsc_def clock_init_def nat_mod_distrib)
  show ?thesis
    using clock_monotone [where c = clock_init and cpu = 0 and raw = 4000000 and rs = "[(0, 4000000), (1, 3000000), (0, 5000000)]"]
      clock_monotone [where c = "clock_init\<lparr>LAST_TIME_NS := 9223372036854775\<rparr>" and cpu = 0 and raw = "2 ^ 64 div 1000 + 1" and rs = "[]"]
    unfolding t by (simp add: clock_init_def)
qed

text \<open>
  The hypervisor's protocol for the page: while the version is even and unchanged, so are the fields.
\<close>

definition seqlocked :: "(nat \<Rightarrow> VcpuTimeInfo) \<Rightarrow> bool" where
  "seqlocked page \<longleftrightarrow>
     (\<forall>i j k. i \<le> k \<and> k \<le> j \<and> pv_version (page i) = pv_version (page j) \<and> even (pv_version (page i)) \<longrightarrow> page k = page i)"

text \<open>
  The reads of the page are numbered; attempt \<open>j\<close> of a reading begins at read \<open>attempt_at page 0 j\<close>: an
  attempt that finds an odd version makes one read, any other makes six.  It is undisturbed when the
  version is even and the same at its end.
\<close>

primrec attempt_at :: "(nat \<Rightarrow> VcpuTimeInfo) \<Rightarrow> nat \<Rightarrow> nat \<Rightarrow> nat" where
  "attempt_at page n 0 = n"
| "attempt_at page n (Suc j) = attempt_at page (if odd (pv_version (page n)) then n + 1 else n + 6) j"

definition undisturbed :: "(nat \<Rightarrow> VcpuTimeInfo) \<Rightarrow> nat \<Rightarrow> bool" where
  "undisturbed page i \<longleftrightarrow> even (pv_version (page i)) \<and> pv_version (page (i + 5)) = pv_version (page i)"

text \<open>The time that one update of the page defines.\<close>

definition page_time :: "nat \<Rightarrow> nat \<Rightarrow> VcpuTimeInfo \<Rightarrow> nat" where
  "page_time base tsc v =
     wrap64 (base + pv_system_time v +
       scale_delta (wrapping_sub tsc (pv_tsc_timestamp v)) (pv_tsc_to_system_mul v) (pv_tsc_shift v))"

lemma find_map: "find P (map g xs) = map_option g (find (\<lambda>x. P (g x)) xs)"
  by (induction xs) simp_all

lemma pvclock_read_find:
  assumes "seqlocked page"
  shows "pvclock_read k page base tsc n =
    map_option (\<lambda>j. page_time base tsc (page (attempt_at page n j))) (find (\<lambda>j. undisturbed page (attempt_at page n j)) [0..<k])"
proof (induction k arbitrary: n)
  case 0
  then show ?case by simp
next
  case (Suc k)
  have upt: "[0..<Suc k] = 0 # map Suc [0..<k]"
    by (simp add: upt_conv_Cons map_Suc_upt del: upt_Suc)
  show ?case
  proof (cases "undisturbed page n")
    case True
    have same: "page (n + i) = page n" if "i \<le> 5" for i
      using assms True that unfolding seqlocked_def undisturbed_def by (metis le_add1 nat_add_left_cancel_le)
    have "page (n + 1) = page n" "page (n + 2) = page n" "page (n + 3) = page n" "page (n + 4) = page n" "page (n + 5) = page n"
      by (rule same, simp)+
    then have "pvclock_read (Suc k) page base tsc n = Some (page_time base tsc (page n))"
      using True unfolding pvclock_read.simps Let_def page_time_def undisturbed_def by simp
    then show ?thesis
      unfolding upt using True by simp
  next
    case False
    then have "pvclock_read (Suc k) page base tsc n =
        pvclock_read k page base tsc (if odd (pv_version (page n)) then n + 1 else n + 6)"
      unfolding pvclock_read.simps Let_def undisturbed_def by auto
    then show ?thesis
      unfolding upt Suc.IH using False by (simp add: find_map option.map_comp comp_def del: upt_Suc)
  qed
qed

text \<open>
  C38: the paravirtual clock.  Under the hypervisor's protocol (fields of the page are unchanged while
  its version is even and unchanged) a reading is the time that the update seen by its first
  undisturbed attempt defines, never a mixture of two updates, although the fields are read one by
  one while the page may change.  A disturbed attempt is followed by the next one; the reading ends
  after at most 4096 attempts and gives no time exactly when all of them are disturbed.
\<close>

theorem pvclock_consistent:
  assumes "seqlocked page" and "AVAILABLE c"
  shows "pvclock_realtime_ns page tsc c =
    map_option (\<lambda>j. page_time (WALL_BASE_NS c) tsc (page (attempt_at page 0 j)))
      (find (\<lambda>j. undisturbed page (attempt_at page 0 j)) [0..<4096])"
  using pvclock_read_find [OF assms(1)] assms(2) by (simp add: pvclock_realtime_ns_def SEQLOCK_MAX_SPINS_def del: upt_rec_numeral)

definition example_page :: "nat \<Rightarrow> VcpuTimeInfo" where
  "example_page v = \<lparr>pv_version = v, pv_tsc_timestamp = 1000 * v, pv_system_time = 5000, pv_tsc_to_system_mul = 2 ^ 31,
     pv_tsc_shift = 0, pv_flags = 1\<rparr>"

text \<open>The hypervisor updates the page from version 2 to 4 while it is first read.\<close>

theorem pvclock_consistent_witness:
  "pvclock_realtime_ns (\<lambda>i. example_page (if i < 3 then 2 else 4)) 6000 (clock_init\<lparr>AVAILABLE := True\<rparr>) = Some 6000"
proof -
  let ?p = "\<lambda>i::nat. example_page (if i < 3 then 2 else 4)"
  have "seqlocked ?p"
    by (auto simp: seqlocked_def example_page_def split: if_splits)
  moreover have "[0..<4096] = 0 # 1 # [Suc 1..<4096]"
    using upt_conv_Cons [of 0 4096] upt_conv_Cons [of 1 4096] by (simp del: upt_rec_numeral)
  moreover have "\<not> undisturbed ?p (attempt_at ?p 0 0)" "undisturbed ?p (attempt_at ?p 0 1)"
    by (simp_all add: undisturbed_def example_page_def)
  ultimately have "pvclock_realtime_ns ?p 6000 (clock_init\<lparr>AVAILABLE := True\<rparr>) =
      Some (page_time (WALL_BASE_NS (clock_init\<lparr>AVAILABLE := True\<rparr>)) 6000 (?p (attempt_at ?p 0 1)))"
    using pvclock_consistent [of ?p "clock_init\<lparr>AVAILABLE := True\<rparr>" 6000]
    by (simp del: upt_rec_numeral attempt_at.simps One_nat_def)
  then show ?thesis
    by (simp add: page_time_def example_page_def clock_init_def scale_delta_def wrapping_sub_le)
qed

text \<open>
  C39: the timer descriptor.  Arming it with a relative time of a nanosecond or more that can be read
  sets the deadline to the clock's reading at that moment plus the duration (at most \<open>2^64 - 1\<close>).  A
  read of the descriptor that no other call interrupts reports an expiration exactly when the clock
  has reached the deadline, and disarms the timer, so that no further read reports one before it
  is armed again; until then it stays armed.  Reads that overlap are not exclusive: two that load the
  deadline before either stores both report the one expiration, and a read that loaded an expired
  deadline disarms whatever deadline has been set since.
\<close>

theorem timerfd_exact:
  assumes "copy_from_user m 32 ptr = Inr its" and "ptr \<noteq> 0" and "timespec_ns (drop 16 its) \<noteq> 0" and "flags AND TFD_TIMER_ABSTIME = 0"
  shows "case sys_timerfd_settime cpu raw flags ptr m c of (c1, res) \<Rightarrow>
     res = 0 \<and> TIMERFD_DEADLINE_NS c1 = saturating_add (snd (monotonic_ns cpu raw c)) (timespec_ns (drop 16 its)) \<and>
     (case timerfd_consume cpu' raw' c1 of (c2, n) \<Rightarrow>
        (if TIMERFD_DEADLINE_NS c1 \<le> snd (monotonic_ns cpu' raw' c1)
         then n = 1 \<and> TIMERFD_DEADLINE_NS c2 = 0 \<and> snd (timerfd_consume cpu'' raw'' c2) = 0 \<and>
              snd (consume_finish cpu'' raw'' (consume_load c1) c2) = 1 \<and>
              TIMERFD_DEADLINE_NS (fst (consume_finish cpu'' raw'' (consume_load c1) (c2\<lparr>TIMERFD_DEADLINE_NS := later\<rparr>))) = 0
         else n = 0 \<and> TIMERFD_DEADLINE_NS c2 = TIMERFD_DEADLINE_NS c1))"
proof -
  obtain c0 now where now: "monotonic_ns cpu raw c = (c0, now)"
    by fastforce
  let ?d = "saturating_add now (timespec_ns (drop 16 its))"
  let ?c1 = "c0\<lparr>TIMERFD_DEADLINE_NS := ?d\<rparr>"
  have v: "\<not> (le_nat (take 8 (drop 16 its)) = 0 \<and> le_nat (take 8 (drop 8 (drop 16 its))) = 0)"
    using assms(3) by (auto simp: timespec_ns_def saturating_add_def saturating_mul_def)
  then have set: "sys_timerfd_settime cpu raw flags ptr m c = (?c1, 0)"
    unfolding sys_timerfd_settime_def using assms now by (auto simp: Let_def)
  have d: "?d \<noteq> 0"
    using assms(3) by (simp add: saturating_add_def u64_max_def)
  obtain c2 now' where now': "monotonic_ns cpu' raw' ?c1 = (c2, now')"
    by fastforce
  have c2: "TIMERFD_DEADLINE_NS c2 = ?d" "LAST_TIME_NS c2 = now'"
    using monotonic_ns_fields(1,4) [of cpu' raw' ?c1] by (simp_all add: now')
  have again: "consume_finish cpu'' raw'' ?d (c2\<lparr>TIMERFD_DEADLINE_NS := e\<rparr>) =
      ((fst (monotonic_ns cpu'' raw'' (c2\<lparr>TIMERFD_DEADLINE_NS := e\<rparr>)))\<lparr>TIMERFD_DEADLINE_NS := 0\<rparr>, 1)" if "?d \<le> now'" for e
  proof -
    have "now' \<le> snd (monotonic_ns cpu'' raw'' (c2\<lparr>TIMERFD_DEADLINE_NS := e\<rparr>))"
      by (simp add: monotonic_ns_result c2(2))
    then show ?thesis
      using that d by (simp add: consume_finish_def split_beta)
  qed
  show ?thesis
  proof (cases "?d \<le> now'")
    case True
    then show ?thesis
      unfolding set using d c2(1) again by (simp add: now now' timerfd_consume_def consume_load_def) (simp add: consume_finish_def now')
  next
    case False
    then show ?thesis
      unfolding set using d c2(1) by (simp add: now now' timerfd_consume_def consume_load_def consume_finish_def)
  qed
qed

text \<open>A timer of 500 ns in user memory.\<close>

definition example_timer :: machine where
  "example_timer = \<lparr>pg = example_paging, ram = mem_write (\<lambda>_. 0) 0x1B000018 (le_bytes 8 500)\<rparr>"

lemma example_timer_read: "copy_from_user example_timer 32 0x1B000000 = Inr (replicate 24 0 @ le_bytes 8 500)"
proof -
  have "user_accessible example_paging 0x1B000000 32"
    by (rule example_user_accessible) simp_all
  moreover have "mem_read (ram example_timer) 0x1B000000 32 = replicate 24 0 @ le_bytes 8 500"
  proof (rule nth_equalityI)
    fix i
    assume "i < length (mem_read (ram example_timer) 0x1B000000 32)"
    then show "mem_read (ram example_timer) 0x1B000000 32 ! i = (replicate 24 0 @ le_bytes 8 500) ! i"
      by (simp add: example_timer_def mem_write_def nth_append)
  qed simp
  ultimately show ?thesis
    by (simp add: copy_from_user_def example_timer_def)
qed

lemma le_nat_zeros: "le_nat (replicate n 0) = 0"
  by (induction n) simp_all

theorem timerfd_exact_witness:
  "TIMERFD_DEADLINE_NS (fst (sys_timerfd_settime 0 2000 0 0x1B000000 example_timer clock_init)) = 1500 \<and>
   snd (timerfd_consume 0 3000 (fst (sys_timerfd_settime 0 2000 0 0x1B000000 example_timer clock_init))) = 1"
proof -
  let ?r = "sys_timerfd_settime 0 2000 0 0x1B000000 example_timer clock_init"
  have ns: "timespec_ns (drop 16 (replicate 24 0 @ le_bytes 8 500)) = 500"
    by (simp add: timespec_ns_def saturating_add_def saturating_mul_def u64_max_def le_nat_zeros)
  have t: "snd (monotonic_ns 0 2000 clock_init) = 1000"
    by (simp add: monotonic_ns_result clock_init_def corrected_tsc_def tsc_to_ns_def wrap64_def)
  have c1: "fst ?r = (fst (monotonic_ns 0 2000 clock_init))\<lparr>TIMERFD_DEADLINE_NS := 1500\<rparr>"
    using t ns by (simp add: sys_timerfd_settime_def example_timer_read TFD_TIMER_ABSTIME_def Let_def saturating_add_def u64_max_def
        split_beta)
  have n: "snd (monotonic_ns 0 3000 (fst ?r)) = 1500"
    unfolding c1 monotonic_ns_result
    by (simp add: monotonic_ns_fields t corrected_tsc_def tsc_to_ns_def wrap64_def) (simp add: clock_init_def)
  show ?thesis
    using timerfd_exact [OF example_timer_read, where flags = 0 and cpu = 0 and raw = 2000 and c = clock_init and cpu' = 0 and raw' = 3000] n ns t c1
    by (simp add: TFD_TIMER_ABSTIME_def saturating_add_def u64_max_def split_beta)
qed

end
