(* ===== verification/Socket.thy ===== *)
theory Socket
  imports Uaccess "HOL-Library.Monad_Syntax"
begin

text \<open>
  The POSIX socket layer (\<open>src/src/net/socket.rs\<close>) and the polling of the network state
  (\<open>src/src/net/mod.rs\<close>).  The TCP/IP stack is a third-party crate: its operations are the fields of
  the record \<open>smoltcp\<close>, an argument of the definitions, over an abstract state \<open>'n\<close> (socket set,
  interface and device).  Every use of a handle with the wrong socket type or without a socket is a
  kernel panic, as in the crate; \<open>None\<close> is a panic throughout.
\<close>

unbundle bit_operations_syntax

section \<open>The TCP/IP stack as a parameter\<close>

datatype sock_kind = KTcp | KUdp | KDhcp

datatype tcp_state = Closed | Listen | SynSent | SynReceived | Established | FinWait1 | FinWait2
  | CloseWait | Closing | LastAck | TimeWait

type_synonym ipv4 = bytes
type_synonym endpoint = "ipv4 \<times> nat"
type_synonym listen_endpoint = "ipv4 option \<times> nat"

datatype udp_send_result = Sent | BufferFull | SendFailed

text \<open>A DHCP event: a lease with address, router and name servers, or its loss.\<close>

datatype dhcp_event = Configured ipv4 "ipv4 option" "ipv4 list" | Deconfigured

record 'n smoltcp =
  kind_of :: "'n \<Rightarrow> nat \<Rightarrow> sock_kind option"
  add_tcp :: "nat \<Rightarrow> nat \<Rightarrow> 'n \<Rightarrow> 'n \<times> nat"
  add_udp :: "'n \<Rightarrow> 'n \<times> nat"
  remove_socket :: "nat \<Rightarrow> 'n \<Rightarrow> 'n"
  tcp_state_of :: "'n \<Rightarrow> nat \<Rightarrow> tcp_state"
  tcp_listen :: "nat \<Rightarrow> listen_endpoint \<Rightarrow> 'n \<Rightarrow> 'n \<times> bool"
  tcp_connect :: "nat \<Rightarrow> endpoint \<Rightarrow> nat \<Rightarrow> 'n \<Rightarrow> 'n \<times> bool"
  set_nagle_enabled :: "nat \<Rightarrow> bool \<Rightarrow> 'n \<Rightarrow> 'n"
  tcp_close :: "nat \<Rightarrow> 'n \<Rightarrow> 'n"
  tcp_abort :: "nat \<Rightarrow> 'n \<Rightarrow> 'n"
  tcp_can_send :: "'n \<Rightarrow> nat \<Rightarrow> bool"
  tcp_can_recv :: "'n \<Rightarrow> nat \<Rightarrow> bool"
  tcp_is_active :: "'n \<Rightarrow> nat \<Rightarrow> bool"
  tcp_is_listening :: "'n \<Rightarrow> nat \<Rightarrow> bool"
  remote_endpoint :: "'n \<Rightarrow> nat \<Rightarrow> endpoint option"
  tcp_send_slice :: "nat \<Rightarrow> bytes \<Rightarrow> 'n \<Rightarrow> 'n \<times> nat option"
  tcp_recv_slice :: "nat \<Rightarrow> nat \<Rightarrow> 'n \<Rightarrow> 'n \<times> bytes option"
  udp_bind :: "nat \<Rightarrow> listen_endpoint \<Rightarrow> 'n \<Rightarrow> 'n \<times> bool"
  udp_close :: "nat \<Rightarrow> 'n \<Rightarrow> 'n"
  udp_can_send :: "'n \<Rightarrow> nat \<Rightarrow> bool"
  udp_can_recv :: "'n \<Rightarrow> nat \<Rightarrow> bool"
  udp_send_slice :: "nat \<Rightarrow> bytes \<Rightarrow> endpoint \<Rightarrow> 'n \<Rightarrow> 'n \<times> udp_send_result"
  udp_recv :: "nat \<Rightarrow> 'n \<Rightarrow> 'n \<times> (bytes \<times> endpoint) option"
  iface_poll :: "nat \<Rightarrow> 'n \<Rightarrow> 'n"
  dhcp_poll :: "nat \<Rightarrow> 'n \<Rightarrow> 'n \<times> dhcp_event option"
  set_ip_addr :: "ipv4 \<Rightarrow> 'n \<Rightarrow> 'n"
  add_default_route :: "ipv4 \<Rightarrow> 'n \<Rightarrow> 'n"

section \<open>State\<close>

definition SOCK_FD_BASE :: int where "SOCK_FD_BASE = 500"
definition LISTENER_POOL_SIZE :: nat where "LISTENER_POOL_SIZE = 64"
definition ACCEPT_HEAP_RESERVE :: nat where "ACCEPT_HEAP_RESERVE = 4 * 1024 * 1024"
definition CLOSING_REAP_MS :: nat where "CLOSING_REAP_MS = 15000"
definition LISTENER_BUF_SIZE :: nat where "LISTENER_BUF_SIZE = 2048"
definition LISTENER_TX_BUF_SIZE :: nat where "LISTENER_TX_BUF_SIZE = 32768"
definition UNSPECIFIED :: ipv4 where "UNSPECIFIED = [0, 0, 0, 0]"

datatype SockType = TcpStream | TcpListener | UdpDgram

record socket =
  s_fd :: int
  sock_type :: SockType
  handle :: nat
  nonblock :: bool
  backlog :: "nat list"
  local_port :: nat
  local_addr :: ipv4
  connecting :: bool
  udp_peer :: "endpoint option"

record 'n socket_layer =
  SOCKETS :: "socket list"
  NEXT_SOCK_FD :: int
  RECYCLED_FDS :: "int list"
  CLOSING_HANDLES :: "(nat \<times> nat) list"
  NEXT_EPHEMERAL :: int
  NET_STATE :: "'n option"
  DHCP_HANDLE :: "nat option"
  DNS_SERVERS :: "ipv4 list"

definition socket_layer_init :: "'n socket_layer" where
  "socket_layer_init = \<lparr>SOCKETS = [], NEXT_SOCK_FD = SOCK_FD_BASE, RECYCLED_FDS = [], CLOSING_HANDLES = [],
     NEXT_EPHEMERAL = 49152, NET_STATE = None, DHCP_HANDLE = None, DNS_SERVERS = []\<rparr>"

section \<open>Access to the tables\<close>

definition is_socket_fd :: "int \<Rightarrow> 'n socket_layer \<Rightarrow> bool" where
  "is_socket_fd fd s \<longleftrightarrow> (\<exists>x\<in>set (SOCKETS s). s_fd x = fd)"

text \<open>\<open>with_socket\<close>: run \<open>f\<close> on the first entry with that descriptor and write the entry back.\<close>

definition with_socket ::
  "int \<Rightarrow> (socket \<Rightarrow> 'n socket_layer \<Rightarrow> (socket \<times> 'n socket_layer \<times> 'r) option) \<Rightarrow> 'n socket_layer \<Rightarrow>
   ('n socket_layer \<times> 'r option) option" where
  "with_socket fd f s =
     (case position (\<lambda>x. s_fd x = fd) (SOCKETS s) of
        None \<Rightarrow> Some (s, None)
      | Some i \<Rightarrow>
          do {
            (x, s', r) \<leftarrow> f (SOCKETS s ! i) s;
            Some (s'\<lparr>SOCKETS := (SOCKETS s')[i := x]\<rparr>, Some r)
          })"

text \<open>\<open>with_net\<close> panics when the network is not initialised.\<close>

definition with_net :: "('n \<Rightarrow> ('n \<times> 'r) option) \<Rightarrow> 'n socket_layer \<Rightarrow> ('n socket_layer \<times> 'r) option" where
  "with_net f s = do { n \<leftarrow> NET_STATE s; (n', r) \<leftarrow> f n; Some (s\<lparr>NET_STATE := Some n'\<rparr>, r) }"

text \<open>\<open>sockets.get_mut::<tcp::Socket>(h)\<close> and its UDP counterpart panic on another kind of socket.\<close>

definition on_kind :: "'n smoltcp \<Rightarrow> sock_kind \<Rightarrow> nat \<Rightarrow> 'n \<Rightarrow> 'r option \<Rightarrow> 'r option" where
  "on_kind st k h n r = (if kind_of st n h = Some k then r else None)"

abbreviation on_tcp :: "'n smoltcp \<Rightarrow> nat \<Rightarrow> 'n \<Rightarrow> 'r option \<Rightarrow> 'r option" where
  "on_tcp st \<equiv> on_kind st KTcp"

abbreviation on_udp :: "'n smoltcp \<Rightarrow> nat \<Rightarrow> 'n \<Rightarrow> 'r option \<Rightarrow> 'r option" where
  "on_udp st \<equiv> on_kind st KUdp"

definition set_nonblock :: "int \<Rightarrow> bool \<Rightarrow> 'n socket_layer \<Rightarrow> 'n socket_layer" where
  "set_nonblock fd b s =
     (case position (\<lambda>x. s_fd x = fd) (SOCKETS s) of
        None \<Rightarrow> s | Some i \<Rightarrow> s\<lparr>SOCKETS := (SOCKETS s)[i := (SOCKETS s ! i)\<lparr>nonblock := b\<rparr>]\<rparr>)"

definition alloc_fd :: "'n socket_layer \<Rightarrow> 'n socket_layer \<times> int" where
  "alloc_fd s =
     (if RECYCLED_FDS s \<noteq> [] then (s\<lparr>RECYCLED_FDS := butlast (RECYCLED_FDS s)\<rparr>, last (RECYCLED_FDS s))
      else (s\<lparr>NEXT_SOCK_FD := i32_of (NEXT_SOCK_FD s + 1)\<rparr>, NEXT_SOCK_FD s))"

definition alloc_ephemeral_port :: "'n socket_layer \<Rightarrow> 'n socket_layer \<times> nat" where
  "alloc_ephemeral_port s =
     (let p = NEXT_EPHEMERAL s;
          port = 49152 + (i32_of (p - 49152)) mod 16384
      in (s\<lparr>NEXT_EPHEMERAL := (if 65535 \<le> port then 49152 else i32_of (p + 1))\<rparr>, nat port))"

definition endpoint_of :: "ipv4 \<Rightarrow> nat \<Rightarrow> listen_endpoint" where
  "endpoint_of addr port = (if addr = UNSPECIFIED then (None, port) else (Some addr, port))"

definition install_fresh_listener :: "'n smoltcp \<Rightarrow> listen_endpoint \<Rightarrow> 'n \<Rightarrow> 'n \<times> nat" where
  "install_fresh_listener st ep n =
     (let (n1, h) = add_tcp st LISTENER_BUF_SIZE LISTENER_TX_BUF_SIZE n
      in (set_nagle_enabled st h False (fst (tcp_listen st h ep n1)), h))"

primrec install_pool :: "'n smoltcp \<Rightarrow> listen_endpoint \<Rightarrow> nat \<Rightarrow> 'n \<Rightarrow> 'n \<times> nat list" where
  "install_pool st ep 0 n = (n, [])"
| "install_pool st ep (Suc k) n =
     (case install_fresh_listener st ep n of (n1, h) \<Rightarrow> (case install_pool st ep k n1 of (n2, hs) \<Rightarrow> (n2, h # hs)))"

section \<open>Addresses in user memory\<close>

definition read_sockaddr_in :: "machine \<Rightarrow> nat \<Rightarrow> int + endpoint" where
  "read_sockaddr_in m ptr =
     (case copy_from_user m 16 ptr of
        Inl _ \<Rightarrow> Inl (-14)
      | Inr sa \<Rightarrow>
          if le_nat (take 2 sa) \<noteq> 2 then Inl (-97)
          else Inr (take 4 (drop 4 sa), unat (sa ! 2) * 256 + unat (sa ! 3)))"

definition sockaddr_in :: "nat \<Rightarrow> ipv4 \<Rightarrow> bytes" where
  "sockaddr_in port ip = le_bytes 2 2 @ [of_nat (port div 256), of_nat (port mod 256)] @ ip @ replicate 8 0"

definition write_sockaddr_in :: "nat \<Rightarrow> nat \<Rightarrow> nat \<Rightarrow> ipv4 \<Rightarrow> machine \<Rightarrow> machine \<times> int" where
  "write_sockaddr_in addr_ptr addrlen_ptr port ip m =
     (if addr_ptr = 0 then (m, 0)
      else (case copy_to_user m addr_ptr (sockaddr_in port ip) of
              Inl _ \<Rightarrow> (m, -14)
            | Inr m1 \<Rightarrow>
                if addrlen_ptr = 0 then (m1, 0)
                else (case copy_to_user m1 addrlen_ptr (le_bytes 4 16) of Inl _ \<Rightarrow> (m1, -14) | Inr m2 \<Rightarrow> (m2, 0))))"

section \<open>Creating, connecting and binding\<close>

definition sys_socket :: "'n smoltcp \<Rightarrow> int \<Rightarrow> int \<Rightarrow> 'n socket_layer \<Rightarrow> 'n socket_layer \<times> int" where
  "sys_socket st domain sock_ty s =
     (if domain \<noteq> 2 \<and> domain \<noteq> 10 then (s, -97)
      else
        (let raw_type = sock_ty AND 0xf; nb = (sock_ty AND 0x800 \<noteq> 0) in
         if raw_type \<noteq> 1 \<and> raw_type \<noteq> 2 then (s, -93)
         else (case NET_STATE s of
                 None \<Rightarrow> (s, -97)
               | Some n \<Rightarrow>
                   (let (n1, h) = (if raw_type = 1 then add_tcp st 8192 8192 n else add_udp st n);
                        (s1, fd) = alloc_fd (s\<lparr>NET_STATE := Some n1\<rparr>);
                        x = \<lparr>s_fd = fd, sock_type = (if raw_type = 1 then TcpStream else UdpDgram), handle = h, nonblock = nb,
                              backlog = [], local_port = 0, local_addr = UNSPECIFIED, connecting = False, udp_peer = None\<rparr>
                    in (s1\<lparr>SOCKETS := SOCKETS s1 @ [x]\<rparr>, fd)))))"

text \<open>The binding of an unbound UDP socket to a port of the dynamic range.\<close>

definition udp_autobind :: "'n smoltcp \<Rightarrow> socket \<Rightarrow> 'n socket_layer \<Rightarrow> (socket \<times> 'n socket_layer) option" where
  "udp_autobind st x s =
     (if local_port x \<noteq> 0 then Some (x, s)
      else
        (let (s1, p) = alloc_ephemeral_port s; x1 = x\<lparr>local_port := p\<rparr> in
         do {
           (s2, u) \<leftarrow> with_net (\<lambda>n. on_udp st (handle x1) n (Some (fst (udp_bind st (handle x1) (None, p) n), ()))) s1;
           Some (x1, s2)
         }))"

definition connect_socket ::
  "'n smoltcp \<Rightarrow> endpoint \<Rightarrow> socket \<Rightarrow> 'n socket_layer \<Rightarrow> (socket \<times> 'n socket_layer \<times> int) option" where
  "connect_socket st remote x s =
     (if sock_type x = UdpDgram
      then do { (x1, s1) \<leftarrow> udp_autobind st (x\<lparr>udp_peer := Some remote\<rparr>) s; Some (x1, s1, 0) }
      else
        (let (s1, port) = (if local_port x \<noteq> 0 then (s, local_port x) else alloc_ephemeral_port s);
             x1 = x\<lparr>local_port := port, sock_type := TcpStream, connecting := True\<rparr>
         in do {
              (s2, ok) \<leftarrow> with_net (\<lambda>n. on_tcp st (handle x1) n
                  (let (n1, ok) = tcp_connect st (handle x1) remote port (set_nagle_enabled st (handle x1) False n)
                   in Some (n1, ok))) s1;
              Some (if ok then (x1, s2, -115) else (x1\<lparr>connecting := False\<rparr>, s2, -111))
            }))"

text \<open>The result of a call on a descriptor, \<open>-EBADF\<close> when there is no such socket.\<close>

definition or_badf :: "('n socket_layer \<times> int option) option \<Rightarrow> ('n socket_layer \<times> int) option" where
  "or_badf = map_option (\<lambda>(s, r). (s, case r of Some v \<Rightarrow> v | None \<Rightarrow> -9))"

definition sys_connect :: "'n smoltcp \<Rightarrow> machine \<Rightarrow> int \<Rightarrow> nat \<Rightarrow> 'n socket_layer \<Rightarrow> ('n socket_layer \<times> int) option" where
  "sys_connect st m fd addr_ptr s =
     (case read_sockaddr_in m addr_ptr of
        Inl e \<Rightarrow> Some (s, e)
      | Inr remote \<Rightarrow> or_badf (with_socket fd (connect_socket st remote) s))"

definition bind_socket ::
  "'n smoltcp \<Rightarrow> endpoint \<Rightarrow> socket \<Rightarrow> 'n socket_layer \<Rightarrow> (socket \<times> 'n socket_layer \<times> int) option" where
  "bind_socket st ep x s =
     (let (s1, port) = (if snd ep = 0 then alloc_ephemeral_port s else (s, snd ep));
          x1 = x\<lparr>local_port := port, local_addr := fst ep\<rparr>
      in if sock_type x1 = UdpDgram
         then do {
                (s2, ok) \<leftarrow> with_net (\<lambda>n. on_udp st (handle x1) n (Some (udp_bind st (handle x1) (endpoint_of (fst ep) port) n))) s1;
                Some (x1, s2, if ok then 0 else -98)
              }
         else Some (x1, s1, 0))"

definition sys_bind :: "'n smoltcp \<Rightarrow> machine \<Rightarrow> int \<Rightarrow> nat \<Rightarrow> 'n socket_layer \<Rightarrow> ('n socket_layer \<times> int) option" where
  "sys_bind st m fd addr_ptr s =
     (case read_sockaddr_in m addr_ptr of
        Inl e \<Rightarrow> Some (s, e)
      | Inr ep \<Rightarrow> or_badf (with_socket fd (bind_socket st ep) s))"

section \<open>Listening and accepting\<close>

definition listen_socket :: "'n smoltcp \<Rightarrow> socket \<Rightarrow> 'n socket_layer \<Rightarrow> (socket \<times> 'n socket_layer \<times> int) option" where
  "listen_socket st x s =
     (let x1 = x\<lparr>sock_type := TcpListener\<rparr>; ep = endpoint_of (local_addr x) (local_port x) in
      do {
        (s1, hs) \<leftarrow> with_net (\<lambda>n. on_tcp st (handle x1) n
            (case tcp_listen st (handle x1) ep n of
               (n1, False) \<Rightarrow> Some (n1, None)
             | (n1, True) \<Rightarrow> (case install_pool st ep (LISTENER_POOL_SIZE - 1) n1 of (n2, hs) \<Rightarrow> Some (n2, Some hs)))) s;
        Some (case hs of None \<Rightarrow> (x1, s1, -98) | Some hs \<Rightarrow> (x1\<lparr>backlog := hs\<rparr>, s1, 0))
      })"

definition sys_listen :: "'n smoltcp \<Rightarrow> int \<Rightarrow> 'n socket_layer \<Rightarrow> ('n socket_layer \<times> int) option" where
  "sys_listen st fd s = or_badf (with_socket fd (listen_socket st) s)"

text \<open>
  One attempt to capture a connection: the first slot of the pool in state \<open>Established\<close> or
  \<open>CloseWait\<close>.  Below the heap reserve it is reset in place and nothing is captured.
\<close>

definition connected :: "tcp_state \<Rightarrow> bool" where
  "connected t \<longleftrightarrow> t = Established \<or> t = CloseWait"

definition capture_slot ::
  "'n smoltcp \<Rightarrow> nat \<Rightarrow> listen_endpoint \<Rightarrow> nat \<Rightarrow> 'n \<Rightarrow> 'n \<times> (nat \<times> nat \<times> endpoint option) option" where
  "capture_slot st free ep h n =
     (if free < ACCEPT_HEAP_RESERVE then (fst (tcp_listen st h ep (tcp_abort st h n)), None)
      else (let remote = remote_endpoint st n h; (n1, h') = install_fresh_listener st ep n in (n1, Some (h, h', remote))))"

primrec scan_backlog ::
  "'n smoltcp \<Rightarrow> nat \<Rightarrow> listen_endpoint \<Rightarrow> nat list \<Rightarrow> nat list \<Rightarrow> 'n \<Rightarrow> ('n \<times> nat list \<times> (nat \<times> endpoint option) option) option" where
  "scan_backlog st free ep seen [] n = Some (n, seen, None)"
| "scan_backlog st free ep seen (h # hs) n =
     on_tcp st h n
       (if connected (tcp_state_of st n h)
        then (case capture_slot st free ep h n of
                (n1, None) \<Rightarrow> Some (n1, seen @ h # hs, None)
              | (n1, Some (a, h', remote)) \<Rightarrow> Some (n1, seen @ h' # hs, Some (a, remote)))
        else scan_backlog st free ep (seen @ [h]) hs n)"

definition accept_socket ::
  "'n smoltcp \<Rightarrow> nat \<Rightarrow> listen_endpoint \<Rightarrow> socket \<Rightarrow> 'n socket_layer \<Rightarrow>
   (socket \<times> 'n socket_layer \<times> (nat \<times> endpoint option) option) option" where
  "accept_socket st free ep x s =
     do {
       (s1, x1, r) \<leftarrow> with_net (\<lambda>n. on_tcp st (handle x) n
           (if connected (tcp_state_of st n (handle x))
            then (case capture_slot st free ep (handle x) n of
                    (n1, None) \<Rightarrow> Some (n1, x, None)
                  | (n1, Some (a, h', remote)) \<Rightarrow> Some (n1, x\<lparr>handle := h'\<rparr>, Some (a, remote)))
            else do { (n1, hs, r) \<leftarrow> scan_backlog st free ep [] (backlog x) n; Some (n1, x\<lparr>backlog := hs\<rparr>, r) })) s;
       Some (x1, s1, r)
     }"

section \<open>Reaping closed connections and polling\<close>

text \<open>The loop of \<open>gc_closed_handles\<close>, from index \<open>i\<close>; \<open>swap_remove\<close> puts the last entry in the gap.\<close>

function gc_loop :: "'n smoltcp \<Rightarrow> nat \<Rightarrow> nat \<Rightarrow> (nat \<times> nat) list \<Rightarrow> 'n \<Rightarrow> ('n \<times> (nat \<times> nat) list) option" where
  "gc_loop st now i closing n =
     (if i < length closing then
        (let (h, t0) = closing ! i;
             t = tcp_state_of st n h;
             finished = (t = Closed \<or> t = TimeWait);
             stranded = (\<not> finished \<and> CLOSING_REAP_MS \<le> wrapping_sub now t0);
             n1 = (if stranded then tcp_abort st h n else n)
         in on_tcp st h n
              (if finished \<or> stranded
               then gc_loop st now i (swap_remove i closing) (remove_socket st h n1)
               else gc_loop st now (i + 1) closing n1))
      else Some (n, closing))"
  by pat_completeness auto
termination
  by (relation "measure (\<lambda>(st, now, i, closing, n). length closing - i)") (auto simp: swap_remove_def)

declare gc_loop.simps [simp del]

definition gc_closed_handles :: "'n smoltcp \<Rightarrow> nat \<Rightarrow> 'n socket_layer \<Rightarrow> 'n socket_layer option" where
  "gc_closed_handles st now s =
     do {
       n \<leftarrow> NET_STATE s;
       (n', closing) \<leftarrow> gc_loop st now 0 (CLOSING_HANDLES s) n;
       Some (s\<lparr>NET_STATE := Some n', CLOSING_HANDLES := closing\<rparr>)
     }"

definition apply_lease :: "'n smoltcp \<Rightarrow> ipv4 \<Rightarrow> ipv4 option \<Rightarrow> 'n \<Rightarrow> 'n" where
  "apply_lease st addr router n =
     (let n1 = set_ip_addr st addr n in case router of None \<Rightarrow> n1 | Some r \<Rightarrow> add_default_route st r n1)"

text \<open>\<open>NetState::poll\<close> at uptime \<open>now\<close> ms; the completion of transmissions is part of \<open>iface_poll\<close> here.\<close>

definition net_poll :: "'n smoltcp \<Rightarrow> nat \<Rightarrow> 'n socket_layer \<Rightarrow> 'n socket_layer option" where
  "net_poll st now s =
     (case NET_STATE s of
        None \<Rightarrow> Some s
      | Some n \<Rightarrow>
          (let n1 = iface_poll st now n in
           do {
             s1 \<leftarrow> (case DHCP_HANDLE s of
                     None \<Rightarrow> Some (s\<lparr>NET_STATE := Some n1\<rparr>)
                   | Some h \<Rightarrow>
                       on_kind st KDhcp h n1
                         (case dhcp_poll st h n1 of
                            (n2, Some (Configured addr router dns)) \<Rightarrow>
                              Some (s\<lparr>NET_STATE := Some (apply_lease st addr router n2), DNS_SERVERS := dns\<rparr>)
                          | (n2, _) \<Rightarrow> Some (s\<lparr>NET_STATE := Some n2\<rparr>)));
             gc_closed_handles st now s1
           }))"

text \<open>The virtio start-up, given the state \<open>n0\<close> of interface, device and empty socket set it builds.\<close>

definition init_with_transport :: "'n \<Rightarrow> 'n socket_layer \<Rightarrow> 'n socket_layer" where
  "init_with_transport n0 s = s\<lparr>DNS_SERVERS := DNS_SERVERS s @ [[10, 0, 2, 3]], NET_STATE := Some n0, DHCP_HANDLE := None\<rparr>"

fun dec_string :: "nat \<Rightarrow> string" where
  "dec_string k = (if k < 10 then [char_of (48 + k)] else dec_string (k div 10) @ [char_of (48 + k mod 10)])"

declare dec_string.simps [simp del]

definition ipv4_string :: "ipv4 \<Rightarrow> string" where
  "ipv4_string ip = concat (map (\<lambda>i. (if i = 0 then [] else ''.'') @ dec_string (unat (ip ! i))) [0..<length ip])"

definition resolv_conf :: "'n socket_layer \<Rightarrow> string" where
  "resolv_conf s = concat (map (\<lambda>ns. ''nameserver '' @ ipv4_string ns @ [CHR 0x0A]) (DNS_SERVERS s))"

section \<open>The accept call\<close>

text \<open>
  The loop of \<open>accept\<close>: attempt \<open>k\<close> sees the uptime and the free heap \<open>obs k\<close>; \<open>env k\<close> is what other
  threads do while this one yields.  The outer option is \<open>None\<close> when the loop does not end.
\<close>

partial_function (option) accept_loop ::
  "'n smoltcp \<Rightarrow> (nat \<Rightarrow> nat \<times> nat) \<Rightarrow> (nat \<Rightarrow> 'n socket_layer \<Rightarrow> 'n socket_layer) \<Rightarrow> int \<Rightarrow> listen_endpoint \<Rightarrow> bool \<Rightarrow> nat \<Rightarrow>
   'n socket_layer \<Rightarrow> ('n socket_layer \<times> (int + (nat \<times> endpoint option))) option option" where
  "accept_loop st obs env fd ep nb k s =
     (case do { s1 \<leftarrow> net_poll st (fst (obs k)) s; with_socket fd (accept_socket st (snd (obs k)) ep) s1 } of
        None \<Rightarrow> Some None
      | Some (s2, r) \<Rightarrow>
          (case r of
             Some (Some captured) \<Rightarrow> Some (Some (s2, Inr captured))
           | _ \<Rightarrow> if nb then Some (Some (s2, Inl (-11))) else accept_loop st obs env fd ep nb (k + 1) (env k s2)))"

definition accepted_socket :: "int \<Rightarrow> nat \<Rightarrow> bool \<Rightarrow> socket \<Rightarrow> socket" where
  "accepted_socket fd h nb lst =
     \<lparr>s_fd = fd, sock_type = TcpStream, handle = h, nonblock = nb, backlog = [], local_port = local_port lst,
      local_addr = local_addr lst, connecting = False, udp_peer = None\<rparr>"

text \<open>What \<open>accept\<close> does with a captured connection; a failure to store the peer's address is ignored.\<close>

definition accept_captured ::
  "bool \<Rightarrow> socket \<Rightarrow> nat \<Rightarrow> nat \<Rightarrow> machine \<Rightarrow> nat \<times> endpoint option \<Rightarrow> 'n socket_layer \<Rightarrow> ('n socket_layer \<times> machine) \<times> int" where
  "accept_captured nb lst addr_ptr addrlen_ptr m captured s =
     (let (s1, new_fd) = alloc_fd s
      in ((s1\<lparr>SOCKETS := SOCKETS s1 @ [accepted_socket new_fd (fst captured) nb lst]\<rparr>,
           case snd captured of
             None \<Rightarrow> m
           | Some (ip, port) \<Rightarrow> fst (write_sockaddr_in addr_ptr addrlen_ptr port ip m)), new_fd))"

definition sys_accept ::
  "'n smoltcp \<Rightarrow> (nat \<Rightarrow> nat \<times> nat) \<Rightarrow> (nat \<Rightarrow> 'n socket_layer \<Rightarrow> 'n socket_layer) \<Rightarrow> machine \<Rightarrow> int \<Rightarrow> nat \<Rightarrow> nat \<Rightarrow> int \<Rightarrow>
   'n socket_layer \<Rightarrow> (('n socket_layer \<times> machine) \<times> int) option option" where
  "sys_accept st obs env m fd addr_ptr addrlen_ptr flags s =
     (case find (\<lambda>x. s_fd x = fd) (SOCKETS s) of
        None \<Rightarrow> Some (Some ((s, m), -9))
      | Some x \<Rightarrow>
          if sock_type x \<noteq> TcpListener then Some (Some ((s, m), -95))
          else
            (let nb = (flags AND 0x800 \<noteq> 0) in
             map_option (map_option (\<lambda>(s1, r). case r of
                 Inl e \<Rightarrow> ((s1, m), e)
               | Inr captured \<Rightarrow> accept_captured nb x addr_ptr addrlen_ptr m captured s1))
               (accept_loop st obs env fd (endpoint_of (local_addr x) (local_port x)) (nonblock x \<or> nb) 0 s)))"

section \<open>Names and options\<close>

definition sys_getsockname :: "int \<Rightarrow> nat \<Rightarrow> nat \<Rightarrow> machine \<Rightarrow> 'n socket_layer \<Rightarrow> machine \<times> int" where
  "sys_getsockname fd addr_ptr addrlen_ptr m s =
     (case find (\<lambda>x. s_fd x = fd) (SOCKETS s) of
        None \<Rightarrow> (m, -9)
      | Some x \<Rightarrow> write_sockaddr_in addr_ptr addrlen_ptr (local_port x) (local_addr x) m)"

definition sys_getpeername :: "'n smoltcp \<Rightarrow> int \<Rightarrow> nat \<Rightarrow> nat \<Rightarrow> machine \<Rightarrow> 'n socket_layer \<Rightarrow> (machine \<times> int) option" where
  "sys_getpeername st fd addr_ptr addrlen_ptr m s =
     (case find (\<lambda>x. s_fd x = fd) (SOCKETS s) of
        None \<Rightarrow> Some (m, -9)
      | Some x \<Rightarrow>
          do {
            n \<leftarrow> NET_STATE s;
            remote \<leftarrow> on_tcp st (handle x) n (Some (remote_endpoint st n (handle x)));
            Some (case remote of None \<Rightarrow> (m, -107) | Some (ip, port) \<Rightarrow> write_sockaddr_in addr_ptr addrlen_ptr port ip m)
          })"

definition sys_setsockopt :: "int \<Rightarrow> 'n socket_layer \<Rightarrow> int" where
  "sys_setsockopt fd s = (if \<not> is_socket_fd fd s then -9 else 0)"

text \<open>The states in which an attempt to connect has failed.\<close>

definition refused :: "tcp_state \<Rightarrow> bool" where
  "refused t \<longleftrightarrow> t = Closed \<or> t = TimeWait \<or> t = CloseWait"

definition connect_outcome :: "'n smoltcp \<Rightarrow> socket \<Rightarrow> 'n socket_layer \<Rightarrow> (socket \<times> 'n socket_layer \<times> nat) option" where
  "connect_outcome st x s =
     (if sock_type x = TcpStream \<and> connecting x
      then do {
             n \<leftarrow> NET_STATE s;
             t \<leftarrow> on_tcp st (handle x) n (Some (tcp_state_of st n (handle x)));
             Some (if t = Established then (x\<lparr>connecting := False\<rparr>, s, 0)
                   else if refused t then (x\<lparr>connecting := False\<rparr>, s, 111)
                   else (x, s, 0))
           }
      else Some (x, s, 0))"

definition sys_getsockopt ::
  "'n smoltcp \<Rightarrow> int \<Rightarrow> int \<Rightarrow> int \<Rightarrow> nat \<Rightarrow> nat \<Rightarrow> machine \<Rightarrow> 'n socket_layer \<Rightarrow> (('n socket_layer \<times> machine) \<times> int) option" where
  "sys_getsockopt st fd level optname optval optlen m s =
     (if \<not> is_socket_fd fd s then Some ((s, m), -9)
      else if optval = 0 \<or> optlen = 0 then Some ((s, m), -14)
      else do {
        (s1, r) \<leftarrow> with_socket fd (connect_outcome st) s;
        let so_error = (case r of Some e \<Rightarrow> e | None \<Rightarrow> 0);
        Some (case copy_from_user m 4 optlen of
                Inl _ \<Rightarrow> ((s1, m), -14)
              | Inr lenbuf \<Rightarrow>
                  (let (val, width) = (if level = 1 \<and> optname = 4 then (so_error, 4)
                                       else if level = 1 \<and> optname = 13 then (0, 8) else (0, 4))
                   in if le_nat lenbuf < width then ((s1, m), 0)
                      else (case copy_to_user m optval (take width (le_bytes 4 val @ replicate 4 0)) of
                              Inl _ \<Rightarrow> ((s1, m), -14)
                            | Inr m1 \<Rightarrow>
                                (case copy_to_user m1 optlen (le_bytes 4 width) of
                                   Inl _ \<Rightarrow> ((s1, m1), -14) | Inr m2 \<Rightarrow> ((s1, m2), 0)))))
      })"

section \<open>Sending and receiving\<close>

definition send_socket ::
  "'n smoltcp \<Rightarrow> nat \<Rightarrow> machine \<Rightarrow> nat \<Rightarrow> nat \<Rightarrow> endpoint option \<Rightarrow> socket \<Rightarrow> 'n socket_layer \<Rightarrow> (socket \<times> 'n socket_layer \<times> int) option" where
  "send_socket st now m buf len dest x s =
     (case sock_type x of
        UdpDgram \<Rightarrow>
          (case (case dest of Some e \<Rightarrow> Some e | None \<Rightarrow> udp_peer x) of
             None \<Rightarrow> Some (x, s, -89)
           | Some ep \<Rightarrow>
               do {
                 (x1, s1) \<leftarrow> udp_autobind st x s;
                 (s2, r) \<leftarrow> with_net (\<lambda>n. on_udp st (handle x1) n
                     (if \<not> user_accessible (pg m) buf len then Some (n, -14)
                      else (case udp_send_slice st (handle x1) (mem_read (ram m) buf len) ep n of
                              (n1, Sent) \<Rightarrow> Some (n1, int len)
                            | (n1, BufferFull) \<Rightarrow> Some (n1, -11)
                            | (n1, SendFailed) \<Rightarrow> Some (n1, -22)))) s1;
                 s3 \<leftarrow> net_poll st now s2;
                 Some (x1, s3, r)
               })
      | TcpStream \<Rightarrow>
          do {
            (s1, r) \<leftarrow> with_net (\<lambda>n. on_tcp st (handle x) n
                (if \<not> tcp_can_send st n (handle x) then Some (n, -11)
                 else if \<not> user_accessible (pg m) buf len then Some (n, -14)
                 else (case tcp_send_slice st (handle x) (mem_read (ram m) buf len) n of
                         (n1, Some sent) \<Rightarrow> Some (n1, int sent)
                       | (n1, None) \<Rightarrow> Some (n1, -104)))) s;
            Some (x, s1, r)
          }
      | TcpListener \<Rightarrow> Some (x, s, -95))"

definition sys_sendto ::
  "'n smoltcp \<Rightarrow> nat \<Rightarrow> machine \<Rightarrow> int \<Rightarrow> nat \<Rightarrow> nat \<Rightarrow> nat \<Rightarrow> 'n socket_layer \<Rightarrow> ('n socket_layer \<times> int) option" where
  "sys_sendto st now m fd buf len dest_addr s =
     (let dest = (if dest_addr = 0 then None else case read_sockaddr_in m dest_addr of Inl _ \<Rightarrow> None | Inr e \<Rightarrow> Some e)
      in or_badf (with_socket fd (send_socket st now m buf len dest) s))"

definition recv_socket ::
  "'n smoltcp \<Rightarrow> machine \<Rightarrow> nat \<Rightarrow> nat \<Rightarrow> nat \<Rightarrow> nat \<Rightarrow> socket \<Rightarrow> 'n socket_layer \<Rightarrow> (socket \<times> 'n socket_layer \<times> (machine \<times> int)) option" where
  "recv_socket st m buf len src_addr addrlen x s =
     (case sock_type x of
        TcpStream \<Rightarrow>
          do {
            (s1, r) \<leftarrow> with_net (\<lambda>n. on_tcp st (handle x) n
                (if \<not> tcp_can_recv st n (handle x) then Some (n, m, if tcp_is_active st n (handle x) then -11 else 0)
                 else if \<not> user_accessible (pg m) buf len then Some (n, m, -14)
                 else (case tcp_recv_slice st (handle x) len n of
                         (n1, Some bs) \<Rightarrow> Some (n1, m\<lparr>ram := mem_write (ram m) buf bs\<rparr>, int (length bs))
                       | (n1, None) \<Rightarrow> Some (n1, m, -104)))) s;
            Some (x, s1, r)
          }
      | UdpDgram \<Rightarrow>
          do {
            (s1, r) \<leftarrow> with_net (\<lambda>n. on_udp st (handle x) n
                (if \<not> udp_can_recv st n (handle x) then Some (n, m, -11)
                 else (case udp_recv st (handle x) n of
                         (n1, None) \<Rightarrow> Some (n1, m, -11)
                       | (n1, Some (bs, ip, port)) \<Rightarrow>
                           (let k = min (length bs) len in
                            case copy_to_user m buf (take k bs) of
                              Inl _ \<Rightarrow> Some (n1, m, -14)
                            | Inr m1 \<Rightarrow> Some (n1, fst (write_sockaddr_in src_addr addrlen port ip m1), int k))))) s;
            Some (x, s1, r)
          }
      | TcpListener \<Rightarrow> Some (x, s, (m, -9)))"

definition sys_recvfrom ::
  "'n smoltcp \<Rightarrow> nat \<Rightarrow> machine \<Rightarrow> int \<Rightarrow> nat \<Rightarrow> nat \<Rightarrow> nat \<Rightarrow> nat \<Rightarrow> 'n socket_layer \<Rightarrow> (('n socket_layer \<times> machine) \<times> int) option" where
  "sys_recvfrom st now m fd buf len src_addr addrlen s =
     do {
       s1 \<leftarrow> net_poll st now s;
       (s2, r) \<leftarrow> with_socket fd (recv_socket st m buf len src_addr addrlen) s1;
       Some (case r of None \<Rightarrow> ((s2, m), -9) | Some (m1, v) \<Rightarrow> ((s2, m1), v))
     }"

section \<open>Readiness\<close>

definition POLLIN :: nat where "POLLIN = 1"
definition POLLOUT :: nat where "POLLOUT = 4"
definition POLLERR :: nat where "POLLERR = 8"
definition POLLHUP :: nat where "POLLHUP = 16"

primrec any_active :: "'n smoltcp \<Rightarrow> nat list \<Rightarrow> 'n \<Rightarrow> bool option" where
  "any_active st [] n = Some False"
| "any_active st (h # hs) n = on_tcp st h n (if tcp_is_active st n h then Some True else any_active st hs n)"

definition stream_events :: "'n smoltcp \<Rightarrow> 'n \<Rightarrow> nat \<Rightarrow> nat" where
  "stream_events st n h =
     (if tcp_can_recv st n h then POLLIN else 0) OR (if tcp_can_send st n h then POLLOUT else 0) OR
     (if \<not> tcp_is_active st n h \<and> \<not> tcp_is_listening st n h then POLLHUP else 0)"

definition udp_events :: "'n smoltcp \<Rightarrow> 'n \<Rightarrow> nat \<Rightarrow> nat" where
  "udp_events st n h = (if udp_can_recv st n h then POLLIN else 0) OR (if udp_can_send st n h then POLLOUT else 0)"

definition poll_one :: "'n smoltcp \<Rightarrow> socket \<Rightarrow> 'n socket_layer \<Rightarrow> (socket \<times> 'n socket_layer \<times> nat) option" where
  "poll_one st x s =
     do {
       n \<leftarrow> NET_STATE s;
       (case sock_type x of
          TcpStream \<Rightarrow>
            on_tcp st (handle x) n
              (let t = tcp_state_of st n (handle x) in
               if connecting x
               then Some (if t = Established then (x\<lparr>connecting := False\<rparr>, s, POLLOUT)
                          else if refused t then (x, s, POLLOUT OR POLLERR)
                          else (x, s, 0))
               else Some (x, s, stream_events st n (handle x)))
        | TcpListener \<Rightarrow>
            do { b \<leftarrow> any_active st (handle x # backlog x) n; Some (x, s, if b then POLLIN else 0) }
        | UdpDgram \<Rightarrow>
            on_udp st (handle x) n
              (Some (x, s, udp_events st n (handle x))))
     }"

definition poll_socket :: "'n smoltcp \<Rightarrow> int \<Rightarrow> 'n socket_layer \<Rightarrow> ('n socket_layer \<times> nat) option" where
  "poll_socket st fd s = map_option (\<lambda>(s1, r). (s1, case r of Some e \<Rightarrow> e | None \<Rightarrow> 0)) (with_socket fd (poll_one st) s)"

primrec any_ready :: "'n smoltcp \<Rightarrow> int list \<Rightarrow> 'n socket_layer \<Rightarrow> ('n socket_layer \<times> bool) option" where
  "any_ready st [] s = Some (s, False)"
| "any_ready st (fd # fds) s =
     do { (s1, e) \<leftarrow> poll_socket st fd s; if e AND POLLIN \<noteq> 0 then Some (s1, True) else any_ready st fds s1 }"

definition any_socket_ready :: "'n smoltcp \<Rightarrow> 'n socket_layer \<Rightarrow> ('n socket_layer \<times> bool) option" where
  "any_socket_ready st s = any_ready st (map s_fd (filter (\<lambda>x. 0 \<le> s_fd x) (SOCKETS s))) s"

section \<open>Closing\<close>

primrec close_listeners :: "'n smoltcp \<Rightarrow> nat list \<Rightarrow> 'n \<Rightarrow> 'n option" where
  "close_listeners st [] n = Some n"
| "close_listeners st (h # hs) n = on_tcp st h n (close_listeners st hs (remove_socket st h (tcp_close st h n)))"

definition dispose_socket :: "'n smoltcp \<Rightarrow> nat \<Rightarrow> socket \<Rightarrow> 'n socket_layer \<Rightarrow> 'n socket_layer option" where
  "dispose_socket st now x s =
     do {
       n \<leftarrow> NET_STATE s;
       (case sock_type x of
          TcpStream \<Rightarrow>
            on_tcp st (handle x) n
              (Some (s\<lparr>NET_STATE := Some (tcp_close st (handle x) n), CLOSING_HANDLES := CLOSING_HANDLES s @ [(handle x, now)]\<rparr>))
        | TcpListener \<Rightarrow>
            do { n1 \<leftarrow> close_listeners st (handle x # backlog x) n; Some (s\<lparr>NET_STATE := Some n1\<rparr>) }
        | UdpDgram \<Rightarrow>
            on_udp st (handle x) n (Some (s\<lparr>NET_STATE := Some (remove_socket st (handle x) (udp_close st (handle x) n))\<rparr>)))
     }"

definition socket_close :: "'n smoltcp \<Rightarrow> nat \<Rightarrow> int \<Rightarrow> 'n socket_layer \<Rightarrow> 'n socket_layer option" where
  "socket_close st now fd s =
     (case position (\<lambda>x. s_fd x = fd) (SOCKETS s) of
        None \<Rightarrow> Some s
      | Some i \<Rightarrow>
          dispose_socket st now (SOCKETS s ! i)
            (s\<lparr>SOCKETS := take i (SOCKETS s) @ drop (Suc i) (SOCKETS s), RECYCLED_FDS := RECYCLED_FDS s @ [fd]\<rparr>))"

end
