(* ===== verification/Socket_Invariant.thy ===== *)
theory Socket_Invariant
  imports Socket "HOL-Library.Multiset"
begin

text \<open>
  Ownership of the stack's sockets.  A \<^emph>\<open>claim\<close> \<open>(h, k)\<close> says that handle \<open>h\<close> is in use as a socket of
  kind \<open>k\<close>; the claims of the layer are those of its descriptors (primary handle and pool), of the
  list of connections being torn down, and of the accept calls that have captured a connection but
  not yet given it a descriptor.  \<open>owns\<close> relates them to the sockets the stack holds; \<open>stack_ok\<close> is
  what the layer relies on of the stack's socket set.
\<close>

section \<open>What the layer relies on\<close>

definition keeps_kinds :: "'n smoltcp \<Rightarrow> ('n \<Rightarrow> 'n) \<Rightarrow> bool" where
  "keeps_kinds st f \<longleftrightarrow> (\<forall>n. kind_of st (f n) = kind_of st n)"

definition adds_kind :: "'n smoltcp \<Rightarrow> sock_kind \<Rightarrow> ('n \<Rightarrow> 'n \<times> nat) \<Rightarrow> bool" where
  "adds_kind st k f \<longleftrightarrow>
     (\<forall>n. kind_of st n (snd (f n)) = None \<and> kind_of st (fst (f n)) = (kind_of st n)(snd (f n) \<mapsto> k))"

text \<open>
  The documented behaviour of the socket set: \<open>add\<close> returns a handle that was not in use, \<open>remove\<close>
  frees the handle, and no other operation adds, removes or changes the type of a socket.
\<close>

definition stack_ok :: "'n smoltcp \<Rightarrow> bool" where
  "stack_ok st \<longleftrightarrow>
     (\<forall>r t. adds_kind st KTcp (add_tcp st r t)) \<and> adds_kind st KUdp (add_udp st) \<and>
     (\<forall>h n. kind_of st (remove_socket st h n) = (kind_of st n)(h := None)) \<and>
     (\<forall>h ep. keeps_kinds st (\<lambda>n. fst (tcp_listen st h ep n))) \<and>
     (\<forall>h ep p. keeps_kinds st (\<lambda>n. fst (tcp_connect st h ep p n))) \<and>
     (\<forall>h b. keeps_kinds st (set_nagle_enabled st h b)) \<and>
     (\<forall>h. keeps_kinds st (tcp_close st h)) \<and> (\<forall>h. keeps_kinds st (tcp_abort st h)) \<and>
     (\<forall>h bs. keeps_kinds st (\<lambda>n. fst (tcp_send_slice st h bs n))) \<and>
     (\<forall>h l. keeps_kinds st (\<lambda>n. fst (tcp_recv_slice st h l n))) \<and>
     (\<forall>h ep. keeps_kinds st (\<lambda>n. fst (udp_bind st h ep n))) \<and>
     (\<forall>h. keeps_kinds st (udp_close st h)) \<and>
     (\<forall>h bs ep. keeps_kinds st (\<lambda>n. fst (udp_send_slice st h bs ep n))) \<and>
     (\<forall>h. keeps_kinds st (\<lambda>n. fst (udp_recv st h n))) \<and>
     (\<forall>t. keeps_kinds st (iface_poll st t)) \<and>
     (\<forall>h. keeps_kinds st (\<lambda>n. fst (dhcp_poll st h n))) \<and>
     (\<forall>a. keeps_kinds st (set_ip_addr st a)) \<and> (\<forall>a. keeps_kinds st (add_default_route st a))"

named_theorems kinds \<open>the sockets held after an operation of the stack\<close>

lemma stack_kinds [kinds]:
  assumes "stack_ok st"
  shows "kind_of st (remove_socket st h n) = (kind_of st n)(h := None)"
    and "kind_of st (fst (tcp_listen st h ep n)) = kind_of st n"
    and "kind_of st (fst (tcp_connect st h e p n)) = kind_of st n"
    and "kind_of st (set_nagle_enabled st h b n) = kind_of st n"
    and "kind_of st (tcp_close st h n) = kind_of st n"
    and "kind_of st (tcp_abort st h n) = kind_of st n"
    and "kind_of st (fst (tcp_send_slice st h bs n)) = kind_of st n"
    and "kind_of st (fst (tcp_recv_slice st h l n)) = kind_of st n"
    and "kind_of st (fst (udp_bind st h ep n)) = kind_of st n"
    and "kind_of st (udp_close st h n) = kind_of st n"
    and "kind_of st (fst (udp_send_slice st h bs e n)) = kind_of st n"
    and "kind_of st (fst (udp_recv st h n)) = kind_of st n"
    and "kind_of st (iface_poll st t n) = kind_of st n"
    and "kind_of st (fst (dhcp_poll st h n)) = kind_of st n"
    and "kind_of st (set_ip_addr st a n) = kind_of st n"
    and "kind_of st (add_default_route st a n) = kind_of st n"
  using assms by (simp_all add: stack_ok_def keeps_kinds_def del: split_paired_All)

lemma add_kinds:
  assumes "stack_ok st"
  shows "add_tcp st r t n = (n', h) \<Longrightarrow> kind_of st n h = None \<and> kind_of st n' = (kind_of st n)(h \<mapsto> KTcp)"
    and "add_udp st n = (n', h) \<Longrightarrow> kind_of st n h = None \<and> kind_of st n' = (kind_of st n)(h \<mapsto> KUdp)"
  using assms unfolding stack_ok_def adds_kind_def by (metis fst_conv snd_conv)+

lemma fst_kinds:
  assumes "stack_ok st"
  shows "tcp_listen st h ep n = (n', b) \<Longrightarrow> kind_of st n' = kind_of st n"
    and "tcp_connect st h e p n = (n', b) \<Longrightarrow> kind_of st n' = kind_of st n"
    and "udp_bind st h ep n = (n', b) \<Longrightarrow> kind_of st n' = kind_of st n"
    and "dhcp_poll st h n = (n', ev) \<Longrightarrow> kind_of st n' = kind_of st n"
    and "tcp_send_slice st h bs n = (n', sent) \<Longrightarrow> kind_of st n' = kind_of st n"
    and "tcp_recv_slice st h l n = (n', got) \<Longrightarrow> kind_of st n' = kind_of st n"
    and "udp_send_slice st h bs e n = (n', res) \<Longrightarrow> kind_of st n' = kind_of st n"
    and "udp_recv st h n = (n', dg) \<Longrightarrow> kind_of st n' = kind_of st n"
  using stack_kinds [OF assms] by (metis fst_conv)+

section \<open>Claims\<close>

type_synonym claim = "nat \<times> sock_kind"

definition kind_for :: "SockType \<Rightarrow> sock_kind" where
  "kind_for t = (if t = UdpDgram then KUdp else KTcp)"

definition sock_claims :: "socket \<Rightarrow> claim multiset" where
  "sock_claims x = mset (map (\<lambda>h. (h, kind_for (sock_type x))) (handle x # backlog x))"

definition tcp_claims :: "nat list \<Rightarrow> claim multiset" where
  "tcp_claims hs = mset (map (\<lambda>h. (h, KTcp)) hs)"

definition table_claims :: "socket list \<Rightarrow> claim multiset" where
  "table_claims xs = sum_list (map sock_claims xs)"

abbreviation closing_claims :: "'n socket_layer \<Rightarrow> claim multiset" where
  "closing_claims s \<equiv> tcp_claims (map fst (CLOSING_HANDLES s))"

text \<open>
  Every claim is met by a socket of that kind and no two claims meet; with \<open>tight\<close>, no socket is
  without a claim.
\<close>

definition owns :: "bool \<Rightarrow> (nat \<Rightarrow> sock_kind option) \<Rightarrow> nat option \<Rightarrow> claim multiset \<Rightarrow> bool" where
  "owns tight K d C \<longleftrightarrow>
     (\<forall>h k. (h, k) \<in># C \<longrightarrow> K h = Some k \<and> k \<noteq> KDhcp) \<and> (\<forall>h k. count C (h, k) \<le> 1) \<and>
     (\<forall>h. d = Some h \<longrightarrow> K h = Some KDhcp) \<and>
     (tight \<longrightarrow> (\<forall>h k. K h = Some k \<longrightarrow> k \<noteq> KDhcp \<longrightarrow> (h, k) \<in># C))"

lemma owns_empty:
  "owns tight Map.empty None {#}" "owns tight [h \<mapsto> KDhcp] (Some h) {#}"
  by (auto simp: owns_def split: if_splits)

lemma ownsD: "owns tight K d (add_mset (h, k) C) \<Longrightarrow> K h = Some k"
  by (simp add: owns_def)

lemma owns_dhcp: "owns tight K (Some h) C \<Longrightarrow> K h = Some KDhcp"
  by (simp add: owns_def)

lemma ownsI:
  assumes "\<And>h k. (h, k) \<in># C \<Longrightarrow> K h = Some k" "\<And>h k. (h, k) \<in># C \<Longrightarrow> k \<noteq> KDhcp" "\<And>h k. count C (h, k) \<le> 1"
    and "\<And>h. d = Some h \<Longrightarrow> K h = Some KDhcp"
    and "\<And>h k. tight \<Longrightarrow> K h = Some k \<Longrightarrow> k \<noteq> KDhcp \<Longrightarrow> (h, k) \<in># C"
  shows "owns tight K d C"
  unfolding owns_def using assms by blast

lemma ownsE:
  assumes "owns tight K d C"
  shows "\<And>h k. (h, k) \<in># C \<Longrightarrow> K h = Some k" "\<And>h k. (h, k) \<in># C \<Longrightarrow> k \<noteq> KDhcp" "\<And>h k. count C (h, k) \<le> 1"
    and "\<And>h. d = Some h \<Longrightarrow> K h = Some KDhcp"
    and "\<And>h k. tight \<Longrightarrow> K h = Some k \<Longrightarrow> k \<noteq> KDhcp \<Longrightarrow> (h, k) \<in># C"
  using assms unfolding owns_def by blast+

lemma owns_add:
  assumes C: "owns tight K d C" and h: "K h = None" and k: "k \<noteq> KDhcp"
  shows "owns tight (K(h \<mapsto> k)) d (add_mset (h, k) C)"
proof (rule ownsI)
  have out: "(h, k') \<notin># C" for k' using ownsE(1) [OF C, of h k'] h by auto
  fix h' k'
  show "(h', k') \<in># add_mset (h, k) C \<Longrightarrow> (K(h \<mapsto> k)) h' = Some k'"
    using ownsE(1) [OF C, of h' k'] out by (cases "h' = h") auto
  show "(h', k') \<in># add_mset (h, k) C \<Longrightarrow> k' \<noteq> KDhcp"
    using ownsE(2) [OF C, of h' k'] k by auto
  show "count (add_mset (h, k) C) (h', k') \<le> 1"
    using ownsE(3) [OF C, of h' k'] out [of k] by (auto simp: not_in_iff)
  show "d = Some h' \<Longrightarrow> (K(h \<mapsto> k)) h' = Some KDhcp"
    using ownsE(4) [OF C, of h'] h by auto
  show "tight \<Longrightarrow> (K(h \<mapsto> k)) h' = Some k' \<Longrightarrow> k' \<noteq> KDhcp \<Longrightarrow> (h', k') \<in># add_mset (h, k) C"
    using ownsE(5) [OF C, of h' k'] by (cases "h' = h") auto
qed

lemma owns_remove:
  assumes C: "owns tight K d (add_mset (h, k) C)"
  shows "owns tight (K(h := None)) d C"
proof (rule ownsI)
  have kh: "K h = Some k" "k \<noteq> KDhcp" using ownsE(1,2) [OF C, of h k] by auto
  have out: "(h, k') \<notin># C" for k'
  proof
    assume in_C: "(h, k') \<in># C"
    then have "k' = k" using ownsE(1) [OF C, of h k'] kh by auto
    then have "(h, k) \<in># C" using in_C by simp
    then have "0 < count C (h, k)" by (rule count_greater_zero_iff [THEN iffD2])
    moreover have "Suc (count C (h, k)) \<le> 1" using ownsE(3) [OF C, of h k] by (simp only: count_add_mset simp_thms if_True)
    ultimately show False by linarith
  qed
  fix h' k'
  show "(h', k') \<in># C \<Longrightarrow> (K(h := None)) h' = Some k'"
    using ownsE(1) [OF C, of h' k'] out by (cases "h' = h") auto
  show "(h', k') \<in># C \<Longrightarrow> k' \<noteq> KDhcp"
    using ownsE(2) [OF C, of h' k'] by auto
  show "count C (h', k') \<le> 1"
    using ownsE(3) [OF C, of h' k'] by (auto split: if_splits)
  show "d = Some h' \<Longrightarrow> (K(h := None)) h' = Some KDhcp"
    using ownsE(4) [OF C, of h'] kh by (cases "h' = h") auto
  show "tight \<Longrightarrow> (K(h := None)) h' = Some k' \<Longrightarrow> k' \<noteq> KDhcp \<Longrightarrow> (h', k') \<in># C"
    using ownsE(5) [OF C, of h' k'] by (cases "h' = h") auto
qed

lemma owns_drop:
  assumes C: "owns False K d (C + D)"
  shows "owns False K d C"
proof (rule ownsI)
  fix h k
  show "(h, k) \<in># C \<Longrightarrow> K h = Some k" "(h, k) \<in># C \<Longrightarrow> k \<noteq> KDhcp" "d = Some h \<Longrightarrow> K h = Some KDhcp"
    using ownsE(1,2,4) [OF C] by auto
  show "count C (h, k) \<le> 1" using ownsE(3) [OF C, of h k] by simp
qed simp

lemma mset_remove_at: "i < length xs \<Longrightarrow> mset xs = add_mset (xs ! i) (mset (remove_at i xs))"
  using arg_cong [OF id_take_nth_drop [of i xs], of mset] by (simp add: remove_at_def)

lemma mset_swap_remove:
  assumes i: "i < length xs"
  shows "mset xs = add_mset (xs ! i) (mset (swap_remove i xs))"
proof -
  obtain ys y where xs: "xs = ys @ [y]"
    using i by (cases xs rule: rev_cases) auto
  show ?thesis
  proof (cases "i = length ys")
    case True
    then show ?thesis by (simp add: xs swap_remove_def)
  next
    case False
    then have j: "i < length ys" using i by (simp add: xs)
    then have "mset (swap_remove i xs) = add_mset y (mset (remove_at i ys))"
      by (simp add: xs swap_remove_def list_update_append butlast_append upd_conv_take_nth_drop remove_at_def)
    then show ?thesis
      using j mset_remove_at [OF j] by (simp add: xs nth_append)
  qed
qed

section \<open>The invariant\<close>

definition held :: "bool \<Rightarrow> 'n smoltcp \<Rightarrow> 'n socket_layer \<Rightarrow> claim multiset \<Rightarrow> bool" where
  "held tight st s C \<longleftrightarrow> (\<exists>n. NET_STATE s = Some n \<and> owns tight (kind_of st n) (DHCP_HANDLE s) C)"

definition claims :: "nat list \<Rightarrow> 'n socket_layer \<Rightarrow> claim multiset" where
  "claims P s = table_claims (SOCKETS s) + closing_claims s + tcp_claims P"

text \<open>
  Descriptors: open ones and recycled ones are distinct, and together they are all the numbers
  handed out so far.
\<close>

definition fds_ok :: "'n socket_layer \<Rightarrow> bool" where
  "fds_ok s \<longleftrightarrow>
     distinct (map s_fd (SOCKETS s) @ RECYCLED_FDS s) \<and> NEXT_SOCK_FD s \<le> 2147483647 \<and> SOCK_FD_BASE \<le> NEXT_SOCK_FD s \<and>
     set (map s_fd (SOCKETS s)) \<union> set (RECYCLED_FDS s) = {SOCK_FD_BASE ..< NEXT_SOCK_FD s}"

definition no_spare :: "socket list \<Rightarrow> bool" where
  "no_spare xs \<longleftrightarrow> (\<forall>x\<in>set xs. sock_type x \<noteq> TcpListener \<longrightarrow> backlog x = [])"

definition layer_inv :: "bool \<Rightarrow> 'n smoltcp \<Rightarrow> nat list \<Rightarrow> 'n socket_layer \<Rightarrow> bool" where
  "layer_inv tight st P s \<longleftrightarrow> held tight st s (claims P s) \<and> fds_ok s \<and> (tight \<longrightarrow> no_spare (SOCKETS s))"

lemma table_claims_simps [simp]:
  "table_claims [] = {#}" "table_claims (x # xs) = sock_claims x + table_claims xs"
  "table_claims (xs @ ys) = table_claims xs + table_claims ys"
  by (simp_all add: table_claims_def)

lemma tcp_claims_simps [simp]:
  "tcp_claims [] = {#}" "tcp_claims (h # hs) = add_mset (h, KTcp) (tcp_claims hs)"
  "tcp_claims (hs @ gs) = tcp_claims hs + tcp_claims gs"
  by (simp_all add: tcp_claims_def)

text \<open>
  A step that leaves the descriptor table alone and keeps ownership, whatever the claims outside the
  list of closing connections are.
\<close>

definition safe_step :: "'n smoltcp \<Rightarrow> 'n socket_layer \<Rightarrow> 'n socket_layer \<Rightarrow> bool" where
  "safe_step st s s' \<longleftrightarrow>
     SOCKETS s' = SOCKETS s \<and> RECYCLED_FDS s' = RECYCLED_FDS s \<and> NEXT_SOCK_FD s' = NEXT_SOCK_FD s \<and>
     (\<forall>tight C. held tight st s (closing_claims s + C) \<longrightarrow> held tight st s' (closing_claims s' + C))"

lemma safe_step_refl [simp]: "safe_step st s s"
  by (simp add: safe_step_def)

lemma safe_step_trans: "safe_step st s s1 \<Longrightarrow> safe_step st s1 s2 \<Longrightarrow> safe_step st s s2"
  by (simp add: safe_step_def)

lemma safe_step_quiet:
  assumes "SOCKETS s' = SOCKETS s" "RECYCLED_FDS s' = RECYCLED_FDS s" "NEXT_SOCK_FD s' = NEXT_SOCK_FD s"
    and "CLOSING_HANDLES s' = CLOSING_HANDLES s" "DHCP_HANDLE s' = DHCP_HANDLE s"
    and "map_option (kind_of st) (NET_STATE s') = map_option (kind_of st) (NET_STATE s)"
  shows "safe_step st s s'"
proof -
  have "held tight st s' C" if "held tight st s C" for tight C
    using that assms(5,6) by (auto simp: held_def map_option_case split: option.splits)
  then show ?thesis using assms by (simp add: safe_step_def)
qed

definition same_owner :: "socket \<Rightarrow> socket \<Rightarrow> bool" where
  "same_owner x x' \<longleftrightarrow>
     s_fd x' = s_fd x \<and> handle x' = handle x \<and> backlog x' = backlog x \<and> kind_for (sock_type x') = kind_for (sock_type x)"

lemma same_owner_claims: "same_owner x x' \<Longrightarrow> sock_claims x' = sock_claims x"
  by (simp add: same_owner_def sock_claims_def)

lemma same_owner_refl [simp]: "same_owner x x"
  by (simp add: same_owner_def)

section \<open>Running an operation on one descriptor\<close>

lemma with_socket_elim:
  assumes "with_socket fd f s = Some (s', r)"
  obtains (none) "fd \<notin> s_fd ` set (SOCKETS s)" "s' = s" "r = None"
  | (some) A x B x' s1 r1 where "SOCKETS s = A @ x # B" "s_fd x = fd" "f x s = Some (x', s1, r1)"
      "s' = s1\<lparr>SOCKETS := (SOCKETS s1)[length A := x']\<rparr>" "r = Some r1"
proof (cases "position (\<lambda>x. s_fd x = fd) (SOCKETS s)")
  case None
  then have "fd \<notin> s_fd ` set (SOCKETS s)" by (auto simp: position_None_iff)
  moreover have "s' = s \<and> r = None" using None assms by (auto simp: with_socket_def)
  ultimately show ?thesis using none by blast
next
  case (Some i)
  then have i: "i < length (SOCKETS s)" "s_fd (SOCKETS s ! i) = fd" using position_SomeD [OF Some] by auto
  obtain x' s1 r1 where f: "f (SOCKETS s ! i) s = Some (x', s1, r1)"
    "s' = s1\<lparr>SOCKETS := (SOCKETS s1)[i := x']\<rparr>" "r = Some r1"
    using assms Some by (auto simp: with_socket_def bind_eq_Some_conv)
  show ?thesis
  proof (rule some)
    show "SOCKETS s = take i (SOCKETS s) @ SOCKETS s ! i # drop (Suc i) (SOCKETS s)"
      using i(1) by (rule id_take_nth_drop)
    show "s' = s1\<lparr>SOCKETS := (SOCKETS s1)[length (take i (SOCKETS s)) := x']\<rparr>" using f(2) i(1) by (simp add: min_absorb2)
  qed (fact i(2) f(1) f(3))+
qed

lemma fds_ok_cong:
  assumes "fds_ok s" "map s_fd (SOCKETS s') = map s_fd (SOCKETS s)" "RECYCLED_FDS s' = RECYCLED_FDS s" "NEXT_SOCK_FD s' = NEXT_SOCK_FD s"
  shows "fds_ok s'"
  using assms(1) unfolding fds_ok_def assms(2-4) .

lemma held_more [simp]: "held tight st (s\<lparr>SOCKETS := xs\<rparr>) C = held tight st s C"
  by (simp add: held_def)

definition table_kept :: "'n socket_layer \<Rightarrow> 'n socket_layer \<Rightarrow> bool" where
  "table_kept s s' \<longleftrightarrow> SOCKETS s' = SOCKETS s \<and> RECYCLED_FDS s' = RECYCLED_FDS s \<and> NEXT_SOCK_FD s' = NEXT_SOCK_FD s"

text \<open>
  The rule for every call on a descriptor: it may replace the descriptor's claims by others and hand
  out the handles \<open>Q r\<close>, as long as the claims that result are met.
\<close>

lemma with_socket_inv:
  assumes inv: "layer_inv tight st P s" and run: "with_socket fd f s = Some (s', r)"
    and f: "\<And>x x' s1 r1 C. x \<in> set (SOCKETS s) \<Longrightarrow> s_fd x = fd \<Longrightarrow> f x s = Some (x', s1, r1) \<Longrightarrow>
              held tight st s (sock_claims x + (closing_claims s + C)) \<Longrightarrow>
              held tight st s1 (sock_claims x' + (closing_claims s1 + (tcp_claims (Q r1) + C))) \<and> table_kept s s1 \<and>
              s_fd x' = s_fd x \<and> (tight \<longrightarrow> sock_type x' \<noteq> TcpListener \<longrightarrow> backlog x' = [])"
  shows "layer_inv tight st ((case r of None \<Rightarrow> [] | Some v \<Rightarrow> Q v) @ P) s'"
  using run
proof (cases rule: with_socket_elim)
  case none
  then show ?thesis using inv by simp
next
  case (some A x B x' s1 r1)
  define C where "C = table_claims (A @ B) + tcp_claims P"
  have "held tight st s (sock_claims x + (closing_claims s + C))"
    using inv some(1) by (simp add: layer_inv_def claims_def C_def ac_simps)
  then have held1: "held tight st s1 (sock_claims x' + (closing_claims s1 + (tcp_claims (Q r1) + C)))"
    and kept: "table_kept s s1" and own: "s_fd x' = s_fd x"
    and ty: "tight \<longrightarrow> sock_type x' \<noteq> TcpListener \<longrightarrow> backlog x' = []"
    using f [OF _ some(2,3)] some(1) by auto
  have tab: "SOCKETS s' = A @ x' # B" using kept some(1,4) by (simp add: table_kept_def)
  have held: "held tight st s' (claims (Q r1 @ P) s')"
    using held1 tab some(4) by (simp add: claims_def C_def ac_simps)
  have fds: "fds_ok s'"
  proof (rule fds_ok_cong)
    show "fds_ok s" using inv by (simp add: layer_inv_def)
    show "map s_fd (SOCKETS s') = map s_fd (SOCKETS s)" using tab some(1) own by simp
    show "RECYCLED_FDS s' = RECYCLED_FDS s" "NEXT_SOCK_FD s' = NEXT_SOCK_FD s"
      using kept some(4) by (simp_all add: table_kept_def)
  qed
  have spare: "tight \<longrightarrow> no_spare (SOCKETS s')"
    using inv ty some(1) by (auto simp: layer_inv_def no_spare_def tab)
  show ?thesis using held fds spare some(5) by (simp add: layer_inv_def)
qed

text \<open>Its special case, the calls whose effect on ownership is that of a safe step.\<close>

lemma with_socket_safe:
  assumes inv: "layer_inv tight st P s" and run: "with_socket fd f s = Some (s', r)"
    and f: "\<And>x x' s1 r1. x \<in> set (SOCKETS s) \<Longrightarrow> s_fd x = fd \<Longrightarrow> f x s = Some (x', s1, r1) \<Longrightarrow>
              same_owner x x' \<and> safe_step st s s1 \<and> (tight \<longrightarrow> sock_type x = TcpListener \<longrightarrow> sock_type x' = TcpListener)"
  shows "layer_inv tight st P s'"
proof -
  have "layer_inv tight st ((case r of None \<Rightarrow> [] | Some v \<Rightarrow> (\<lambda>_. []) v) @ P) s'"
  proof (rule with_socket_inv [OF inv run])
    fix x x' s1 r1 C
    assume x: "x \<in> set (SOCKETS s)" "s_fd x = fd" and run1: "f x s = Some (x', s1, r1)"
      and held: "held tight st s (sock_claims x + (closing_claims s + C))"
    note step = f [OF x run1]
    have "held tight st s (closing_claims s + (sock_claims x' + C))"
      using held by (simp add: same_owner_claims [OF conjunct1 [OF step]] ac_simps)
    then have "held tight st s1 (closing_claims s1 + (sock_claims x' + C))"
      using step unfolding safe_step_def by blast
    moreover have "tight \<longrightarrow> sock_type x' \<noteq> TcpListener \<longrightarrow> backlog x' = []"
      using inv x(1) step by (auto simp: layer_inv_def no_spare_def same_owner_def)
    ultimately show "held tight st s1 (sock_claims x' + (closing_claims s1 + (tcp_claims [] + C))) \<and> table_kept s s1 \<and>
        s_fd x' = s_fd x \<and> (tight \<longrightarrow> sock_type x' \<noteq> TcpListener \<longrightarrow> backlog x' = [])"
      using step by (simp add: table_kept_def safe_step_def same_owner_def ac_simps)
  qed
  then show ?thesis by (cases r) simp_all
qed

section \<open>The building blocks\<close>

lemma with_net_Some:
  "with_net f s = Some (s', r) \<longleftrightarrow> (\<exists>n n'. NET_STATE s = Some n \<and> f n = Some (n', r) \<and> s' = s\<lparr>NET_STATE := Some n'\<rparr>)"
  by (auto simp: with_net_def bind_eq_Some_conv)

lemma on_kind_Some [simp]: "on_kind st k h n r = Some v \<longleftrightarrow> kind_of st n h = Some k \<and> r = Some v"
  by (simp add: on_kind_def)

lemma on_kind_None [simp]: "on_kind st k h n r = None \<longleftrightarrow> kind_of st n h \<noteq> Some k \<or> r = None"
  by (simp add: on_kind_def)

lemma safe_net:
  "NET_STATE s = Some n \<Longrightarrow> kind_of st n' = kind_of st n \<Longrightarrow> safe_step st s (s\<lparr>NET_STATE := Some n'\<rparr>)"
  by (rule safe_step_quiet) simp_all

lemma with_net_safe:
  assumes "with_net f s = Some (s', r)" "\<And>n n'. f n = Some (n', r) \<Longrightarrow> kind_of st n' = kind_of st n"
  shows "safe_step st s s'"
proof -
  obtain n n' where n: "NET_STATE s = Some n" "f n = Some (n', r)" and s': "s' = s\<lparr>NET_STATE := Some n'\<rparr>"
    using assms(1) unfolding with_net_Some by blast
  show ?thesis unfolding s' by (rule safe_net [OF n(1) assms(2) [OF n(2)]])
qed

lemma ephemeral_safe: "alloc_ephemeral_port s = (s', p) \<Longrightarrow> safe_step st s s'"
  by (rule safe_step_quiet) (auto simp: alloc_ephemeral_port_def Let_def)

lemma alloc_ephemeral_port_fields:
  "alloc_ephemeral_port s = (s', p) \<Longrightarrow> NET_STATE s' = NET_STATE s \<and> SOCKETS s' = SOCKETS s"
  by (auto simp: alloc_ephemeral_port_def Let_def)

lemma gc_loop_owns:
  "stack_ok st \<Longrightarrow> owns tight (kind_of st n) d (tcp_claims (map fst closing) + C) \<Longrightarrow>
    \<exists>n' closing'. gc_loop st now i closing n = Some (n', closing') \<and> owns tight (kind_of st n') d (tcp_claims (map fst closing') + C)"
proof (induction st now i closing n rule: gc_loop.induct)
  case (1 st now i closing n)
  note st = \<open>stack_ok st\<close> and own = \<open>owns tight (kind_of st n) d (tcp_claims (map fst closing) + C)\<close>
  show ?case
  proof (cases "i < length closing")
    case False
    then show ?thesis using own by (simp add: gc_loop.simps [of st now i closing n])
  next
    case True
    obtain h t0 where e: "closing ! i = (h, t0)" by fastforce
    define t where "t = tcp_state_of st n h"
    define fin where "fin = (t = Closed \<or> t = TimeWait)"
    define stranded where "stranded = (\<not> fin \<and> CLOSING_REAP_MS \<le> wrapping_sub now t0)"
    define n1 where "n1 = (if stranded then tcp_abort st h n else n)"
    have kn1: "kind_of st n1 = kind_of st n" by (simp add: n1_def stack_kinds [OF st])
    have split: "tcp_claims (map fst closing) = add_mset (h, KTcp) (tcp_claims (map fst (swap_remove i closing)))"
      using arg_cong [OF mset_swap_remove [OF True], of "image_mset (\<lambda>x. (fst x, KTcp))"] e
      by (simp add: tcp_claims_def multiset.map_comp comp_def)
    have kh: "kind_of st n h = Some KTcp" using own by (simp add: split ownsD)
    have unf: "gc_loop st now i closing n =
        (if fin \<or> stranded then gc_loop st now i (swap_remove i closing) (remove_socket st h n1) else gc_loop st now (i + 1) closing n1)"
      using True kh by (auto simp: gc_loop.simps [of st now i closing n] e on_kind_def Let_def t_def fin_def stranded_def n1_def)
    show ?thesis
    proof (cases "fin \<or> stranded")
      case fs: True
      have "owns tight (kind_of st (remove_socket st h n1)) d (tcp_claims (map fst (swap_remove i closing)) + C)"
        using owns_remove own by (simp add: stack_kinds [OF st] kn1 split)
      from "1.IH"(1) [OF True e [symmetric] refl t_def fin_def stranded_def n1_def fs st this] show ?thesis
        unfolding unf using fs by simp
    next
      case fs: False
      have "owns tight (kind_of st n1) d (tcp_claims (map fst closing) + C)"
        using own by (simp add: kn1)
      from "1.IH"(2) [OF True e [symmetric] refl t_def fin_def stranded_def n1_def fs st this] show ?thesis
        unfolding unf using fs by simp
    qed
  qed
qed

end
