(* ===== verification/Socket_Steps.thy ===== *)
theory Socket_Steps
  imports Socket_Invariant
begin

text \<open>
  The effect of every operation of the socket layer on ownership, and when it panics: a group of
  lemmas \<open>_safe\<close> (the operation is a safe step that keeps its descriptor's claims) and a group
  \<open>_total\<close> (it does not panic on a descriptor whose claims are met).
\<close>

section \<open>Polling\<close>

lemma net_poll_fields:
  "net_poll st now s = Some s' \<Longrightarrow>
   SOCKETS s' = SOCKETS s \<and> RECYCLED_FDS s' = RECYCLED_FDS s \<and> NEXT_SOCK_FD s' = NEXT_SOCK_FD s \<and> DHCP_HANDLE s' = DHCP_HANDLE s"
  by (auto simp: net_poll_def gc_closed_handles_def Let_def bind_eq_Some_conv split: option.splits prod.splits dhcp_event.splits)

lemma gc_closed_handles_held:
  assumes st: "stack_ok st" and held: "held tight st s (closing_claims s + C)"
  obtains s' where "gc_closed_handles st now s = Some s'" "held tight st s' (closing_claims s' + C)"
proof -
  obtain n where n: "NET_STATE s = Some n" "owns tight (kind_of st n) (DHCP_HANDLE s) (closing_claims s + C)"
    using held unfolding held_def by blast
  obtain n' closing' where gc: "gc_loop st now 0 (CLOSING_HANDLES s) n = Some (n', closing')"
    and own: "owns tight (kind_of st n') (DHCP_HANDLE s) (tcp_claims (map fst closing') + C)"
    using gc_loop_owns [OF st n(2)] by blast
  show ?thesis
    using that [of "s\<lparr>NET_STATE := Some n', CLOSING_HANDLES := closing'\<rparr>"] n gc own
    by (simp add: gc_closed_handles_def held_def)
qed

lemma apply_lease_kinds: "stack_ok st \<Longrightarrow> kind_of st (apply_lease st a r n) = kind_of st n"
  by (simp add: apply_lease_def Let_def stack_kinds split: option.split)

text \<open>The state in which the poll collects the closed connections.\<close>

lemma net_poll_gc:
  assumes st: "stack_ok st" and held: "held tight st s (closing_claims s + C)"
  obtains s1 where "net_poll st now s = gc_closed_handles st now s1" "held tight st s1 (closing_claims s1 + C)"
proof -
  obtain n where n: "NET_STATE s = Some n" "owns tight (kind_of st n) (DHCP_HANDLE s) (closing_claims s + C)"
    using held unfolding held_def by blast
  define n1 where "n1 = iface_poll st now n"
  have k1: "kind_of st n1 = kind_of st n" by (simp add: n1_def stack_kinds [OF st])
  show ?thesis
  proof (cases "DHCP_HANDLE s")
    case None
    show ?thesis
      using that [of "s\<lparr>NET_STATE := Some n1\<rparr>"] n None k1 by (simp add: net_poll_def Let_def n1_def held_def)
  next
    case (Some h)
    have kh: "kind_of st n1 h = Some KDhcp" using owns_dhcp n(2) Some k1 by simp
    obtain n2 ev where p: "dhcp_poll st h n1 = (n2, ev)" by fastforce
    have k2: "kind_of st n2 = kind_of st n" using fst_kinds(4) [OF st p] k1 by simp
    show ?thesis
    proof (cases "\<exists>a r ds. ev = Some (Configured a r ds)")
      case True
      then obtain a r ds where ev: "ev = Some (Configured a r ds)" by blast
      show ?thesis
        using that [of "s\<lparr>NET_STATE := Some (apply_lease st a r n2), DNS_SERVERS := ds\<rparr>"] n Some k1 k2 kh p ev
        by (simp add: net_poll_def Let_def n1_def [symmetric] held_def on_kind_def apply_lease_kinds [OF st])
    next
      case False
      then have "net_poll st now s = gc_closed_handles st now (s\<lparr>NET_STATE := Some n2\<rparr>)"
        using n Some kh p by (auto simp: net_poll_def Let_def n1_def [symmetric] on_kind_def split: option.split dhcp_event.split)
      then show ?thesis using that [of "s\<lparr>NET_STATE := Some n2\<rparr>"] n k2 by (simp add: held_def)
    qed
  qed
qed

lemma net_poll_held:
  assumes st: "stack_ok st" and held: "held tight st s (closing_claims s + C)"
  obtains s' where "net_poll st now s = Some s'" "held tight st s' (closing_claims s' + C)"
proof -
  obtain s1 where s1: "net_poll st now s = gc_closed_handles st now s1" "held tight st s1 (closing_claims s1 + C)"
    using net_poll_gc [OF st held] by blast
  obtain s' where "gc_closed_handles st now s1 = Some s'" "held tight st s' (closing_claims s' + C)"
    using gc_closed_handles_held [OF st s1(2)] by blast
  then show ?thesis using that s1(1) by simp
qed

lemma net_poll_safe:
  assumes st: "stack_ok st" and run: "net_poll st now s = Some s'"
  shows "safe_step st s s'"
  unfolding safe_step_def
proof (intro conjI allI impI)
  fix tight C assume "held tight st s (closing_claims s + C)"
  then show "held tight st s' (closing_claims s' + C)"
    using net_poll_held [OF st, of tight s C now] run by (metis option.sel)
qed (use net_poll_fields [OF run] in simp_all)

section \<open>Operations on one descriptor\<close>

lemma udp_autobind_safe:
  assumes st: "stack_ok st" and run: "udp_autobind st x s = Some (x', s')"
  shows "same_owner x x' \<and> safe_step st s s' \<and> sock_type x' = sock_type x"
proof (cases "local_port x = 0")
  case False
  then show ?thesis using run by (simp add: udp_autobind_def)
next
  case True
  obtain s1 p where a: "alloc_ephemeral_port s = (s1, p)" by fastforce
  obtain u where b: "with_net (\<lambda>n. on_udp st (handle x) n (Some (fst (udp_bind st (handle x) (None, p) n), ()))) s1 = Some (s', u)"
    and x': "x' = x\<lparr>local_port := p\<rparr>"
    using run True a by (auto simp: udp_autobind_def bind_eq_Some_conv)
  have "safe_step st s1 s'"
    using b by (rule with_net_safe) (auto simp: stack_kinds [OF st])
  then show ?thesis
    using safe_step_trans [OF ephemeral_safe [OF a]] by (simp add: x' same_owner_def)
qed

lemma connect_socket_safe:
  assumes st: "stack_ok st" and run: "connect_socket st remote x s = Some (x', s', r)"
  shows "same_owner x x' \<and> safe_step st s s'"
proof (cases "sock_type x = UdpDgram")
  case True
  then obtain x1 where "udp_autobind st (x\<lparr>udp_peer := Some remote\<rparr>) s = Some (x', s')"
    using run by (auto simp: connect_socket_def bind_eq_Some_conv)
  from udp_autobind_safe [OF st this] show ?thesis by (simp add: same_owner_def)
next
  case False
  define q where "q = (if local_port x \<noteq> 0 then (s, local_port x) else alloc_ephemeral_port s)"
  obtain s1 port where sp: "q = (s1, port)" by fastforce
  then have s1: "safe_step st s s1" using ephemeral_safe by (auto simp: q_def split: if_splits)
  obtain ok where net: "with_net (\<lambda>n. on_tcp st (handle x) n
      (Some (tcp_connect st (handle x) remote port (set_nagle_enabled st (handle x) False n)))) s1 = Some (s', ok)"
    and own: "same_owner x x'"
    using run False unfolding connect_socket_def q_def [symmetric] sp
    by (auto simp: bind_eq_Some_conv same_owner_def kind_for_def Let_def split: if_splits)
  have "safe_step st s1 s'"
    using net by (rule with_net_safe) (auto simp: stack_kinds [OF st] dest!: fst_kinds(2) [OF st])
  then show ?thesis using own safe_step_trans [OF s1] by blast
qed

lemma bind_socket_safe:
  assumes st: "stack_ok st" and run: "bind_socket st ep x s = Some (x', s', r)"
  shows "same_owner x x' \<and> safe_step st s s' \<and> sock_type x' = sock_type x"
proof -
  define q where "q = (if snd ep = 0 then alloc_ephemeral_port s else (s, snd ep))"
  obtain s1 port where sp: "q = (s1, port)" by fastforce
  then have s1: "safe_step st s s1" using ephemeral_safe by (auto simp: q_def split: if_splits)
  have x': "x' = x\<lparr>local_port := port, local_addr := fst ep\<rparr>"
    using run unfolding bind_socket_def q_def [symmetric] sp by (auto simp: bind_eq_Some_conv Let_def split: if_splits)
  have "safe_step st s1 s'"
  proof (cases "sock_type x = UdpDgram")
    case True
    then obtain ok where "with_net (\<lambda>n. on_udp st (handle x) n (Some (udp_bind st (handle x) (endpoint_of (fst ep) port) n))) s1 = Some (s', ok)"
      using run unfolding bind_socket_def q_def [symmetric] sp by (auto simp: bind_eq_Some_conv Let_def)
    then show ?thesis by (rule with_net_safe) (auto dest: fst_kinds(3) [OF st])
  next
    case False
    then show ?thesis using run unfolding bind_socket_def q_def [symmetric] sp by (simp add: Let_def)
  qed
  then show ?thesis using safe_step_trans [OF s1] by (simp add: x' same_owner_def)
qed

lemma net_only_safe:
  assumes "do { (s1, v) \<leftarrow> with_net f s; Some (x, s1, v) } = Some (x', s', r)"
    and "\<And>n n' v. f n = Some (n', v) \<Longrightarrow> kind_of st n' = kind_of st n"
  shows "same_owner x x' \<and> safe_step st s s' \<and> sock_type x' = sock_type x"
proof -
  have w: "with_net f s = Some (s', r)" and x': "x' = x"
    using assms(1) by (auto simp: bind_eq_Some_conv)
  have "safe_step st s s'" using w by (rule with_net_safe) (rule assms(2))
  then show ?thesis using x' by simp
qed

lemma send_socket_safe:
  assumes st: "stack_ok st" and run: "send_socket st now m buf len dest x s = Some (x', s', r)"
  shows "same_owner x x' \<and> safe_step st s s' \<and> sock_type x' = sock_type x"
proof (cases "sock_type x")
  case TcpStream
  show ?thesis
    apply (rule net_only_safe [OF run [unfolded send_socket_def TcpStream SockType.case]])
    subgoal for n n' v
      using stack_kinds(7) [OF st, of "handle x" "mem_read (ram m) buf len" n]
      by (cases "tcp_send_slice st (handle x) (mem_read (ram m) buf len) n") (auto split: if_splits option.splits)
    done
next
  case TcpListener
  then show ?thesis using run by (simp add: send_socket_def)
next
  case UdpDgram
  show ?thesis
  proof (cases "case dest of Some e \<Rightarrow> Some e | None \<Rightarrow> udp_peer x")
    case None
    then show ?thesis using run UdpDgram by (simp add: send_socket_def)
  next
    case (Some ep)
    obtain s1 s2 r' where a: "udp_autobind st x s = Some (x', s1)"
      and b: "with_net (\<lambda>n. on_udp st (handle x') n
                     (if \<not> user_accessible (pg m) buf len then Some (n, -14)
                      else (case udp_send_slice st (handle x') (mem_read (ram m) buf len) ep n of
                              (n1, Sent) \<Rightarrow> Some (n1, int len)
                            | (n1, BufferFull) \<Rightarrow> Some (n1, -11)
                            | (n1, SendFailed) \<Rightarrow> Some (n1, -22)))) s1 = Some (s2, r')"
      and c: "net_poll st now s2 = Some s'"
      using run UdpDgram Some by (auto simp: send_socket_def bind_eq_Some_conv)
    have "safe_step st s1 s2"
      using b
      apply (rule with_net_safe)
      subgoal for n n'
        using stack_kinds(11) [OF st, of "handle x'" "mem_read (ram m) buf len" ep n]
        by (cases "udp_send_slice st (handle x') (mem_read (ram m) buf len) ep n") (auto split: if_splits udp_send_result.splits)
      done
    then show ?thesis
      using udp_autobind_safe [OF st a] net_poll_safe [OF st c] safe_step_trans by blast
  qed
qed

lemma recv_socket_safe:
  assumes st: "stack_ok st" and run: "recv_socket st m buf len src al x s = Some (x', s', r)"
  shows "same_owner x x' \<and> safe_step st s s' \<and> sock_type x' = sock_type x"
proof (cases "sock_type x")
  case TcpListener
  then show ?thesis using run by (simp add: recv_socket_def)
next
  case TcpStream
  show ?thesis
    apply (rule net_only_safe [OF run [unfolded recv_socket_def TcpStream SockType.case]])
    subgoal for n n' v
      using stack_kinds(8) [OF st, of "handle x" len n]
      by (cases "tcp_recv_slice st (handle x) len n") (auto split: if_splits option.splits)
    done
next
  case UdpDgram
  show ?thesis
    apply (rule net_only_safe [OF run [unfolded recv_socket_def UdpDgram SockType.case]])
    subgoal for n n' v
      using stack_kinds(12) [OF st, of "handle x" n]
      by (cases "udp_recv st (handle x) n") (auto simp: Let_def split: if_splits option.splits sum.splits)
    done
qed

lemma connect_outcome_safe:
  "connect_outcome st x s = Some (x', s', r) \<Longrightarrow> same_owner x x' \<and> safe_step st s s' \<and> sock_type x' = sock_type x"
  by (auto simp: connect_outcome_def bind_eq_Some_conv same_owner_def split: if_splits)

lemma poll_one_safe:
  assumes run: "poll_one st x s = Some (x', s', r)"
  shows "same_owner x x' \<and> safe_step st s s' \<and> sock_type x' = sock_type x"
proof -
  obtain n where n: "NET_STATE s = Some n" using run by (auto simp: poll_one_def bind_eq_Some_conv)
  have eq: "x' = x \<and> s' = s \<or> x' = x\<lparr>connecting := False\<rparr> \<and> s' = s"
  proof (cases "sock_type x")
    case TcpStream
    show ?thesis
      using run unfolding poll_one_def n TcpStream by (auto simp: Let_def split: if_splits)
  next
    case TcpListener
    show ?thesis
      using run unfolding poll_one_def n TcpListener by (auto simp: bind_eq_Some_conv simp del: any_active.simps)
  next
    case UdpDgram
    show ?thesis using run unfolding poll_one_def n UdpDgram by auto
  qed
  show ?thesis using eq by (elim disjE conjE) (simp_all add: same_owner_def)
qed

section \<open>Listening\<close>

lemma owns_forget: "owns tight K d (D + C) \<Longrightarrow> (tight \<Longrightarrow> D = {#}) \<Longrightarrow> owns tight K d C"
  using owns_drop [of K d C D] by (cases tight) (simp_all add: add.commute)

lemma install_fresh_kinds:
  assumes st: "stack_ok st" and run: "install_fresh_listener st ep n = (n', h)"
  shows "kind_of st n h = None \<and> kind_of st n' = (kind_of st n)(h \<mapsto> KTcp)"
proof -
  obtain n1 g where add: "add_tcp st LISTENER_BUF_SIZE LISTENER_TX_BUF_SIZE n = (n1, g)" by fastforce
  then have "h = g" "n' = set_nagle_enabled st h False (fst (tcp_listen st h ep n1))"
    using run by (auto simp: install_fresh_listener_def)
  then show ?thesis using add_kinds(1) [OF st add] by (simp add: stack_kinds [OF st])
qed

lemma install_pool_owns:
  assumes st: "stack_ok st"
  shows "owns tight (kind_of st n) d C \<Longrightarrow> install_pool st ep k n = (n', hs) \<Longrightarrow>
    owns tight (kind_of st n') d (tcp_claims hs + C) \<and> length hs = k"
proof (induction k arbitrary: n n' C hs)
  case 0
  then show ?case by simp
next
  case (Suc k)
  obtain n1 h where a: "install_fresh_listener st ep n = (n1, h)" by fastforce
  obtain n2 gs where b: "install_pool st ep k n1 = (n2, gs)" by fastforce
  have r: "n' = n2" "hs = h # gs" using Suc.prems(2) a b by auto
  have "owns tight (kind_of st n1) d (add_mset (h, KTcp) C)"
    using owns_add [OF Suc.prems(1), of h KTcp] install_fresh_kinds [OF st a] by simp
  from Suc.IH [OF this b] show ?case by (simp add: r ac_simps)
qed

lemma tcp_sock_claims:
  "kind_for (sock_type x) = KTcp \<Longrightarrow> sock_claims x = add_mset (handle x, KTcp) (tcp_claims (backlog x))"
  by (simp add: sock_claims_def tcp_claims_def)

lemma owns_kind_for: "owns tight K d (sock_claims x + C) \<Longrightarrow> K (handle x) = Some (kind_for (sock_type x))"
  by (simp add: sock_claims_def ownsD)

lemma listen_socket_held:
  assumes st: "stack_ok st" and run: "listen_socket st x s = Some (x', s', r)"
    and held: "held tight st s (sock_claims x + (closing_claims s + C))" and spare: "tight \<Longrightarrow> backlog x = []"
  shows "held tight st s' (sock_claims x' + (closing_claims s' + C)) \<and> table_kept s s' \<and> s_fd x' = s_fd x \<and> sock_type x' = TcpListener"
proof -
  obtain n where n: "NET_STATE s = Some n" and own: "owns tight (kind_of st n) (DHCP_HANDLE s) (sock_claims x + (closing_claims s + C))"
    using held unfolding held_def by blast
  let ?ep = "endpoint_of (local_addr x) (local_port x)"
  obtain n1 ok where l: "tcp_listen st (handle x) ?ep n = (n1, ok)" by fastforce
  have kh: "kind_of st n (handle x) = Some KTcp"
    using run n by (auto simp: listen_socket_def Let_def with_net_def bind_eq_Some_conv)
  then have kf: "kind_for (sock_type x) = KTcp" using owns_kind_for [OF own] by simp
  have k1: "kind_of st n1 = kind_of st n" using fst_kinds(1) [OF st l] .
  show ?thesis
  proof (cases ok)
    case False
    then have eq: "x' = x\<lparr>sock_type := TcpListener\<rparr>" "s' = s\<lparr>NET_STATE := Some n1\<rparr>"
      using run n l kh by (auto simp: listen_socket_def Let_def with_net_def on_kind_def)
    have "sock_claims x' = sock_claims x" using kf by (simp add: eq sock_claims_def) (simp add: kind_for_def)
    then show ?thesis using n own k1 by (simp add: held_def eq(2) table_kept_def) (simp add: eq(1))
  next
    case True
    obtain n2 hs where p: "install_pool st ?ep (LISTENER_POOL_SIZE - 1) n1 = (n2, hs)" by fastforce
    have eq: "x' = x\<lparr>sock_type := TcpListener, backlog := hs\<rparr>" "s' = s\<lparr>NET_STATE := Some n2\<rparr>"
      using run n l kh True p by (auto simp: listen_socket_def Let_def with_net_def on_kind_def)
    have "owns tight (kind_of st n) (DHCP_HANDLE s) (tcp_claims (backlog x) + add_mset (handle x, KTcp) (closing_claims s + C))"
      using own by (simp add: tcp_sock_claims [OF kf] ac_simps)
    then have "owns tight (kind_of st n1) (DHCP_HANDLE s) (add_mset (handle x, KTcp) (closing_claims s + C))"
      unfolding k1 by (rule owns_forget) (simp add: spare)
    from install_pool_owns [OF st this p]
    have "owns tight (kind_of st n2) (DHCP_HANDLE s) (tcp_claims hs + add_mset (handle x, KTcp) (closing_claims s + C))" by simp
    moreover have "sock_claims x' = add_mset (handle x, KTcp) (tcp_claims hs)"
      by (simp add: eq(1) tcp_sock_claims kind_for_def)
    ultimately have "owns tight (kind_of st n2) (DHCP_HANDLE s) (sock_claims x' + (closing_claims s + C))"
      by (simp add: ac_simps)
    then show ?thesis by (simp add: held_def eq(2) table_kept_def) (simp add: eq(1))
  qed
qed

section \<open>Accepting\<close>

text \<open>A capture takes handle \<open>h\<close> out of the pool and puts the fresh listener \<open>g\<close> in its place.\<close>

definition captures :: "'n smoltcp \<Rightarrow> nat \<Rightarrow> 'n \<Rightarrow> 'n \<Rightarrow> nat \<Rightarrow> nat \<Rightarrow> bool" where
  "captures st free n n' h g \<longleftrightarrow>
     ACCEPT_HEAP_RESERVE \<le> free \<and> connected (tcp_state_of st n h) \<and>
     kind_of st n g = None \<and> kind_of st n' = (kind_of st n)(g \<mapsto> KTcp)"

lemma capture_slot_cases:
  assumes st: "stack_ok st"
  shows "capture_slot st free ep h n = (n', None) \<Longrightarrow> kind_of st n' = kind_of st n \<and> free < ACCEPT_HEAP_RESERVE"
    and "capture_slot st free ep h n = (n', Some (a, g, rem)) \<Longrightarrow> connected (tcp_state_of st n h) \<Longrightarrow>
      captures st free n n' h g \<and> a = h \<and> rem = remote_endpoint st n h"
proof -
  assume run: "capture_slot st free ep h n = (n', None)"
  then have "free < ACCEPT_HEAP_RESERVE" "n' = fst (tcp_listen st h ep (tcp_abort st h n))"
    by (auto simp: capture_slot_def split: if_splits prod.splits)
  then show "kind_of st n' = kind_of st n \<and> free < ACCEPT_HEAP_RESERVE" by (simp add: stack_kinds [OF st])
next
  assume run: "capture_slot st free ep h n = (n', Some (a, g, rem))" and con: "connected (tcp_state_of st n h)"
  then have "\<not> free < ACCEPT_HEAP_RESERVE" "install_fresh_listener st ep n = (n', g)" "a = h" "rem = remote_endpoint st n h"
    by (auto simp: capture_slot_def split: if_splits prod.splits)
  then show "captures st free n n' h g \<and> a = h \<and> rem = remote_endpoint st n h"
    using install_fresh_kinds [OF st, of ep n n' g] con by (simp add: captures_def)
qed

lemma scan_backlog_cases:
  assumes st: "stack_ok st" and run: "scan_backlog st free ep seen hs n = Some (n', hs', r)"
  shows "(r = None \<and> hs' = seen @ hs \<and> kind_of st n' = kind_of st n) \<or>
    (\<exists>A h B g rem. hs = A @ h # B \<and> hs' = seen @ A @ g # B \<and> r = Some (h, rem) \<and> captures st free n n' h g)"
  using run
proof (induction hs arbitrary: seen)
  case Nil
  then show ?case by simp
next
  case (Cons h hs)
  show ?case
  proof (cases "connected (tcp_state_of st n h)")
    case False
    then have "scan_backlog st free ep (seen @ [h]) hs n = Some (n', hs', r)"
      using Cons.prems by simp
    from Cons.IH [OF this] show ?thesis
    proof (elim disjE exE conjE)
      assume "r = None" "hs' = (seen @ [h]) @ hs" "kind_of st n' = kind_of st n"
      then show ?thesis by simp
    next
      fix A f B g rem
      assume split: "hs = A @ f # B" "hs' = (seen @ [h]) @ A @ g # B" and cap: "r = Some (f, rem)" "captures st free n n' f g"
      have "h # hs = (h # A) @ f # B" "hs' = seen @ (h # A) @ g # B" using split by simp_all
      then show ?thesis using cap by blast
    qed
  next
    case True
    obtain n1 c where c: "capture_slot st free ep h n = (n1, c)" by fastforce
    show ?thesis
    proof (cases c)
      case None
      then show ?thesis using Cons.prems True c capture_slot_cases(1) [OF st, of free ep h n n1] by simp
    next
      case (Some t)
      obtain a g rem where t: "t = (a, g, rem)" by (cases t) auto
      have cap: "captures st free n n1 h g" "a = h"
        using capture_slot_cases(2) [OF st, of free ep h n n1 a g rem] c Some t True by auto
      have "n' = n1" "hs' = seen @ g # hs" "r = Some (h, rem)"
        using Cons.prems True c Some t cap(2) by auto
      moreover have "h # hs = [] @ h # hs" "seen @ g # hs = seen @ [] @ g # hs" by simp_all
      ultimately show ?thesis using cap(1) by blast
    qed
  qed
qed

lemma accept_socket_cases:
  assumes st: "stack_ok st" and run: "accept_socket st free ep x s = Some (x', s', r)"
  obtains (none) n n' where "NET_STATE s = Some n" "s' = s\<lparr>NET_STATE := Some n'\<rparr>" "x' = x" "r = None" "kind_of st n' = kind_of st n"
      "kind_of st n (handle x) = Some KTcp"
  | (primary) n n' g rem where "NET_STATE s = Some n" "s' = s\<lparr>NET_STATE := Some n'\<rparr>" "x' = x\<lparr>handle := g\<rparr>" "r = Some (handle x, rem)"
      "captures st free n n' (handle x) g" "kind_of st n (handle x) = Some KTcp"
  | (spare) n n' A h B g rem where "NET_STATE s = Some n" "s' = s\<lparr>NET_STATE := Some n'\<rparr>" "backlog x = A @ h # B"
      "x' = x\<lparr>backlog := A @ g # B\<rparr>" "r = Some (h, rem)" "captures st free n n' h g" "kind_of st n (handle x) = Some KTcp"
proof -
  obtain n n' where n: "NET_STATE s = Some n" "s' = s\<lparr>NET_STATE := Some n'\<rparr>" and kh: "kind_of st n (handle x) = Some KTcp"
    and body: "(if connected (tcp_state_of st n (handle x))
            then (case capture_slot st free ep (handle x) n of
                    (n1, None) \<Rightarrow> Some (n1, x, None)
                  | (n1, Some (a, h', remote)) \<Rightarrow> Some (n1, x\<lparr>handle := h'\<rparr>, Some (a, remote)))
            else do { (n1, hs, r) \<leftarrow> scan_backlog st free ep [] (backlog x) n; Some (n1, x\<lparr>backlog := hs\<rparr>, r) }) = Some (n', x', r)"
    using run unfolding accept_socket_def with_net_def by (auto simp: bind_eq_Some_conv)
  show ?thesis
  proof (cases "connected (tcp_state_of st n (handle x))")
    case True
    obtain n1 c where c: "capture_slot st free ep (handle x) n = (n1, c)" by fastforce
    show ?thesis
    proof (cases c)
      case None
      then show ?thesis
        using none [OF n] body True c capture_slot_cases(1) [OF st, of free ep "handle x" n n1] kh by simp
    next
      case (Some t)
      obtain a g rem where t: "t = (a, g, rem)" by (cases t) auto
      have cap: "captures st free n n1 (handle x) g" "a = handle x"
        using capture_slot_cases(2) [OF st, of free ep "handle x" n n1 a g rem] c Some t True by auto
      then show ?thesis using primary [OF n, of g rem] body True c Some t kh by simp
    qed
  next
    case False
    then obtain hs where hs: "scan_backlog st free ep [] (backlog x) n = Some (n', hs, r)" "x' = x\<lparr>backlog := hs\<rparr>"
      using body by (auto simp: bind_eq_Some_conv)
    from scan_backlog_cases [OF st hs(1)] show ?thesis
    proof (elim disjE exE conjE)
      assume "r = None" "hs = [] @ backlog x" "kind_of st n' = kind_of st n"
      then show ?thesis using none [OF n] hs(2) kh by simp
    next
      fix A h B g rem
      assume "backlog x = A @ h # B" "hs = [] @ A @ g # B" "r = Some (h, rem)" "captures st free n n' h g"
      then show ?thesis using spare [OF n] hs(2) kh by simp
    qed
  qed
qed

lemma captures_owns:
  assumes "captures st free n n' h g" "owns tight (kind_of st n) d C"
  shows "owns tight (kind_of st n') d (add_mset (g, KTcp) C)"
  using owns_add [OF assms(2), of g KTcp] assms(1) by (simp add: captures_def)

lemma swap_claim:
  assumes "X' + {#(h, KTcp)#} = add_mset c X" "owns tight K d (add_mset c (X + (D + C)))"
  shows "owns tight K d (X' + (D + (tcp_claims [h] + C)))"
proof -
  have "X' + (D + (tcp_claims [h] + C)) = (X' + {#(h, KTcp)#}) + (D + C)" by (simp add: ac_simps)
  also have "\<dots> = add_mset c (X + (D + C))" unfolding assms(1) by simp
  finally show ?thesis using assms(2) by (simp only:)
qed

definition captured_handles :: "(nat \<times> endpoint option) option \<Rightarrow> nat list" where
  "captured_handles r = (case r of None \<Rightarrow> [] | Some c \<Rightarrow> [fst c])"

lemma accept_socket_held:
  assumes st: "stack_ok st" and run: "accept_socket st free ep x s = Some (x', s', r)"
    and held: "held tight st s (sock_claims x + (closing_claims s + C))"
  shows "held tight st s' (sock_claims x' + (closing_claims s' + (tcp_claims (captured_handles r) + C))) \<and> table_kept s s' \<and>
    s_fd x' = s_fd x \<and> sock_type x' = sock_type x \<and> (backlog x' = [] \<longleftrightarrow> backlog x = [])"
proof -
  obtain n where n: "NET_STATE s = Some n" and own: "owns tight (kind_of st n) (DHCP_HANDLE s) (sock_claims x + (closing_claims s + C))"
    using held unfolding held_def by blast
  have kf: "kind_for (sock_type x) = KTcp" if "kind_of st n (handle x) = Some KTcp"
    using owns_kind_for [OF own] that by simp
  from st run show ?thesis
  proof (cases rule: accept_socket_cases)
    case (none n1 n')
    then show ?thesis using n own by (simp add: held_def captured_handles_def table_kept_def)
  next
    case (primary n1 n' g rem)
    have x': "sock_type x' = sock_type x" "s_fd x' = s_fd x" "backlog x' = backlog x" "handle x' = g"
      using primary(3) by simp_all
    have own': "owns tight (kind_of st n') (DHCP_HANDLE s) (add_mset (g, KTcp) (sock_claims x + (closing_claims s + C)))"
      using captures_owns [OF primary(5)] own n primary(1) by simp
    have "sock_claims x' + {#(handle x, KTcp)#} = add_mset (g, KTcp) (sock_claims x)"
      using kf n primary(1,6) by (simp add: tcp_sock_claims x')
    from swap_claim [OF this own'] show ?thesis
      using primary(2,4) x' by (simp add: held_def captured_handles_def table_kept_def)
  next
    case (spare n1 n' A h B g rem)
    have x': "sock_type x' = sock_type x" "s_fd x' = s_fd x" "backlog x' = A @ g # B" "handle x' = handle x"
      using spare(4) by simp_all
    have own': "owns tight (kind_of st n') (DHCP_HANDLE s) (add_mset (g, KTcp) (sock_claims x + (closing_claims s + C)))"
      using captures_owns [OF spare(6)] own n spare(1) by simp
    have "sock_claims x' + {#(h, KTcp)#} = add_mset (g, KTcp) (sock_claims x)"
      using kf n spare(1,3,7) by (simp add: tcp_sock_claims x' ac_simps)
    from swap_claim [OF this own'] show ?thesis
      using spare(2,3,5) x' by (simp add: held_def captured_handles_def table_kept_def)
  qed
qed

section \<open>Closing\<close>

lemma close_listeners_owns:
  assumes st: "stack_ok st"
  shows "owns tight (kind_of st n) d (tcp_claims hs + C) \<Longrightarrow>
    \<exists>n'. close_listeners st hs n = Some n' \<and> owns tight (kind_of st n') d C"
proof (induction hs arbitrary: n)
  case Nil
  then show ?case by simp
next
  case (Cons h hs)
  let ?n = "remove_socket st h (tcp_close st h n)"
  have own: "owns tight (kind_of st n) d (add_mset (h, KTcp) (tcp_claims hs + C))" using Cons.prems by simp
  have "owns tight (kind_of st ?n) d (tcp_claims hs + C)"
    using owns_remove [OF own] by (simp add: stack_kinds [OF st])
  from Cons.IH [OF this] show ?case using ownsD [OF own] by (auto simp: on_kind_def)
qed

lemma dispose_socket_held:
  assumes st: "stack_ok st" and held: "held tight st s (sock_claims x + (closing_claims s + C))"
    and spare: "tight \<Longrightarrow> sock_type x \<noteq> TcpListener \<Longrightarrow> backlog x = []"
  obtains s' where "dispose_socket st now x s = Some s'" "held tight st s' (closing_claims s' + C)" "table_kept s s'"
proof -
  obtain n where n: "NET_STATE s = Some n" and own: "owns tight (kind_of st n) (DHCP_HANDLE s) (sock_claims x + (closing_claims s + C))"
    using held unfolding held_def by blast
  note kh = owns_kind_for [OF own]
  show ?thesis
  proof (cases "sock_type x")
    case TcpStream
    let ?s = "s\<lparr>NET_STATE := Some (tcp_close st (handle x) n), CLOSING_HANDLES := CLOSING_HANDLES s @ [(handle x, now)]\<rparr>"
    have kf: "kind_for (sock_type x) = KTcp" using TcpStream by (simp add: kind_for_def)
    have "owns tight (kind_of st n) (DHCP_HANDLE s) (tcp_claims (backlog x) + (closing_claims ?s + C))"
      using own by (simp add: tcp_sock_claims [OF kf] ac_simps)
    then have "owns tight (kind_of st n) (DHCP_HANDLE s) (closing_claims ?s + C)"
      by (rule owns_forget) (simp add: spare TcpStream)
    then have "held tight st ?s (closing_claims ?s + C)" by (simp add: held_def stack_kinds [OF st])
    moreover have "dispose_socket st now x s = Some ?s"
      using TcpStream n kh kf by (simp add: dispose_socket_def on_kind_def)
    ultimately show ?thesis using that by (simp add: table_kept_def)
  next
    case TcpListener
    have kf: "kind_for (sock_type x) = KTcp" using TcpListener by (simp add: kind_for_def)
    have "owns tight (kind_of st n) (DHCP_HANDLE s) (tcp_claims (handle x # backlog x) + (closing_claims s + C))"
      using own by (simp add: tcp_sock_claims [OF kf])
    from close_listeners_owns [OF st this] obtain n' where
      c: "close_listeners st (handle x # backlog x) n = Some n'" "owns tight (kind_of st n') (DHCP_HANDLE s) (closing_claims s + C)" by blast
    show ?thesis
      using that [of "s\<lparr>NET_STATE := Some n'\<rparr>"] TcpListener n c by (simp add: dispose_socket_def held_def table_kept_def del: close_listeners.simps)
  next
    case UdpDgram
    let ?n = "remove_socket st (handle x) (udp_close st (handle x) n)"
    have cl: "sock_claims x = add_mset (handle x, KUdp) (mset (map (\<lambda>h. (h, KUdp)) (backlog x)))"
      using UdpDgram by (simp add: sock_claims_def kind_for_def)
    have "owns tight (kind_of st n) (DHCP_HANDLE s) (add_mset (handle x, KUdp) (mset (map (\<lambda>h. (h, KUdp)) (backlog x)) + (closing_claims s + C)))"
      using own by (simp add: cl)
    from owns_remove [OF this]
    have "owns tight (kind_of st ?n) (DHCP_HANDLE s) (mset (map (\<lambda>h. (h, KUdp)) (backlog x)) + (closing_claims s + C))"
      by (simp add: stack_kinds [OF st])
    then have "owns tight (kind_of st ?n) (DHCP_HANDLE s) (closing_claims s + C)"
      by (rule owns_forget) (simp add: spare UdpDgram)
    then show ?thesis
      using that [of "s\<lparr>NET_STATE := Some ?n\<rparr>"] UdpDgram n kh by (simp add: dispose_socket_def held_def table_kept_def on_kind_def kind_for_def)
  qed
qed

section \<open>Descriptors\<close>

lemma alloc_fd_ok:
  assumes ok: "fds_ok s" and room: "RECYCLED_FDS s = [] \<Longrightarrow> NEXT_SOCK_FD s < 2147483647" and run: "alloc_fd s = (s', fd)"
  shows "fds_ok (s'\<lparr>SOCKETS := SOCKETS s' @ [x\<lparr>s_fd := fd\<rparr>]\<rparr>)" "SOCKETS s' = SOCKETS s" "NET_STATE s' = NET_STATE s"
    "CLOSING_HANDLES s' = CLOSING_HANDLES s" "DHCP_HANDLE s' = DHCP_HANDLE s" "SOCK_FD_BASE \<le> fd" "fd \<notin> s_fd ` set (SOCKETS s)"
proof -
  have keep: "SOCKETS s' = SOCKETS s" "NET_STATE s' = NET_STATE s" "CLOSING_HANDLES s' = CLOSING_HANDLES s" "DHCP_HANDLE s' = DHCP_HANDLE s"
    using run by (auto simp: alloc_fd_def split: if_splits)
  have "fds_ok (s'\<lparr>SOCKETS := SOCKETS s' @ [x\<lparr>s_fd := fd\<rparr>]\<rparr>) \<and> SOCK_FD_BASE \<le> fd \<and> fd \<notin> s_fd ` set (SOCKETS s)"
  proof (cases "RECYCLED_FDS s = []")
    case True
    then have s': "s' = s\<lparr>NEXT_SOCK_FD := NEXT_SOCK_FD s + 1\<rparr>" "fd = NEXT_SOCK_FD s"
      using run room ok by (auto simp: alloc_fd_def fds_ok_def SOCK_FD_BASE_def i32_of_def)
    have "set (map s_fd (SOCKETS s)) = {SOCK_FD_BASE ..< NEXT_SOCK_FD s}" "SOCK_FD_BASE \<le> NEXT_SOCK_FD s"
      using ok True by (simp_all add: fds_ok_def)
    then show ?thesis using ok True room [OF True] by (auto simp: s' fds_ok_def)
  next
    case False
    then obtain fs where fs: "RECYCLED_FDS s = fs @ [fd]" "s' = s\<lparr>RECYCLED_FDS := fs\<rparr>"
      using run by (cases "RECYCLED_FDS s" rule: rev_cases) (auto simp: alloc_fd_def)
    have all: "set (map s_fd (SOCKETS s)) \<union> insert fd (set fs) = {SOCK_FD_BASE ..< NEXT_SOCK_FD s}"
      using ok by (simp add: fds_ok_def fs(1))
    then have "SOCK_FD_BASE \<le> fd" by (metis Un_insert_right atLeastLessThan_iff insertI1)
    then show ?thesis using ok all by (auto simp: fs fds_ok_def)
  qed
  then show "fds_ok (s'\<lparr>SOCKETS := SOCKETS s' @ [x\<lparr>s_fd := fd\<rparr>]\<rparr>)" "SOCK_FD_BASE \<le> fd" "fd \<notin> s_fd ` set (SOCKETS s)"
    by simp_all
  show "SOCKETS s' = SOCKETS s" "NET_STATE s' = NET_STATE s" "CLOSING_HANDLES s' = CLOSING_HANDLES s" "DHCP_HANDLE s' = DHCP_HANDLE s"
    by (fact keep)+
qed

end
