(* ===== verification/Spec2Isabelle.thy ===== *)
theory Spec2Isabelle
  imports Pipe Vfs Tmpfs_Properties Futex_Properties Virtio_Net_Transmit Mmap_Properties Clock_Properties Socket_Steps
begin

text \<open>
  A verification development for the Tyn kernel, a bare-metal x86-64 kernel in Rust that hosts
  the unmodified BEAM virtual machine.

  Components, in the order the theories build on each other.

  \<^item> \<open>Prelude\<close>: machine types, memory, iterator functions of the Rust core library.
  \<^item> \<open>Fd_Table\<close>: the slot table of open files (\<open>src/src/fd_table.rs\<close>).
\<close>

end
